(* ===== verification/Prelude.thy ===== *)
theory Prelude
  imports Main "HOL-Library.Word"
begin

text \<open>
  What the component theories share: the machine types, the values a fallible operation
  returns, the two combinators that play the part of \<^verbatim>\<open>VERIFY(...)\<close> and \<^verbatim>\<open>TRY(...)\<close>, and the
  lemma collections the component proofs draw on.

  \<^item> A kernel operation that can panic or return an errno gives a value of type
    \<^verbatim>\<open>'a kresult\<close>: \<^verbatim>\<open>Inr x\<close> for a normal return, \<^verbatim>\<open>Inl Verification_failed\<close> for a failed
    \<^verbatim>\<open>VERIFY\<close>, \<^verbatim>\<open>Inl Out_of_bounds\<close> for an access outside an object, \<^verbatim>\<open>Inl (Errno e)\<close> for
    \<^verbatim>\<open>return e\<close>.
  \<^item> An operation that also changes state returns the result paired with the new state, since
    a failing operation may have changed the state before it failed.
\<close>

unbundle bit_operations_syntax

section \<open>Machine types\<close>

type_synonym u8 = "8 word"
type_synonym u16 = "16 word"
type_synonym u32 = "32 word"
type_synonym u64 = "64 word"

text \<open>The targets are all 64-bit: \<^verbatim>\<open>size_t\<close> and \<^verbatim>\<open>FlatPtr\<close> are 64 bits wide.\<close>

abbreviation PAGE_SIZE :: nat where
  "PAGE_SIZE \<equiv> 4096"

text \<open>Sizes and addresses are natural numbers; where two of them are added or subtracted and the result may
  leave the 64 bits, the wrap-around is written out.\<close>

definition size_add :: "nat \<Rightarrow> nat \<Rightarrow> nat" where
  "size_add a b = (a + b) mod 2 ^ 64"

definition size_sub :: "nat \<Rightarrow> nat \<Rightarrow> nat" where
  "size_sub a b = (a + (2 ^ 64 - b mod 2 ^ 64)) mod 2 ^ 64"

lemma size_add_eq: "a + b < 2 ^ 64 \<Longrightarrow> size_add a b = a + b"
  unfolding size_add_def by (rule mod_less)

lemma size_sub_eq: "b \<le> a \<Longrightarrow> a < 2 ^ 64 \<Longrightarrow> size_sub a b = a - b"
proof -
  assume "b \<le> a" "a < 2 ^ 64"
  then have "a + (2 ^ 64 - b mod 2 ^ 64) = (a - b) + 2 ^ 64" "a - b < 2 ^ 64" by auto
  then show ?thesis by (simp only: size_sub_def mod_add_self2 mod_less)
qed

section \<open>Results\<close>

datatype errno =
    EPERM | ENOENT | ESRCH | EIO | E2BIG | EBADF | ENOMEM | EACCES | EFAULT | EEXIST
  | ENOTDIR | EISDIR | EINVAL | EFBIG | ESPIPE | EROFS | EPIPE | ERANGE | ENAMETOOLONG
  | EAGAIN | EOVERFLOW | ENOBUFS | ENOTSUP | EPROMISEVIOLATION | ENOEXEC | ELOOP | ETXTBSY | ENODEV | ENOTIMPL

datatype error =
    Verification_failed
  | Out_of_bounds
  | Errno errno

type_synonym 'a kresult = "error + 'a"

definition tryE :: "'e + 'a \<Rightarrow> ('a \<Rightarrow> 'e + 'b) \<Rightarrow> 'e + 'b" where
  "tryE m f = (case m of Inl e \<Rightarrow> Inl e | Inr x \<Rightarrow> f x)"

definition verifyE :: "bool \<Rightarrow> 'a kresult \<Rightarrow> 'a kresult" where
  "verifyE b k = (if b then k else Inl Verification_failed)"

definition tryS :: "('e + 'a) \<times> 's \<Rightarrow> ('a \<Rightarrow> 's \<Rightarrow> ('e + 'b) \<times> 's) \<Rightarrow> ('e + 'b) \<times> 's" where
  "tryS m f = (case m of (Inl e, s) \<Rightarrow> (Inl e, s) | (Inr x, s) \<Rightarrow> f x s)"

named_theorems res_simps \<open>inversion of results: a sequence returns iff every part does\<close>

lemma tryE_simps [simp]:
  "tryE (Inl e) f = Inl e"
  "tryE (Inr x) f = f x"
  by (simp_all add: tryE_def)

lemma verifyE_simps [simp]:
  "verifyE True k = k"
  "verifyE False k = Inl Verification_failed"
  by (simp_all add: verifyE_def)

lemma tryS_simps [simp]:
  "tryS (Inl e, s) f = (Inl e, s)"
  "tryS (Inr x, s) f = f x s"
  by (simp_all add: tryS_def)

lemma tryE_Inr_iff [res_simps]: "tryE m f = Inr y \<longleftrightarrow> (\<exists>x. m = Inr x \<and> f x = Inr y)"
  by (cases m) auto

lemma tryE_Inl_iff [res_simps]:
  "tryE m f = Inl e \<longleftrightarrow> m = Inl e \<or> (\<exists>x. m = Inr x \<and> f x = Inl e)"
  by (cases m) auto

lemma verifyE_Inr_iff [res_simps]: "verifyE b k = Inr y \<longleftrightarrow> b \<and> k = Inr y"
  by (cases b) auto

fun mapE :: "('a \<Rightarrow> 'e + 'b) \<Rightarrow> 'a list \<Rightarrow> 'e + 'b list" where
  "mapE f [] = Inr []"
| "mapE f (x # xs) = tryE (f x) (\<lambda>y. tryE (mapE f xs) (\<lambda>ys. Inr (y # ys)))"

lemma mapE_Inr: "(\<And>x. x \<in> set xs \<Longrightarrow> f x = Inr (g x)) \<Longrightarrow> mapE f xs = Inr (map g xs)"
  by (induction xs) simp_all

lemma tryE_assoc: "tryE (tryE m f) g = tryE m (\<lambda>x. tryE (f x) g)"
  by (cases m) auto

lemma tryS_Inr_iff [res_simps]:
  "tryS m f = (Inr y, t) \<longleftrightarrow> (\<exists>x s. m = (Inr x, s) \<and> f x s = (Inr y, t))"
  by (cases m; cases "fst m") auto

lemma tryS_Inl_iff [res_simps]:
  "tryS m f = (Inl e, t) \<longleftrightarrow> m = (Inl e, t) \<or> (\<exists>x s. m = (Inr x, s) \<and> f x s = (Inl e, t))"
  by (cases m; cases "fst m") auto

section \<open>Bits\<close>

lemma word_and_eq_0_iff:
  fixes a b :: "'a::len word"
  shows "a AND b = 0 \<longleftrightarrow> (\<forall>n. bit a n \<longrightarrow> \<not> bit b n)"
  by (auto simp: bit_eq_iff bit_simps dest: bit_imp_le_length)

lemma word_subset_iff:
  fixes a b :: "'a::len word"
  shows "a AND NOT b = 0 \<longleftrightarrow> (\<forall>n. bit a n \<longrightarrow> bit b n)"
  by (auto simp: bit_eq_iff bit_simps dest: bit_imp_le_length)

end
