(* ===== verification/Process_State.thy ===== *)
theory Process_State
  imports Prelude
begin

text \<open>
  The part of \<^verbatim>\<open>Kernel::Process\<close> the security system calls work on: the credentials
  (\<^verbatim>\<open>Kernel/Security/Credentials\<close>), the protected values of \<^verbatim>\<open>Kernel/Tasks/Process.h\<close>, the pledge
  promises and the gate \<^verbatim>\<open>require_promise\<close> every system call passes first.

  A flag \<^verbatim>\<open>mem\<close> says whether the kernel heap allocations of a call succeed; a failed allocation
  is \<^verbatim>\<open>ENOMEM\<close>. The flag \<^verbatim>\<open>promise_violation_pending\<close> belongs to the calling thread; it is kept in
  the process record because the calls modelled here run on one thread of the process.
\<close>

section \<open>Credentials\<close>

type_synonym user_id = u32
type_synonym group_id = u32
type_synonym process_id = int

record credentials =
  uid :: user_id
  gid :: group_id
  euid :: user_id
  egid :: group_id
  suid :: user_id
  sgid :: group_id
  extra_gids :: "group_id list"
  sid :: process_id
  pgid :: process_id

definition is_superuser :: "credentials \<Rightarrow> bool" where
  "is_superuser c \<longleftrightarrow> euid c = 0"

definition in_group :: "credentials \<Rightarrow> group_id \<Rightarrow> bool" where
  "in_group c g \<longleftrightarrow> gid c = g \<or> g \<in> set (extra_gids c)"

definition Credentials_create ::
  "bool \<Rightarrow> user_id \<Rightarrow> group_id \<Rightarrow> user_id \<Rightarrow> group_id \<Rightarrow> user_id \<Rightarrow> group_id \<Rightarrow> group_id list
    \<Rightarrow> process_id \<Rightarrow> process_id \<Rightarrow> credentials kresult" where
  "Credentials_create mem u g eu eg su sg extra s pg =
     (if mem
      then Inr \<lparr>uid = u, gid = g, euid = eu, egid = eg, suid = su, sgid = sg,
                extra_gids = extra, sid = s, pgid = pg\<rparr>
      else Inl (Errno ENOMEM))"

lemma Credentials_create_Inr [res_simps]:
  "Credentials_create mem u g eu eg su sg extra s pg = Inr c \<longleftrightarrow>
     mem \<and> c = \<lparr>uid = u, gid = g, euid = eu, egid = eg, suid = su, sgid = sg,
                extra_gids = extra, sid = s, pgid = pg\<rparr>"
  by (auto simp: Credentials_create_def)

section \<open>The process\<close>

record process =
  pid :: process_id
  ppid :: process_id
  credentials :: credentials
  process_group :: "process_id option"
  tty :: "nat option"
  dumpable :: bool
  has_promises :: bool
  promises :: u32
  has_execpromises :: bool
  execpromises :: u32
  is_kernel_process :: bool
  is_dead :: bool
  scoped_process_list :: "nat option"
  coredump_properties :: "(string \<times> string) option list"
  promise_violation_pending :: bool

text \<open>\<^verbatim>\<open>Process::sid\<close>, \<^verbatim>\<open>is_session_leader\<close>, \<^verbatim>\<open>pgid\<close>, \<^verbatim>\<open>is_group_leader\<close>. The process group of a
  process is the group object it references, not the \<^verbatim>\<open>pgid\<close> of its credentials.\<close>

definition Process_sid :: "process \<Rightarrow> process_id" where
  "Process_sid p = sid (credentials p)"

definition is_session_leader :: "process \<Rightarrow> bool" where
  "is_session_leader p \<longleftrightarrow> Process_sid p = pid p"

definition Process_pgid :: "process \<Rightarrow> process_id" where
  "Process_pgid p = (case process_group p of Some g \<Rightarrow> g | None \<Rightarrow> 0)"

definition is_group_leader :: "process \<Rightarrow> bool" where
  "is_group_leader p \<longleftrightarrow> Process_pgid p = pid p"

section \<open>Promises\<close>

datatype pledge =
    Pledge_stdio
  | Pledge_rpath
  | Pledge_wpath
  | Pledge_cpath
  | Pledge_dpath
  | Pledge_inet
  | Pledge_id
  | Pledge_proc
  | Pledge_ptrace
  | Pledge_exec
  | Pledge_unix
  | Pledge_recvfd
  | Pledge_sendfd
  | Pledge_fattr
  | Pledge_tty
  | Pledge_chown
  | Pledge_thread
  | Pledge_video
  | Pledge_accept
  | Pledge_settime
  | Pledge_sigaction
  | Pledge_setkeymap
  | Pledge_prot_exec
  | Pledge_map_fixed
  | Pledge_getkeymap
  | Pledge_mount
  | Pledge_unshare
  | Pledge_no_error

fun pledge_index :: "pledge \<Rightarrow> nat" where
  "pledge_index Pledge_stdio = 0"
| "pledge_index Pledge_rpath = 1"
| "pledge_index Pledge_wpath = 2"
| "pledge_index Pledge_cpath = 3"
| "pledge_index Pledge_dpath = 4"
| "pledge_index Pledge_inet = 5"
| "pledge_index Pledge_id = 6"
| "pledge_index Pledge_proc = 7"
| "pledge_index Pledge_ptrace = 8"
| "pledge_index Pledge_exec = 9"
| "pledge_index Pledge_unix = 10"
| "pledge_index Pledge_recvfd = 11"
| "pledge_index Pledge_sendfd = 12"
| "pledge_index Pledge_fattr = 13"
| "pledge_index Pledge_tty = 14"
| "pledge_index Pledge_chown = 15"
| "pledge_index Pledge_thread = 16"
| "pledge_index Pledge_video = 17"
| "pledge_index Pledge_accept = 18"
| "pledge_index Pledge_settime = 19"
| "pledge_index Pledge_sigaction = 20"
| "pledge_index Pledge_setkeymap = 21"
| "pledge_index Pledge_prot_exec = 22"
| "pledge_index Pledge_map_fixed = 23"
| "pledge_index Pledge_getkeymap = 24"
| "pledge_index Pledge_mount = 25"
| "pledge_index Pledge_unshare = 26"
| "pledge_index Pledge_no_error = 27"

fun to_string :: "pledge \<Rightarrow> string" where
  "to_string Pledge_stdio = ''stdio''"
| "to_string Pledge_rpath = ''rpath''"
| "to_string Pledge_wpath = ''wpath''"
| "to_string Pledge_cpath = ''cpath''"
| "to_string Pledge_dpath = ''dpath''"
| "to_string Pledge_inet = ''inet''"
| "to_string Pledge_id = ''id''"
| "to_string Pledge_proc = ''proc''"
| "to_string Pledge_ptrace = ''ptrace''"
| "to_string Pledge_exec = ''exec''"
| "to_string Pledge_unix = ''unix''"
| "to_string Pledge_recvfd = ''recvfd''"
| "to_string Pledge_sendfd = ''sendfd''"
| "to_string Pledge_fattr = ''fattr''"
| "to_string Pledge_tty = ''tty''"
| "to_string Pledge_chown = ''chown''"
| "to_string Pledge_thread = ''thread''"
| "to_string Pledge_video = ''video''"
| "to_string Pledge_accept = ''accept''"
| "to_string Pledge_settime = ''settime''"
| "to_string Pledge_sigaction = ''sigaction''"
| "to_string Pledge_setkeymap = ''setkeymap''"
| "to_string Pledge_prot_exec = ''prot_exec''"
| "to_string Pledge_map_fixed = ''map_fixed''"
| "to_string Pledge_getkeymap = ''getkeymap''"
| "to_string Pledge_mount = ''mount''"
| "to_string Pledge_unshare = ''unshare''"
| "to_string Pledge_no_error = ''no_error''"

definition all_pledges :: "pledge list" where
  "all_pledges =
     [Pledge_stdio,
      Pledge_rpath,
      Pledge_wpath,
      Pledge_cpath,
      Pledge_dpath,
      Pledge_inet,
      Pledge_id,
      Pledge_proc,
      Pledge_ptrace,
      Pledge_exec,
      Pledge_unix,
      Pledge_recvfd,
      Pledge_sendfd,
      Pledge_fattr,
      Pledge_tty,
      Pledge_chown,
      Pledge_thread,
      Pledge_video,
      Pledge_accept,
      Pledge_settime,
      Pledge_sigaction,
      Pledge_setkeymap,
      Pledge_prot_exec,
      Pledge_map_fixed,
      Pledge_getkeymap,
      Pledge_mount,
      Pledge_unshare,
      Pledge_no_error]"

definition pledge_bit :: "pledge \<Rightarrow> u32" where
  "pledge_bit x = push_bit (pledge_index x) 1"

definition has_promised :: "process \<Rightarrow> pledge \<Rightarrow> bool" where
  "has_promised p x \<longleftrightarrow> promises p AND pledge_bit x \<noteq> 0"

text \<open>\<^verbatim>\<open>set_coredump_property\<close> writes the first free slot of a fixed array of four.\<close>

fun set_coredump_property ::
  "string \<times> string \<Rightarrow> (string \<times> string) option list \<Rightarrow> unit kresult \<times> (string \<times> string) option list"
where
  "set_coredump_property kv [] = (Inl (Errno ENOBUFS), [])"
| "set_coredump_property kv (Some x # slots) =
     (let (r, slots') = set_coredump_property kv slots in (r, Some x # slots'))"
| "set_coredump_property kv (None # slots) = (Inr (), Some kv # slots)"

definition try_set_coredump_property :: "bool \<Rightarrow> string \<Rightarrow> string \<Rightarrow> process \<Rightarrow> unit kresult \<times> process" where
  "try_set_coredump_property mem k v p =
     (if \<not> mem then (Inl (Errno ENOMEM), p)
      else let (r, slots) = set_coredump_property (k, v) (coredump_properties p)
           in (r, p\<lparr>coredump_properties := slots\<rparr>))"

definition require_promise :: "bool \<Rightarrow> pledge \<Rightarrow> process \<Rightarrow> unit kresult \<times> process" where
  "require_promise mem promise p =
     (if \<not> has_promises p then (Inr (), p)
      else if has_promised p promise then (Inr (), p)
      else let p1 = p\<lparr>promise_violation_pending := True\<rparr>;
               p2 = snd (try_set_coredump_property mem ''pledge_violation'' (to_string promise) p1)
           in (Inl (Errno EPROMISEVIOLATION), p2))"

definition require_no_promises :: "process \<Rightarrow> unit kresult \<times> process" where
  "require_no_promises p =
     (if \<not> has_promises p then (Inr (), p)
      else (Inl (Errno EPROMISEVIOLATION), p\<lparr>promise_violation_pending := True\<rparr>))"

section \<open>Lemmas\<close>

text \<open>\<^verbatim>\<open>same_protected\<close>: nothing but the bookkeeping of a promise violation differs.\<close>

definition same_protected :: "process \<Rightarrow> process \<Rightarrow> bool" where
  "same_protected p q \<longleftrightarrow>
     p\<lparr>coredump_properties := [], promise_violation_pending := False\<rparr> =
     q\<lparr>coredump_properties := [], promise_violation_pending := False\<rparr>"

lemma same_protected_refl [simp]: "same_protected p p"
  by (simp add: same_protected_def)

lemma same_protectedD:
  assumes "same_protected p q"
  shows "credentials q = credentials p" "promises q = promises p" "has_promises q = has_promises p"
    "execpromises q = execpromises p" "has_execpromises q = has_execpromises p"
    "dumpable q = dumpable p" "pid q = pid p" "process_group q = process_group p"
  using assms by (cases p; cases q; simp add: same_protected_def)+

lemma length_set_coredump_property [simp]:
  "length (snd (set_coredump_property kv slots)) = length slots"
  by (induction kv slots rule: set_coredump_property.induct) (auto split: prod.splits)

lemma require_promise_Inr [res_simps]:
  "require_promise mem x p = (Inr (), q) \<longleftrightarrow> q = p \<and> (\<not> has_promises p \<or> has_promised p x)"
  by (auto simp: require_promise_def Let_def)

lemma require_promise_Inl:
  "require_promise mem x p = (Inl e, q) \<Longrightarrow>
     e = Errno EPROMISEVIOLATION \<and> has_promises p \<and> \<not> has_promised p x \<and>
     promise_violation_pending q \<and> same_protected p q"
  by (auto simp: require_promise_def Let_def try_set_coredump_property_def same_protected_def
           split: if_splits prod.splits)

lemma require_promise_cases:
  obtains (ok) "require_promise mem x p = (Inr (), p)" "\<not> has_promises p \<or> has_promised p x"
  | (violation) q where "require_promise mem x p = (Inl (Errno EPROMISEVIOLATION), q)"
      "has_promises p" "\<not> has_promised p x" "promise_violation_pending q" "same_protected p q"
proof (cases "require_promise mem x p")
  case (Pair r q)
  show thesis
  proof (cases r)
    case (Inl e)
    with Pair require_promise_Inl [of mem x p e q] that(2) show thesis by auto
  next
    case (Inr u)
    with Pair that(1) show thesis by (auto simp: res_simps)
  qed
qed

end
