(* ===== verification/Identity.thy ===== *)
theory Identity
  imports Process_State
begin

text \<open>
  The system calls of \<^verbatim>\<open>Kernel/Syscalls/setuid.cpp\<close> and \<^verbatim>\<open>Kernel/Syscalls/getuid.cpp\<close>: every
  change a process can make to its user and group ids, each in the order of checks of the code.
  The lemmas show what one call can do to the credentials; \<^verbatim>\<open>identity_run\<close> runs a sequence.
\<close>

section \<open>setuid.cpp\<close>

definition sys_seteuid :: "bool \<Rightarrow> user_id \<Rightarrow> process \<Rightarrow> u64 kresult \<times> process" where
  "sys_seteuid mem new_euid p =
     tryS (require_promise mem Pledge_id p) (\<lambda>_ p.
       if new_euid = -1 then (Inl (Errno EINVAL), p)
       else let c = credentials p in
         if new_euid \<noteq> uid c \<and> new_euid \<noteq> suid c \<and> \<not> is_superuser c then (Inl (Errno EPERM), p)
         else case Credentials_create mem (uid c) (gid c) new_euid (egid c) (suid c) (sgid c)
                     (extra_gids c) (sid c) (pgid c) of
             Inl e \<Rightarrow> (Inl e, p)
           | Inr new_credentials \<Rightarrow>
               let p1 = (if euid c \<noteq> new_euid then p\<lparr>dumpable := False\<rparr> else p)
               in (Inr 0, p1\<lparr>credentials := new_credentials\<rparr>))"

definition sys_setegid :: "bool \<Rightarrow> group_id \<Rightarrow> process \<Rightarrow> u64 kresult \<times> process" where
  "sys_setegid mem new_egid p =
     tryS (require_promise mem Pledge_id p) (\<lambda>_ p.
       if new_egid = -1 then (Inl (Errno EINVAL), p)
       else let c = credentials p in
         if new_egid \<noteq> gid c \<and> new_egid \<noteq> sgid c \<and> \<not> is_superuser c then (Inl (Errno EPERM), p)
         else case Credentials_create mem (uid c) (gid c) (euid c) new_egid (suid c) (sgid c)
                     (extra_gids c) (sid c) (pgid c) of
             Inl e \<Rightarrow> (Inl e, p)
           | Inr new_credentials \<Rightarrow>
               let p1 = (if egid c \<noteq> new_egid then p\<lparr>dumpable := False\<rparr> else p)
               in (Inr 0, p1\<lparr>credentials := new_credentials\<rparr>))"

definition sys_setuid :: "bool \<Rightarrow> user_id \<Rightarrow> process \<Rightarrow> u64 kresult \<times> process" where
  "sys_setuid mem new_uid p =
     tryS (require_promise mem Pledge_id p) (\<lambda>_ p.
       if new_uid = -1 then (Inl (Errno EINVAL), p)
       else let c = credentials p in
         if new_uid \<noteq> uid c \<and> new_uid \<noteq> euid c \<and> \<not> is_superuser c then (Inl (Errno EPERM), p)
         else case Credentials_create mem new_uid (gid c) new_uid (egid c) new_uid (sgid c)
                     (extra_gids c) (sid c) (pgid c) of
             Inl e \<Rightarrow> (Inl e, p)
           | Inr new_credentials \<Rightarrow>
               let p1 = (if euid c \<noteq> new_uid then p\<lparr>dumpable := False\<rparr> else p)
               in (Inr 0, p1\<lparr>credentials := new_credentials\<rparr>))"

definition sys_setgid :: "bool \<Rightarrow> group_id \<Rightarrow> process \<Rightarrow> u64 kresult \<times> process" where
  "sys_setgid mem new_gid p =
     tryS (require_promise mem Pledge_id p) (\<lambda>_ p.
       if new_gid = -1 then (Inl (Errno EINVAL), p)
       else let c = credentials p in
         if new_gid \<noteq> gid c \<and> new_gid \<noteq> egid c \<and> \<not> is_superuser c then (Inl (Errno EPERM), p)
         else case Credentials_create mem (uid c) new_gid (euid c) new_gid (suid c) new_gid
                     (extra_gids c) (sid c) (pgid c) of
             Inl e \<Rightarrow> (Inl e, p)
           | Inr new_credentials \<Rightarrow>
               let p1 = (if egid c \<noteq> new_gid then p\<lparr>dumpable := False\<rparr> else p)
               in (Inr 0, p1\<lparr>credentials := new_credentials\<rparr>))"

text \<open>\<^verbatim>\<open>UserID\<close> compares as the unsigned 32-bit type under it, so the test
  \<^verbatim>\<open>new_ruid < (uid_t)-1\<close> is an unsigned comparison with 0xffffffff.\<close>

definition sys_setreuid :: "bool \<Rightarrow> user_id \<Rightarrow> user_id \<Rightarrow> process \<Rightarrow> u64 kresult \<times> process" where
  "sys_setreuid mem new_ruid new_euid p =
     tryS (require_promise mem Pledge_id p) (\<lambda>_ p.
       let c = credentials p;
           new_ruid = (if new_ruid = -1 then uid c else new_ruid);
           new_euid = (if new_euid = -1 then euid c else new_euid);
           ok = (\<lambda>i. i = uid c \<or> i = euid c \<or> i = suid c)
       in if \<not> ok new_ruid \<or> \<not> ok new_euid then (Inl (Errno EPERM), p)
          else if new_ruid < -1 \<or> new_euid < -1 then (Inl (Errno EINVAL), p)
          else case Credentials_create mem new_ruid (gid c) new_euid (egid c) (suid c) (sgid c)
                      (extra_gids c) (sid c) (pgid c) of
              Inl e \<Rightarrow> (Inl e, p)
            | Inr new_credentials \<Rightarrow>
                let p1 = (if euid c \<noteq> new_euid then p\<lparr>dumpable := False\<rparr> else p)
                in (Inr 0, p1\<lparr>credentials := new_credentials\<rparr>))"

definition sys_setresuid ::
  "bool \<Rightarrow> user_id \<Rightarrow> user_id \<Rightarrow> user_id \<Rightarrow> process \<Rightarrow> u64 kresult \<times> process" where
  "sys_setresuid mem new_ruid new_euid new_suid p =
     tryS (require_promise mem Pledge_id p) (\<lambda>_ p.
       let c = credentials p;
           new_ruid = (if new_ruid = -1 then uid c else new_ruid);
           new_euid = (if new_euid = -1 then euid c else new_euid);
           new_suid = (if new_suid = -1 then suid c else new_suid);
           ok = (\<lambda>i. i = uid c \<or> i = euid c \<or> i = suid c)
       in if (\<not> ok new_ruid \<or> \<not> ok new_euid \<or> \<not> ok new_suid) \<and> \<not> is_superuser c
          then (Inl (Errno EPERM), p)
          else case Credentials_create mem new_ruid (gid c) new_euid (egid c) new_suid (sgid c)
                      (extra_gids c) (sid c) (pgid c) of
              Inl e \<Rightarrow> (Inl e, p)
            | Inr new_credentials \<Rightarrow>
                let p1 = (if euid c \<noteq> new_euid then p\<lparr>dumpable := False\<rparr> else p)
                in (Inr 0, p1\<lparr>credentials := new_credentials\<rparr>))"

definition sys_setregid :: "bool \<Rightarrow> group_id \<Rightarrow> group_id \<Rightarrow> process \<Rightarrow> u64 kresult \<times> process" where
  "sys_setregid mem new_rgid new_egid p =
     tryS (require_promise mem Pledge_id p) (\<lambda>_ p.
       let c = credentials p;
           new_rgid = (if new_rgid = -1 then gid c else new_rgid);
           new_egid = (if new_egid = -1 then egid c else new_egid);
           ok = (\<lambda>i. i = gid c \<or> i = egid c \<or> i = sgid c)
       in if \<not> ok new_rgid \<or> \<not> ok new_egid then (Inl (Errno EPERM), p)
          else case Credentials_create mem (uid c) new_rgid (euid c) new_egid (suid c) (sgid c)
                      (extra_gids c) (sid c) (pgid c) of
              Inl e \<Rightarrow> (Inl e, p)
            | Inr new_credentials \<Rightarrow>
                let p1 = (if egid c \<noteq> new_egid then p\<lparr>dumpable := False\<rparr> else p)
                in (Inr 0, p1\<lparr>credentials := new_credentials\<rparr>))"

definition sys_setresgid ::
  "bool \<Rightarrow> group_id \<Rightarrow> group_id \<Rightarrow> group_id \<Rightarrow> process \<Rightarrow> u64 kresult \<times> process" where
  "sys_setresgid mem new_rgid new_egid new_sgid p =
     tryS (require_promise mem Pledge_id p) (\<lambda>_ p.
       let c = credentials p;
           new_rgid = (if new_rgid = -1 then gid c else new_rgid);
           new_egid = (if new_egid = -1 then egid c else new_egid);
           new_sgid = (if new_sgid = -1 then sgid c else new_sgid);
           ok = (\<lambda>i. i = gid c \<or> i = egid c \<or> i = sgid c)
       in if (\<not> ok new_rgid \<or> \<not> ok new_egid \<or> \<not> ok new_sgid) \<and> \<not> is_superuser c
          then (Inl (Errno EPERM), p)
          else case Credentials_create mem (uid c) new_rgid (euid c) new_egid (suid c) new_sgid
                      (extra_gids c) (sid c) (pgid c) of
              Inl e \<Rightarrow> (Inl e, p)
            | Inr new_credentials \<Rightarrow>
                let p1 = (if egid c \<noteq> new_egid then p\<lparr>dumpable := False\<rparr> else p)
                in (Inr 0, p1\<lparr>credentials := new_credentials\<rparr>))"

text \<open>\<^verbatim>\<open>user_gids\<close> is what can be read at the user address: \<^verbatim>\<open>None\<close> for a faulting address. The
  hash table that removes duplicates is walked in hash order; \<^verbatim>\<open>hash_order\<close> is that order as a
  function of the list of inserted ids.\<close>

definition copy_n_from_user :: "'a list option \<Rightarrow> nat \<Rightarrow> 'a list kresult" where
  "copy_n_from_user src n =
     (case src of None \<Rightarrow> Inl (Errno EFAULT)
      | Some xs \<Rightarrow> if n \<le> length xs then Inr (take n xs) else Inl (Errno EFAULT))"

definition NGROUPS_MAX :: nat where
  "NGROUPS_MAX = 32"

definition sys_setgroups ::
  "(group_id list \<Rightarrow> group_id list) \<Rightarrow> bool \<Rightarrow> nat \<Rightarrow> group_id list option \<Rightarrow> process
    \<Rightarrow> u64 kresult \<times> process" where
  "sys_setgroups hash_order mem n user_gids p =
     tryS (require_promise mem Pledge_id p) (\<lambda>_ p.
       if n > NGROUPS_MAX then (Inl (Errno EINVAL), p)
       else let c = credentials p in
         if \<not> is_superuser c then (Inl (Errno EPERM), p)
         else if n = 0 then
           (case Credentials_create mem (uid c) (gid c) (euid c) (egid c) (suid c) (sgid c) []
                   (sid c) (pgid c) of
              Inl e \<Rightarrow> (Inl e, p)
            | Inr new_credentials \<Rightarrow> (Inr 0, p\<lparr>credentials := new_credentials\<rparr>))
         else if \<not> mem then (Inl (Errno ENOMEM), p)
         else (case copy_n_from_user user_gids n of
              Inl e \<Rightarrow> (Inl e, p)
            | Inr new_extra_gids \<Rightarrow>
                (case Credentials_create mem (uid c) (gid c) (euid c) (egid c) (suid c) (sgid c)
                        (hash_order (filter (\<lambda>g. g \<noteq> gid c) new_extra_gids)) (sid c) (pgid c) of
                   Inl e \<Rightarrow> (Inl e, p)
                 | Inr new_credentials \<Rightarrow> (Inr 0, p\<lparr>credentials := new_credentials\<rparr>))))"

section \<open>getuid.cpp\<close>

definition sys_getuid :: "bool \<Rightarrow> process \<Rightarrow> u64 kresult \<times> process" where
  "sys_getuid mem p = tryS (require_promise mem Pledge_stdio p) (\<lambda>_ p. (Inr (ucast (uid (credentials p))), p))"

definition sys_getgid :: "bool \<Rightarrow> process \<Rightarrow> u64 kresult \<times> process" where
  "sys_getgid mem p = tryS (require_promise mem Pledge_stdio p) (\<lambda>_ p. (Inr (ucast (gid (credentials p))), p))"

definition sys_geteuid :: "bool \<Rightarrow> process \<Rightarrow> u64 kresult \<times> process" where
  "sys_geteuid mem p = tryS (require_promise mem Pledge_stdio p) (\<lambda>_ p. (Inr (ucast (euid (credentials p))), p))"

definition sys_getegid :: "bool \<Rightarrow> process \<Rightarrow> u64 kresult \<times> process" where
  "sys_getegid mem p = tryS (require_promise mem Pledge_stdio p) (\<lambda>_ p. (Inr (ucast (egid (credentials p))), p))"

text \<open>What the calls that write to user memory store there is part of the result; \<^verbatim>\<open>writable\<close> says
  which of the user pointers can be written.\<close>

definition sys_getresuid ::
  "bool \<Rightarrow> bool \<times> bool \<times> bool \<Rightarrow> process \<Rightarrow> (user_id \<times> user_id \<times> user_id) kresult \<times> process" where
  "sys_getresuid mem writable p =
     tryS (require_promise mem Pledge_stdio p) (\<lambda>_ p.
       case writable of (wr, we, ws) \<Rightarrow>
         if wr \<and> we \<and> ws
         then (Inr (uid (credentials p), euid (credentials p), suid (credentials p)), p)
         else (Inl (Errno EFAULT), p))"

definition sys_getresgid ::
  "bool \<Rightarrow> bool \<times> bool \<times> bool \<Rightarrow> process \<Rightarrow> (group_id \<times> group_id \<times> group_id) kresult \<times> process" where
  "sys_getresgid mem writable p =
     tryS (require_promise mem Pledge_stdio p) (\<lambda>_ p.
       case writable of (wr, we, ws) \<Rightarrow>
         if wr \<and> we \<and> ws
         then (Inr (gid (credentials p), egid (credentials p), sgid (credentials p)), p)
         else (Inl (Errno EFAULT), p))"

definition sys_getgroups ::
  "bool \<Rightarrow> nat \<Rightarrow> bool \<Rightarrow> process \<Rightarrow> (nat \<times> group_id list) kresult \<times> process" where
  "sys_getgroups mem n writable p =
     tryS (require_promise mem Pledge_stdio p) (\<lambda>_ p.
       let extra = extra_gids (credentials p) in
       if n = 0 then (Inr (length extra, []), p)
       else if n \<noteq> length extra then (Inl (Errno EINVAL), p)
       else if writable then (Inr (0, extra), p)
       else (Inl (Errno EFAULT), p))"

section \<open>Sequences of identity system calls\<close>

datatype identity_op =
    Op_seteuid user_id
  | Op_setegid group_id
  | Op_setuid user_id
  | Op_setgid group_id
  | Op_setreuid user_id user_id
  | Op_setresuid user_id user_id user_id
  | Op_setregid group_id group_id
  | Op_setresgid group_id group_id group_id
  | Op_setgroups nat "group_id list option"

fun identity_step ::
  "(group_id list \<Rightarrow> group_id list) \<Rightarrow> bool \<Rightarrow> identity_op \<Rightarrow> process \<Rightarrow> u64 kresult \<times> process" where
  "identity_step ho mem (Op_seteuid e) p = sys_seteuid mem e p"
| "identity_step ho mem (Op_setegid e) p = sys_setegid mem e p"
| "identity_step ho mem (Op_setuid u) p = sys_setuid mem u p"
| "identity_step ho mem (Op_setgid g) p = sys_setgid mem g p"
| "identity_step ho mem (Op_setreuid r e) p = sys_setreuid mem r e p"
| "identity_step ho mem (Op_setresuid r e s) p = sys_setresuid mem r e s p"
| "identity_step ho mem (Op_setregid r e) p = sys_setregid mem r e p"
| "identity_step ho mem (Op_setresgid r e s) p = sys_setresgid mem r e s p"
| "identity_step ho mem (Op_setgroups n gs) p = sys_setgroups ho mem n gs p"

fun identity_run ::
  "(group_id list \<Rightarrow> group_id list) \<Rightarrow> (bool \<times> identity_op) list \<Rightarrow> process \<Rightarrow> process" where
  "identity_run ho [] p = p"
| "identity_run ho ((mem, op) # ops) p = identity_run ho ops (snd (identity_step ho mem op p))"

lemmas identity_defs =
  sys_seteuid_def sys_setegid_def sys_setuid_def sys_setgid_def sys_setreuid_def sys_setresuid_def
  sys_setregid_def sys_setresgid_def sys_setgroups_def

definition user_ids :: "credentials \<Rightarrow> user_id set" where
  "user_ids c = {uid c, euid c, suid c}"

definition group_ids :: "credentials \<Rightarrow> group_id set" where
  "group_ids c = {gid c, egid c, sgid c}"

section \<open>What one call may do\<close>

text \<open>
  The contract of the identity calls. A call that fails leaves the protected values alone. A call
  that returns changed at most the credentials and \<^verbatim>\<open>dumpable\<close>; it left the session and the group
  recorded in the credentials alone; it made the process undumpable if it changed an effective id;
  and unless the caller was the superuser it only moved the caller's own ids around.
\<close>

definition identity_spec :: "process \<Rightarrow> u64 kresult \<times> process \<Rightarrow> bool" where
  "identity_spec p res =
     (case res of
        (Inl e, q) \<Rightarrow> same_protected p q
      | (Inr r, q) \<Rightarrow>
          (\<not> has_promises p \<or> has_promised p Pledge_id) \<and> r = 0 \<and>
          q = p\<lparr>dumpable := dumpable q, credentials := credentials q\<rparr> \<and>
          (dumpable q \<longrightarrow> dumpable p) \<and>
          (euid (credentials q) \<noteq> euid (credentials p) \<or> egid (credentials q) \<noteq> egid (credentials p)
             \<longrightarrow> \<not> dumpable q) \<and>
          sid (credentials q) = sid (credentials p) \<and> pgid (credentials q) = pgid (credentials p) \<and>
          (\<not> is_superuser (credentials p) \<longrightarrow>
             user_ids (credentials q) \<subseteq> user_ids (credentials p) \<and>
             group_ids (credentials q) \<subseteq> group_ids (credentials p) \<and>
             extra_gids (credentials q) = extra_gids (credentials p)))"

lemma identity_spec_violation [simp]:
  "same_protected p q \<Longrightarrow> identity_spec p (Inl e, q)"
  by (simp add: identity_spec_def)

text \<open>Every call of \<^verbatim>\<open>setuid.cpp\<close> ends by installing new credentials unless the allocation fails.\<close>

lemma case_Credentials_create:
  "(case Credentials_create mem u g eu eg su sg ex s pg of Inl e \<Rightarrow> f e | Inr c \<Rightarrow> h c) =
     (if mem then h \<lparr>uid = u, gid = g, euid = eu, egid = eg, suid = su, sgid = sg,
                     extra_gids = ex, sid = s, pgid = pg\<rparr>
      else f (Errno ENOMEM))"
  by (simp add: Credentials_create_def)

lemmas identity_spec_simps = identity_spec_def case_Credentials_create Let_def user_ids_def group_ids_def

lemma seteuid_spec: "identity_spec p (sys_seteuid mem x p)"
  unfolding sys_seteuid_def
  by (cases rule: require_promise_cases [of mem Pledge_id p]) (auto simp: identity_spec_simps)

lemma setegid_spec: "identity_spec p (sys_setegid mem x p)"
  unfolding sys_setegid_def
  by (cases rule: require_promise_cases [of mem Pledge_id p]) (auto simp: identity_spec_simps)

lemma setuid_spec: "identity_spec p (sys_setuid mem x p)"
  unfolding sys_setuid_def
  by (cases rule: require_promise_cases [of mem Pledge_id p]) (auto simp: identity_spec_simps)

lemma setgid_spec: "identity_spec p (sys_setgid mem x p)"
  unfolding sys_setgid_def
  by (cases rule: require_promise_cases [of mem Pledge_id p]) (auto simp: identity_spec_simps)

lemma setreuid_spec: "identity_spec p (sys_setreuid mem x y p)"
  unfolding sys_setreuid_def
  by (cases rule: require_promise_cases [of mem Pledge_id p]) (auto simp: identity_spec_simps)

lemma setresuid_spec: "identity_spec p (sys_setresuid mem x y z p)"
  unfolding sys_setresuid_def
  by (cases rule: require_promise_cases [of mem Pledge_id p]) (auto simp: identity_spec_simps)

lemma setregid_spec: "identity_spec p (sys_setregid mem x y p)"
  unfolding sys_setregid_def
  by (cases rule: require_promise_cases [of mem Pledge_id p]) (auto simp: identity_spec_simps)

lemma setresgid_spec: "identity_spec p (sys_setresgid mem x y z p)"
  unfolding sys_setresgid_def
  by (cases rule: require_promise_cases [of mem Pledge_id p]) (auto simp: identity_spec_simps)

lemma setgroups_spec: "identity_spec p (sys_setgroups ho mem n gs p)"
  unfolding sys_setgroups_def
  by (cases rule: require_promise_cases [of mem Pledge_id p])
    (auto simp: identity_spec_simps split: sum.split)

lemmas identity_call_specs =
  seteuid_spec setegid_spec setuid_spec setgid_spec setreuid_spec setresuid_spec setregid_spec
  setresgid_spec setgroups_spec

lemma identity_step_spec: "identity_spec p (identity_step ho mem op p)"
  by (cases op) (simp_all add: identity_call_specs)

lemma identity_step_Inl: "identity_step ho mem op p = (Inl e, q) \<Longrightarrow> same_protected p q"
  using identity_step_spec [of p ho mem op] by (simp add: identity_spec_def)

section \<open>Runs\<close>

lemma identity_step_ids:
  assumes "0 \<notin> user_ids (credentials p)"
  shows "user_ids (credentials (snd (identity_step ho mem op p))) \<subseteq> user_ids (credentials p)"
proof -
  from assms have "\<not> is_superuser (credentials p)"
    by (auto simp: user_ids_def is_superuser_def)
  then show ?thesis
    using identity_step_spec [of p ho mem op]
    by (auto simp: identity_spec_def dest: same_protectedD split: prod.splits sum.splits)
qed

lemma identity_run_ids:
  "0 \<notin> user_ids (credentials p) \<Longrightarrow>
     user_ids (credentials (identity_run ho ops p)) \<subseteq> user_ids (credentials p)"
proof (induction ops arbitrary: p)
  case (Cons x ops)
  obtain mem op where x: "x = (mem, op)" by (cases x)
  let ?p' = "snd (identity_step ho mem op p)"
  from identity_step_ids [OF Cons.prems]
  have sub: "user_ids (credentials ?p') \<subseteq> user_ids (credentials p)" .
  with Cons.prems have "0 \<notin> user_ids (credentials ?p')" by blast
  from Cons.IH [OF this] sub x show ?case by simp
qed simp

lemma user_ids_nonempty [simp]: "user_ids c \<noteq> {}"
  by (simp add: user_ids_def)

lemma setuid_Inr:
  "sys_setuid mem u p = (Inr r, q) \<Longrightarrow> user_ids (credentials q) = {u}"
  unfolding sys_setuid_def
  by (cases rule: require_promise_cases [of mem Pledge_id p])
    (auto simp: case_Credentials_create Let_def user_ids_def split: if_split_asm)

text \<open>
  \<^bold>\<open>C7.\<close> Whatever identity system calls a process makes, with whatever arguments and
  allocation failures, a process none of whose three user ids is 0 never acquires a user id it did not
  have: its real, effective and saved user ids stay among the three it started with, and so it
  never becomes the superuser.
\<close>

theorem no_privilege_escalation:
  assumes "0 \<notin> user_ids (credentials p)"
  shows "user_ids (credentials (identity_run ho ops p)) \<subseteq> user_ids (credentials p) \<and>
    \<not> is_superuser (credentials (identity_run ho ops p))"
proof -
  have sub: "user_ids (credentials (identity_run ho ops p)) \<subseteq> user_ids (credentials p)"
    using assms by (rule identity_run_ids)
  with assms have "euid (credentials (identity_run ho ops p)) \<noteq> 0"
    by (auto simp: user_ids_def)
  with sub show ?thesis by (simp add: is_superuser_def)
qed

definition example_credentials :: credentials where
  "example_credentials = \<lparr>uid = 100, gid = 100, euid = 100, egid = 100, suid = 200, sgid = 100,
     extra_gids = [1, 2], sid = 7, pgid = 7\<rparr>"

definition example_process :: process where
  "example_process = \<lparr>pid = 7, ppid = 1, credentials = example_credentials, process_group = Some 7,
     tty = Some 0, dumpable = True, has_promises = False, promises = 0, has_execpromises = False,
     execpromises = 0, is_kernel_process = False, is_dead = False, scoped_process_list = None,
     coredump_properties = [None, None, None, None], promise_violation_pending = False\<rparr>"

theorem no_privilege_escalation_witness:
  "0 \<notin> user_ids (credentials example_process) \<and>
   \<not> is_superuser (credentials (identity_run remdups
        [(True, Op_seteuid 200), (True, Op_setresuid 0 0 0), (True, Op_setuid 0)] example_process))"
proof -
  have h: "0 \<notin> user_ids (credentials example_process)"
    by (simp add: user_ids_def example_process_def example_credentials_def)
  show ?thesis using h no_privilege_escalation [OF h] by blast
qed

text \<open>
  \<^bold>\<open>C14.\<close> Dropping privileges with \<^verbatim>\<open>setuid\<close> is permanent: after a successful
  \<^verbatim>\<open>setuid(u)\<close> with \<open>u\<close> other than 0, no sequence of identity system calls gives the process a user
  id other than \<open>u\<close>.
\<close>

theorem setuid_is_permanent:
  assumes "sys_setuid mem u p = (Inr r, q)" and "u \<noteq> 0"
  shows "user_ids (credentials (identity_run ho ops q)) = {u}"
proof -
  from setuid_Inr [OF assms(1)] have q: "user_ids (credentials q) = {u}" .
  with assms(2) have "user_ids (credentials (identity_run ho ops q)) \<subseteq> {u}"
    using identity_run_ids [of q ho ops] by simp
  then show ?thesis using user_ids_nonempty by blast
qed

definition root_process :: process where
  "root_process = example_process\<lparr>credentials := example_credentials\<lparr>uid := 0, euid := 0, suid := 0\<rparr>\<rparr>"

theorem setuid_is_permanent_witness:
  "fst (sys_setuid True 100 root_process) = Inr 0 \<and>
   user_ids (credentials (identity_run remdups [(True, Op_seteuid 0)]
     (snd (sys_setuid True 100 root_process)))) = {100}"
proof -
  have h: "sys_setuid True 100 root_process = (Inr 0, snd (sys_setuid True 100 root_process))"
    by (simp add: sys_setuid_def require_promise_def root_process_def example_process_def
        example_credentials_def Credentials_create_def is_superuser_def Let_def)
  have "(100::user_id) \<noteq> 0" by simp
  from setuid_is_permanent [OF h this] h show ?thesis by (metis fst_conv)
qed

text \<open>
  \<^bold>\<open>C15.\<close> Every identity system call meets its contract: a call that fails, for
  whatever reason, leaves credentials, promises, \<^verbatim>\<open>dumpable\<close> and the rest of the protected values
  alone; a call that returns changed only the credentials and \<^verbatim>\<open>dumpable\<close>, cleared \<^verbatim>\<open>dumpable\<close> if an
  effective id changed, and without superuser rights only permuted ids the process already had and
  kept its supplementary groups.
\<close>

theorem identity_calls_meet_contract:
  "identity_spec p (identity_step ho mem op p)"
  by (rule identity_step_spec)

text \<open>
  \<^bold>\<open>C16.\<close> \<^verbatim>\<open>setreuid\<close> never succeeds: the range check compares the requested ids,
  unsigned, with 0xffffffff, so every id that is not 0xffffffff itself is rejected. For a process
  whose own ids are ordinary the call fails on every argument, for the superuser too.
\<close>

theorem setreuid_always_fails:
  assumes "-1 \<notin> user_ids (credentials p)"
  shows "\<exists>e. fst (sys_setreuid mem r e' p) = Inl (Errno e) \<and>
    credentials (snd (sys_setreuid mem r e' p)) = credentials p"
proof (cases rule: require_promise_cases [of mem Pledge_id p])
  case ok
  have below: "x < -1" if "x \<noteq> (-1 :: u32)" for x
    using that by (simp add: word_order.not_eq_extremum)
  from assms have "uid (credentials p) < -1" "euid (credentials p) < -1" "suid (credentials p) < -1"
    by (auto simp: user_ids_def intro!: below)
  with ok(1) show ?thesis
    by (auto simp: sys_setreuid_def Let_def)
next
  case (violation q)
  then show ?thesis by (simp add: sys_setreuid_def same_protectedD)
qed

theorem setreuid_always_fails_witness:
  "fst (sys_setreuid True 100 200 example_process) = Inl (Errno EINVAL) \<and>
   credentials (snd (sys_setreuid True 100 200 example_process)) = credentials example_process"
proof -
  have h: "-1 \<notin> user_ids (credentials example_process)"
    by (simp add: user_ids_def example_process_def example_credentials_def)
  have "fst (sys_setreuid True 100 200 example_process) = Inl (Errno EINVAL)"
    by (simp add: sys_setreuid_def require_promise_def example_process_def example_credentials_def Let_def)
  with setreuid_always_fails [OF h, of True 100 200] show ?thesis by blast
qed

end
