(* ===== verification/Pledge.thy ===== *)
theory Pledge
  imports Process_State
begin

text \<open>
  \<^verbatim>\<open>sys$pledge\<close> of \<^verbatim>\<open>Kernel/Syscalls/pledge.cpp\<close>: parsing of the two promise strings, the checks
  against the promises already made, and the update of the protected values. The lemmas show that
  promises only shrink; the theory ends with the bit-mask meaning of a parsed string.
\<close>

section \<open>Strings from user space\<close>

text \<open>A \<^verbatim>\<open>Syscall::StringArgument\<close>: a null pointer, a pointer to memory that cannot be read with the
  length the caller claims, or readable characters.\<close>

datatype string_argument =
    Null_argument
  | Faulting_argument nat
  | Readable_argument string

fun argument_length :: "string_argument \<Rightarrow> nat" where
  "argument_length Null_argument = 0"
| "argument_length (Faulting_argument n) = n"
| "argument_length (Readable_argument s) = length s"

text \<open>\<^verbatim>\<open>FixedStringBuffer<Size>::copy_characters_from_user\<close>: the characters up to the first NUL.\<close>

definition copy_characters_from_user :: "nat \<Rightarrow> string_argument \<Rightarrow> string kresult" where
  "copy_characters_from_user buffer_size arg =
     (if argument_length arg > buffer_size then Inl (Errno EFAULT)
      else case arg of
          Readable_argument s \<Rightarrow> Inr (takeWhile (\<lambda>ch. ch \<noteq> CHR 0x00) s)
        | _ \<Rightarrow> Inl (Errno EFAULT))"

definition get_syscall_string_fixed_buffer :: "nat \<Rightarrow> string_argument \<Rightarrow> string kresult" where
  "get_syscall_string_fixed_buffer buffer_size arg =
     (if argument_length arg > buffer_size then Inl (Errno E2BIG)
      else copy_characters_from_user buffer_size arg)"

text \<open>\<^verbatim>\<open>StringView::for_each_split_view\<close> with \<^verbatim>\<open>SplitBehavior::Nothing\<close>: the nonempty parts.\<close>

function split_view :: "char \<Rightarrow> string \<Rightarrow> string list" where
  "split_view sep s =
     (if s = [] then []
      else let part = takeWhile (\<lambda>ch. ch \<noteq> sep) s;
               rest = drop (Suc (length part)) s
           in if part = [] then split_view sep rest else part # split_view sep rest)"
  by pat_completeness auto
termination
  by (relation "measure (\<lambda>(sep, s). length s)") auto

declare split_view.simps [simp del]

section \<open>sys\_pledge\<close>

definition pledge_named :: "string \<Rightarrow> pledge option" where
  "pledge_named part = List.find (\<lambda>x. part = to_string x) all_pledges"

fun parse_pledge_parts :: "string list \<Rightarrow> bool \<times> u32 \<Rightarrow> bool \<times> u32" where
  "parse_pledge_parts [] acc = acc"
| "parse_pledge_parts (part # parts) (valid, bits) =
     (case pledge_named part of
        Some x \<Rightarrow> parse_pledge_parts parts (valid, bits OR pledge_bit x)
      | None \<Rightarrow> parse_pledge_parts parts (False, bits))"

definition parse_pledge :: "string \<Rightarrow> bool \<times> u32" where
  "parse_pledge pledge_spec = parse_pledge_parts (split_view CHR '' '' pledge_spec) (True, 0)"

text \<open>\<^verbatim>\<open>sizeof(#x) + 1\<close> for each promise, which counts the terminating NUL too, less 1.\<close>

definition all_promises_strings_length_with_spaces :: nat where
  "all_promises_strings_length_with_spaces =
     sum_list (map (\<lambda>x. Suc (length (to_string x)) + 1) all_pledges) - 1"

record pledge_params =
  param_promises :: string_argument
  param_execpromises :: string_argument

definition provided :: "string_argument \<Rightarrow> bool" where
  "provided arg \<longleftrightarrow> arg \<noteq> Null_argument"

text \<open>\<^verbatim>\<open>get_promises\<close> copies one argument in; an absent one is the empty buffer.\<close>

definition get_promises :: "string_argument \<Rightarrow> string kresult" where
  "get_promises arg =
     (if provided arg
      then get_syscall_string_fixed_buffer all_promises_strings_length_with_spaces arg
      else Inr [])"

definition parse_provided :: "string_argument \<Rightarrow> string \<Rightarrow> u32 kresult" where
  "parse_provided arg buffer =
     (if provided arg
      then let (valid, bits) = parse_pledge buffer
           in if \<not> valid then Inl (Errno EINVAL) else Inr bits
      else Inr 0)"

text \<open>The check of one of the two masks against the one in force: with \<^verbatim>\<open>no_error\<close> pledged a request
  for more is silently cut down, otherwise it is refused. Both checks look for \<^verbatim>\<open>no_error\<close> in the
  ordinary promises.\<close>

definition check_promises :: "string_argument \<Rightarrow> bool \<Rightarrow> u32 \<Rightarrow> process \<Rightarrow> u32 \<Rightarrow> u32 kresult" where
  "check_promises arg has_bits bits p new_bits =
     (if provided arg \<and> has_bits \<and> new_bits AND NOT bits \<noteq> 0
      then if promises p AND pledge_bit Pledge_no_error = 0 then Inl (Errno EPERM)
           else Inr (new_bits AND bits)
      else Inr new_bits)"

definition sys_pledge :: "pledge_params option \<Rightarrow> process \<Rightarrow> u64 kresult \<times> process" where
  "sys_pledge user_params p =
     (case user_params of
        None \<Rightarrow> (Inl (Errno EFAULT), p)
      | Some params \<Rightarrow>
          let res =
            tryE (get_promises (param_promises params)) (\<lambda>promises_buffer.
            tryE (get_promises (param_execpromises params)) (\<lambda>execpromises_buffer.
            tryE (parse_provided (param_promises params) promises_buffer) (\<lambda>new_promises.
            tryE (parse_provided (param_execpromises params) execpromises_buffer) (\<lambda>new_execpromises.
            tryE (check_promises (param_promises params) (has_promises p) (promises p) p new_promises) (\<lambda>new_promises.
            tryE (check_promises (param_execpromises params) (has_execpromises p) (execpromises p) p new_execpromises) (\<lambda>new_execpromises.
              Inr (new_promises, new_execpromises)))))))
          in case res of
               Inl e \<Rightarrow> (Inl e, p)
             | Inr (new_promises, new_execpromises) \<Rightarrow>
                 let p1 = (if provided (param_promises params)
                           then p\<lparr>has_promises := True, promises := new_promises\<rparr> else p);
                     p2 = (if provided (param_execpromises params)
                           then p1\<lparr>has_execpromises := True, execpromises := new_execpromises\<rparr> else p1)
                 in (Inr 0, p2))"

section \<open>Promises only shrink\<close>

lemma and_not_self [simp]: "(a AND b) AND NOT b = (0 :: u32)"
  by (simp add: and.assoc)

lemma check_promises_subset:
  assumes "check_promises arg True bits p new = Inr m" and "provided arg"
  shows "m AND NOT bits = 0"
  using assms by (auto simp: check_promises_def split: if_splits)

text \<open>\<^verbatim>\<open>narrows p q\<close>: \<open>q\<close> holds no promise \<open>p\<close> did not hold, and is still restricted if \<open>p\<close> was.\<close>

definition narrows :: "process \<Rightarrow> process \<Rightarrow> bool" where
  "narrows p q \<longleftrightarrow>
     (has_promises p \<longrightarrow> has_promises q \<and> promises q AND NOT (promises p) = 0) \<and>
     (has_execpromises p \<longrightarrow> has_execpromises q \<and> execpromises q AND NOT (execpromises p) = 0)"

lemma and_not_trans: "a AND NOT b = 0 \<Longrightarrow> b AND NOT c = 0 \<Longrightarrow> a AND NOT c = (0 :: u32)"
  by (simp add: word_subset_iff)

lemma narrows_refl [simp]: "narrows p p"
  by (simp add: narrows_def)

lemma narrows_trans: "narrows p q \<Longrightarrow> narrows q r \<Longrightarrow> narrows p r"
  unfolding narrows_def using and_not_trans by blast

lemma narrows_promised:
  assumes "narrows p q" and "has_promises p" and "\<not> has_promised p x"
  shows "has_promises q \<and> \<not> has_promised q x"
proof -
  from assms(1,2) have q: "has_promises q" and "promises q AND NOT (promises p) = 0"
    by (simp_all add: narrows_def)
  then have "bit (promises p) n" if "bit (promises q) n" for n
    using that by (simp add: word_subset_iff)
  with assms(3) q show ?thesis by (auto simp: has_promised_def word_and_eq_0_iff)
qed

lemma sys_pledge_Inl: "sys_pledge up p = (Inl e, q) \<Longrightarrow> q = p"
  by (auto simp: sys_pledge_def Let_def split: option.splits sum.splits prod.splits)

lemma sys_pledge_narrows: "sys_pledge up p = (r, q) \<Longrightarrow> narrows p q"
  by (cases "has_promises p"; cases "has_execpromises p")
    (auto simp: sys_pledge_def Let_def narrows_def res_simps
      split: option.splits sum.splits prod.splits if_splits dest: check_promises_subset)

section \<open>What a promise string means\<close>

lemma set_all_pledges: "set all_pledges = UNIV"
  using pledge.exhaust by (auto simp: all_pledges_def)

lemma to_string_inject [simp]: "to_string x = to_string y \<longleftrightarrow> x = y"
  by (cases x; cases y; simp)

lemma pledge_index_less: "pledge_index x < 32"
  by (cases x) simp_all

lemma bit_pledge_bit [simp]: "bit (pledge_bit x) n \<longleftrightarrow> n = pledge_index x"
  using pledge_index_less [of x] by (auto simp: pledge_bit_def bit_simps)

lemma pledge_named_Some [simp]: "pledge_named part = Some y \<longleftrightarrow> part = to_string y"
proof
  show "pledge_named part = Some y \<Longrightarrow> part = to_string y"
    by (auto simp: pledge_named_def find_Some_iff)
next
  assume part: "part = to_string y"
  have "pledge_named part \<noteq> None"
    using set_all_pledges part by (auto simp: pledge_named_def find_None_iff)
  then obtain z where z: "pledge_named part = Some z" by auto
  then have "part = to_string z" by (auto simp: pledge_named_def find_Some_iff)
  with part z show "pledge_named part = Some y" by simp
qed

lemma pledge_named_None [simp]: "pledge_named part = None \<longleftrightarrow> part \<notin> range to_string"
  by (auto simp: pledge_named_def find_None_iff set_all_pledges)

lemma parse_pledge_parts_valid:
  "fst (parse_pledge_parts parts (v, m)) \<longleftrightarrow> v \<and> set parts \<subseteq> range to_string"
proof (induction parts arbitrary: v m)
  case (Cons part parts)
  show ?case
    by (auto simp: Cons.IH split: option.split)
qed simp

lemma parse_pledge_parts_bits:
  "bit (snd (parse_pledge_parts parts (v, m))) n \<longleftrightarrow>
     bit m n \<or> (\<exists>x. to_string x \<in> set parts \<and> n = pledge_index x)"
proof (induction parts arbitrary: v m)
  case (Cons part parts)
  show ?case
    by (auto simp: Cons.IH bit_simps split: option.split)
qed simp

lemma pledge_index_inject [simp]: "pledge_index x = pledge_index y \<longleftrightarrow> x = y"
  by (cases x; cases y; simp)


section \<open>Sequences of pledge calls\<close>

fun pledge_run :: "pledge_params option list \<Rightarrow> process \<Rightarrow> process" where
  "pledge_run [] p = p"
| "pledge_run (up # ups) p = pledge_run ups (snd (sys_pledge up p))"

lemma pledge_run_narrows: "narrows p (pledge_run ups p)"
proof (induction ups arbitrary: p)
  case (Cons up ups)
  have "narrows p (snd (sys_pledge up p))"
    by (rule sys_pledge_narrows [of up p "fst (sys_pledge up p)"]) simp
  from narrows_trans [OF this Cons.IH] show ?case by simp
qed simp

definition example_pledged :: process where
  "example_pledged =
     \<lparr>pid = 7, ppid = 1, credentials = \<lparr>uid = 100, gid = 100, euid = 100, egid = 100, suid = 200,
        sgid = 100, extra_gids = [1, 2], sid = 7, pgid = 7\<rparr>, process_group = Some 7, tty = None,
      dumpable = True, has_promises = True, promises = pledge_bit Pledge_stdio, has_execpromises = False,
      execpromises = 0, is_kernel_process = False, is_dead = False, scoped_process_list = None,
      coredump_properties = [], promise_violation_pending = False\<rparr>"

text \<open>
  \<^bold>\<open>C18.\<close> Pledging only ever gives promises up: whatever \<^verbatim>\<open>pledge\<close> calls a process makes,
  with or without \<^verbatim>\<open>no_error\<close>, once it has made promises it stays restricted, and a promise it
  did not hold before it does not hold afterwards. A failing call changes nothing.
\<close>

theorem pledge_only_narrows:
  "narrows p (pledge_run ups p) \<and>
   (\<forall>x. has_promises p \<and> \<not> has_promised p x \<longrightarrow>
      has_promises (pledge_run ups p) \<and> \<not> has_promised (pledge_run ups p) x) \<and>
   (\<forall>up e q. sys_pledge up p = (Inl e, q) \<longrightarrow> q = p)"
  using pledge_run_narrows narrows_promised sys_pledge_Inl by metis

theorem pledge_only_narrows_witness:
  "has_promises example_pledged \<and> \<not> has_promised example_pledged Pledge_exec \<and>
   \<not> has_promised (pledge_run
      [Some \<lparr>param_promises = Readable_argument ''stdio exec'', param_execpromises = Null_argument\<rparr>]
      example_pledged) Pledge_exec"
proof -
  have h: "has_promises example_pledged \<and> \<not> has_promised example_pledged Pledge_exec"
    by (simp add: example_pledged_def has_promised_def word_and_eq_0_iff)
  with pledge_only_narrows [of example_pledged] show ?thesis by blast
qed

end
