(* ===== verification/Builtin_Bits.thy ===== *)
theory Builtin_Bits
  imports Prelude
begin

text \<open>
  The bit-scanning helpers of \<^verbatim>\<open>AK/BuiltinWrappers.h\<close>, in the portable form the header gives for
  compilers without builtins, and what they compute. The builtins the header otherwise uses are
  documented to compute the same for nonzero arguments.
\<close>

definition bit_at :: "'a::len word \<Rightarrow> nat \<Rightarrow> bool" where
  "bit_at w i \<longleftrightarrow> drop_bit i w AND 1 \<noteq> 0"

definition popcount :: "'a::len word \<Rightarrow> nat" where
  "popcount w = length (filter (bit_at w) [0..<LENGTH('a)])"

definition count_trailing_zeroes :: "'a::len word \<Rightarrow> nat" where
  "count_trailing_zeroes w =
     (case List.find (bit_at w) [0..<LENGTH('a)] of Some i \<Rightarrow> i | None \<Rightarrow> LENGTH('a))"

text \<open>The portable \<^verbatim>\<open>count_leading_zeroes\<close> returns the index of the highest set bit.\<close>

definition count_leading_zeroes_portable :: "'a::len word \<Rightarrow> nat" where
  "count_leading_zeroes_portable w =
     (case List.find (bit_at w) (rev [0..<LENGTH('a)]) of Some i \<Rightarrow> i | None \<Rightarrow> LENGTH('a))"

definition bit_scan_forward :: "'a::len word \<Rightarrow> nat" where
  "bit_scan_forward w = (if w = 0 then 0 else 1 + count_trailing_zeroes w)"

section \<open>What they compute\<close>

lemma bit_at_iff [simp]: "bit_at w i \<longleftrightarrow> bit w i"
  by (simp add: bit_at_def bit_iff_odd_drop_bit even_iff_mod_2_eq_zero flip: and_one_eq)

lemma popcount_eq_card: "popcount (w :: 'a::len word) = card {i. bit w i}"
proof -
  have "popcount w = card (set (filter (bit w) [0..<LENGTH('a)]))"
    by (subst distinct_card) (simp_all add: popcount_def cong: filter_cong)
  also have "set (filter (bit w) [0..<LENGTH('a)]) = {i. bit w i}"
    by (auto dest: bit_imp_le_length)
  finally show ?thesis .
qed

lemma word_nonzero_bit: "(w :: 'a::len word) \<noteq> 0 \<Longrightarrow> \<exists>i<LENGTH('a). bit w i"
  by (metis bit_0_eq bit_eq_iff bit_imp_le_length bot_apply bot_bool_def)

lemma count_trailing_zeroes_least:
  assumes "(w :: 'a::len word) \<noteq> 0"
  shows "bit w (count_trailing_zeroes w)" "count_trailing_zeroes w < LENGTH('a)"
    "\<And>j. j < count_trailing_zeroes w \<Longrightarrow> \<not> bit w j"
proof -
  from word_nonzero_bit [OF assms] obtain i where "i < LENGTH('a)" "bit w i" by blast
  then have "List.find (bit_at w) [0..<LENGTH('a)] \<noteq> None"
    by (auto simp: find_None_iff)
  then obtain k where k: "List.find (bit_at w) [0..<LENGTH('a)] = Some k" by blast
  then have eq: "count_trailing_zeroes w = k" by (simp add: count_trailing_zeroes_def)
  from k show "bit w (count_trailing_zeroes w)" "count_trailing_zeroes w < LENGTH('a)"
    "\<And>j. j < count_trailing_zeroes w \<Longrightarrow> \<not> bit w j"
    unfolding eq by (auto simp: find_Some_iff)
qed

lemma bit_scan_forward_nonzero:
  "w \<noteq> 0 \<Longrightarrow> bit_scan_forward w - 1 = count_trailing_zeroes w"
  by (simp add: bit_scan_forward_def)

end
