(* ===== verification/Bitmap.thy ===== *)
theory Bitmap
  imports Builtin_Bits
begin

text \<open>
  \<^verbatim>\<open>AK/BitmapView.h\<close> and \<^verbatim>\<open>AK/Bitmap.h\<close>: the bitmaps the physical page allocator, the kernel heap and
  the Ext2 block allocator search. A bitmap is its bytes, the number of bits in use and the address
  of the first byte, because the code scans in aligned machine words and so branches on the address.
  Reading or writing a byte outside the buffer is \<^verbatim>\<open>Out_of_bounds\<close>. Sizes and indices are natural
  numbers; where the code adds two \<^verbatim>\<open>size_t\<close> arguments the wrap at 64 bits is written out. Words are
  loaded little-endian, as on every supported target.
\<close>

record bitmap =
  m_data :: "u8 list"
  m_size :: nat
  m_addr :: nat

definition ceil_div :: "nat \<Rightarrow> nat \<Rightarrow> nat" where
  "ceil_div a b = a div b + (if a mod b \<noteq> 0 \<and> (a > 0) = (b > 0) then 1 else 0)"

definition size_in_bytes :: "bitmap \<Rightarrow> nat" where
  "size_in_bytes b = ceil_div (m_size b) 8"

definition bitmask_first_byte :: "u8 list" where
  "bitmask_first_byte = [0xFF, 0xFE, 0xFC, 0xF8, 0xF0, 0xE0, 0xC0, 0x80]"

definition bitmask_last_byte :: "u8 list" where
  "bitmask_last_byte = [0x00, 0x1, 0x3, 0x7, 0xF, 0x1F, 0x3F, 0x7F]"

section \<open>Memory access\<close>

definition read_byte :: "bitmap \<Rightarrow> nat \<Rightarrow> u8 kresult" where
  "read_byte b i = (if i < length (m_data b) then Inr (m_data b ! i) else Inl Out_of_bounds)"

definition write_byte :: "bitmap \<Rightarrow> nat \<Rightarrow> u8 \<Rightarrow> bitmap kresult" where
  "write_byte b i v =
     (if i < length (m_data b) then Inr (b\<lparr>m_data := (m_data b)[i := v]\<rparr>) else Inl Out_of_bounds)"

definition word_of_bytes :: "u8 list \<Rightarrow> u64" where
  "word_of_bytes bs = foldr (\<lambda>x acc. ucast x OR push_bit 8 acc) bs 0"

definition read_word :: "bitmap \<Rightarrow> nat \<Rightarrow> u64 kresult" where
  "read_word b i =
     (if i + 8 \<le> length (m_data b) then Inr (word_of_bytes (take 8 (drop i (m_data b))))
      else Inl Out_of_bounds)"

section \<open>Single bits\<close>

definition get :: "bitmap \<Rightarrow> nat \<Rightarrow> bool kresult" where
  "get b index =
     verifyE (index < m_size b)
       (tryE (read_byte b (index div 8)) (\<lambda>byte. Inr (byte AND push_bit (index mod 8) 1 \<noteq> 0)))"

definition set_bit_to :: "bitmap \<Rightarrow> nat \<Rightarrow> bool \<Rightarrow> bitmap kresult" where
  "set_bit_to b index value =
     verifyE (index < m_size b)
       (tryE (read_byte b (index div 8)) (\<lambda>byte.
          if value then write_byte b (index div 8) (byte OR push_bit (index mod 8) 1)
          else write_byte b (index div 8) (byte AND NOT (push_bit (index mod 8) 1))))"

section \<open>Counting\<close>

text \<open>The three loops of \<^verbatim>\<open>count_in_range\<close>: byte by byte up to an aligned address, word by word, byte by
  byte. Positions are addresses.\<close>

function count_bytes :: "bitmap \<Rightarrow> nat \<Rightarrow> nat \<Rightarrow> nat \<Rightarrow> nat kresult" where
  "count_bytes b first until n =
     (if first < until
      then tryE (read_byte b (first - m_addr b)) (\<lambda>v. count_bytes b (Suc first) until (n + popcount v))
      else Inr n)"
  by pat_completeness auto
termination
  by (relation "measure (\<lambda>(b, first, until, n). until - first)") auto

function count_words :: "bitmap \<Rightarrow> nat \<Rightarrow> nat \<Rightarrow> nat \<Rightarrow> (nat \<times> nat) kresult" where
  "count_words b ptr_large last_large n =
     (if ptr_large < last_large
      then tryE (read_word b (ptr_large - m_addr b)) (\<lambda>v. count_words b (ptr_large + 8) last_large (n + popcount v))
      else Inr (ptr_large, n))"
  by pat_completeness auto
termination
  by (relation "measure (\<lambda>(b, p, l, n). l - p)") auto

declare count_bytes.simps [simp del] count_words.simps [simp del]

definition align_down :: "nat \<Rightarrow> nat" where
  "align_down a = a - a mod 8"

definition count_between :: "bitmap \<Rightarrow> nat \<Rightarrow> nat \<Rightarrow> nat \<Rightarrow> nat kresult" where
  "count_between b first until n =
     (let ptr_large = align_down (first + 7);
          ptr_large = (if ptr_large > until then until else ptr_large)
      in tryE (count_bytes b first ptr_large n) (\<lambda>n.
         tryE (count_words b ptr_large (align_down until) n) (\<lambda>(ptr_large, n).
         count_bytes b ptr_large until n)))"

definition count_in_range :: "bitmap \<Rightarrow> nat \<Rightarrow> nat \<Rightarrow> bool \<Rightarrow> nat kresult" where
  "count_in_range b start len value =
     verifyE (start < m_size b) (verifyE (size_add start len \<le> m_size b)
       (if len = 0 then Inr 0
        else
          let first = start div 8;
              last = size_add start len div 8
          in tryE
               (tryE (read_byte b first) (\<lambda>byte.
                  let byte = byte AND bitmask_first_byte ! (start mod 8) in
                  if first = last
                  then Inr (popcount (byte AND bitmask_last_byte ! (size_add start len mod 8)))
                  else
                    tryE (if last < size_in_bytes b
                          then tryE (read_byte b last) (\<lambda>lbyte.
                                 Inr (popcount byte + popcount (lbyte AND bitmask_last_byte ! (size_add start len mod 8))))
                          else Inr (popcount byte)) (\<lambda>n.
                    if Suc first < last
                    then count_between b (m_addr b + Suc first) (m_addr b + last) n
                    else Inr n)))
               (\<lambda>n. Inr (if \<not> value then len - n else n))))"

definition count_slow :: "bitmap \<Rightarrow> bool \<Rightarrow> nat kresult" where
  "count_slow b value = count_in_range b 0 (m_size b) value"

section \<open>Searching for a bit\<close>

function skip_bytes :: "bitmap \<Rightarrow> u8 \<Rightarrow> nat \<Rightarrow> nat \<Rightarrow> nat kresult" where
  "skip_bytes b byte i byte_count =
     (if i < byte_count
      then tryE (read_byte b i) (\<lambda>v. if v = byte then skip_bytes b byte (Suc i) byte_count else Inr i)
      else Inr i)"
  by pat_completeness auto
termination
  by (relation "measure (\<lambda>(b, byte, i, n). n - i)") auto

declare skip_bytes.simps [simp del]

definition find_first :: "bool \<Rightarrow> bitmap \<Rightarrow> nat option kresult" where
  "find_first VALUE b =
     (let byte_count = size_in_bytes b
      in tryE (skip_bytes b (if VALUE then 0x00 else 0xff) 0 byte_count) (\<lambda>i.
         if i = byte_count then Inr None
         else tryE (read_byte b i) (\<lambda>byte.
                let byte = (if \<not> VALUE then NOT byte else byte)
                in verifyE (byte \<noteq> 0) (Inr (Some (i * 8 + bit_scan_forward byte - 1))))))"

definition find_first_set :: "bitmap \<Rightarrow> nat option kresult" where
  "find_first_set b = find_first True b"

definition find_first_unset :: "bitmap \<Rightarrow> nat option kresult" where
  "find_first_unset b = find_first False b"

section \<open>Searching for a range of unset bits\<close>

text \<open>
  \<^verbatim>\<open>find_next_range_of_unset_bits\<close> in three loops: over the zero and one runs inside a 64-bit bucket,
  over the buckets, over the bits after the last whole bucket. \<^verbatim>\<open>Found len start\<close> is a return from
  inside a loop, \<^verbatim>\<open>Go free start\<close> is falling out of it with the run in progress. The counter
  \<^verbatim>\<open>viewed_bits\<close> is a \<^verbatim>\<open>u8\<close>; it never exceeds 64 here.
\<close>

datatype scan = Found nat nat | Go nat nat

lemma trailing_ones_pos:
  assumes "(w :: 'a::len word) \<noteq> 0"
  shows "0 < count_trailing_zeroes (NOT (drop_bit (count_trailing_zeroes w) w))"
proof -
  let ?v = "drop_bit (count_trailing_zeroes w) w"
  have v: "bit ?v 0" using count_trailing_zeroes_least(1) [OF assms] by (simp add: bit_drop_bit_eq)
  show ?thesis
  proof (cases "NOT ?v = 0")
    case True
    then have "List.find (bit_at (0 :: 'a word)) [0..<LENGTH('a)] = None"
      by (simp add: find_None_iff)
    with True show ?thesis by (simp add: count_trailing_zeroes_def)
  next
    case False
    from count_trailing_zeroes_least(1) [OF this] v show ?thesis
      by (metis bit_not_iff gr0I)
  qed
qed

function scan_bucket :: "nat \<Rightarrow> nat \<Rightarrow> nat \<Rightarrow> u64 \<Rightarrow> nat \<Rightarrow> nat \<Rightarrow> nat \<Rightarrow> scan" where
  "scan_bucket base min_length max_length bucket viewed_bits free_chunks start =
     (if viewed_bits < 64 then
        if bucket = 0 then
          scan_bucket base min_length max_length bucket 64 (free_chunks + (64 - viewed_bits))
            (if free_chunks = 0 then base + viewed_bits else start)
        else
          let trailing_zeroes = count_trailing_zeroes bucket;
              bucket = drop_bit trailing_zeroes bucket;
              start = (if free_chunks = 0 then base + viewed_bits else start);
              free_chunks = free_chunks + trailing_zeroes;
              viewed_bits = viewed_bits + trailing_zeroes
          in if free_chunks \<ge> min_length then Found (min free_chunks max_length) start
             else
               let trailing_ones = count_trailing_zeroes (NOT bucket)
               in scan_bucket base min_length max_length (drop_bit trailing_ones bucket)
                    (viewed_bits + trailing_ones) 0 start
      else Go free_chunks start)"
  by pat_completeness auto
termination
  by (relation "measure (\<lambda>(base, mn, mx, bucket, viewed, free, start). 64 - viewed)")
    (auto intro!: diff_less_mono2 simp: trailing_ones_pos)

declare scan_bucket.simps [simp del]

function scan_buckets ::
  "bitmap \<Rightarrow> nat \<Rightarrow> nat \<Rightarrow> nat \<Rightarrow> nat \<Rightarrow> nat \<Rightarrow> nat \<Rightarrow> scan kresult" where
  "scan_buckets b min_length max_length bucket_index start_bucket_bit free_chunks start =
     (if bucket_index < m_size b div 64 then
        tryE (read_word b (8 * bucket_index)) (\<lambda>bucket.
          if bucket = -1 then
            if free_chunks \<ge> min_length then Inr (Found (min free_chunks max_length) start)
            else scan_buckets b min_length max_length (Suc bucket_index) 0 0 start
          else if bucket = 0 then
            let start = (if free_chunks = 0 then bucket_index * 64 else start);
                free_chunks = free_chunks + 64
            in if free_chunks \<ge> max_length then Inr (Found max_length start)
               else scan_buckets b min_length max_length (Suc bucket_index) 0 free_chunks start
          else
            (case scan_bucket (bucket_index * 64) min_length max_length
                    (drop_bit start_bucket_bit bucket) start_bucket_bit free_chunks start of
               Found len start \<Rightarrow> Inr (Found len start)
             | Go free_chunks start \<Rightarrow>
                 scan_buckets b min_length max_length (Suc bucket_index) 0 free_chunks start))
      else Inr (Go free_chunks start))"
  by pat_completeness auto
termination
  by (relation "measure (\<lambda>(b, mn, mx, i, bit, free, start). m_size b div 64 - i)") auto

declare scan_buckets.simps [simp del]

function scan_trailing ::
  "bitmap \<Rightarrow> nat \<Rightarrow> nat \<Rightarrow> nat \<Rightarrow> nat \<Rightarrow> nat \<Rightarrow> nat \<Rightarrow> nat \<Rightarrow> scan kresult" where
  "scan_trailing b min_length max_length first_trailing_bit i trailing_bits free_chunks start =
     (if i < trailing_bits then
        tryE (get b (first_trailing_bit + i)) (\<lambda>v.
          if \<not> v then
            let start = (if free_chunks = 0 then first_trailing_bit + i else start);
                free_chunks = Suc free_chunks
            in if free_chunks \<ge> min_length then Inr (Found (min free_chunks max_length) start)
               else scan_trailing b min_length max_length first_trailing_bit (Suc i) trailing_bits free_chunks start
          else scan_trailing b min_length max_length first_trailing_bit (Suc i) trailing_bits 0 start)
      else Inr (Go free_chunks start))"
  by pat_completeness auto
termination
  by (relation "measure (\<lambda>(b, mn, mx, f, i, n, free, start). n - i)") auto

declare scan_trailing.simps [simp del]

text \<open>The result is the length found, if any, and the new value of the reference argument \<^verbatim>\<open>from\<close>.\<close>

definition find_next_range_of_unset_bits ::
  "bitmap \<Rightarrow> nat \<Rightarrow> nat \<Rightarrow> nat \<Rightarrow> (nat option \<times> nat) kresult" where
  "find_next_range_of_unset_bits b from min_length max_length =
     (if min_length > max_length then Inr (None, from)
      else
        tryE (scan_buckets b min_length max_length (from div 64) (from mod 64) 0 from) (\<lambda>r.
          case r of
            Found len start \<Rightarrow> Inr (Some len, start)
          | Go free_chunks start \<Rightarrow>
              if free_chunks < min_length then
                tryE (scan_trailing b min_length max_length (m_size b div 64 * 64) 0 (m_size b mod 64)
                        free_chunks start) (\<lambda>r.
                  case r of
                    Found len start \<Rightarrow> Inr (Some len, start)
                  | Go free_chunks start \<Rightarrow> Inr (None, start))
              else Inr (Some (min free_chunks max_length), start)))"

definition max_size :: nat where
  "max_size = 0xffffffff"

definition find_first_fit :: "bitmap \<Rightarrow> nat \<Rightarrow> nat option kresult" where
  "find_first_fit b minimum_length =
     tryE (find_next_range_of_unset_bits b 0 minimum_length minimum_length) (\<lambda>(len, start).
       Inr (case len of Some _ \<Rightarrow> Some start | None \<Rightarrow> None))"

text \<open>The two searches below loop until \<^verbatim>\<open>find_next_range_of_unset_bits\<close> finds nothing; not returning is
  \<^verbatim>\<open>None\<close>.\<close>

partial_function (option) find_longest_loop ::
  "bitmap \<Rightarrow> nat \<Rightarrow> nat \<Rightarrow> nat \<Rightarrow> nat \<Rightarrow> (nat \<times> nat) kresult option" where
  "find_longest_loop b max_length start max_region_start max_region_size =
     (case find_next_range_of_unset_bits b start (max_region_size + 1) max_length of
        Inl e \<Rightarrow> Some (Inl e)
      | Inr (None, _) \<Rightarrow> Some (Inr (max_region_start, max_region_size))
      | Inr (Some len, start) \<Rightarrow> find_longest_loop b max_length (start + len) start len)"

definition find_longest_range_of_unset_bits :: "bitmap \<Rightarrow> nat \<Rightarrow> (nat option \<times> nat) kresult option" where
  "find_longest_range_of_unset_bits b max_length =
     map_option (\<lambda>r. tryE r (\<lambda>(max_region_start, max_region_size).
         Inr (if max_region_size \<noteq> 0 then Some max_region_start else None, max_region_size)))
       (find_longest_loop b max_length 0 0 0)"

partial_function (option) find_best_fit_loop ::
  "bitmap \<Rightarrow> nat \<Rightarrow> nat \<Rightarrow> nat \<Rightarrow> nat \<Rightarrow> bool \<Rightarrow> nat option kresult option" where
  "find_best_fit_loop b minimum_length start best_region_start best_region_size found =
     (case find_next_range_of_unset_bits b start minimum_length best_region_size of
        Inl e \<Rightarrow> Some (Inl e)
      | Inr (None, _) \<Rightarrow> Some (Inr (if found then Some best_region_start else None))
      | Inr (Some len, start) \<Rightarrow>
          if best_region_size > len \<or> \<not> found
          then find_best_fit_loop b minimum_length (start + len) start len True
          else find_best_fit_loop b minimum_length (start + len) best_region_start best_region_size found)"

definition find_best_fit :: "bitmap \<Rightarrow> nat \<Rightarrow> nat option kresult option" where
  "find_best_fit b minimum_length = find_best_fit_loop b minimum_length 0 0 max_size False"

section \<open>Changing the bitmap\<close>

text \<open>\<^verbatim>\<open>set_range<VALUE, verify_that_all_bits_flip>\<close>. Unlike \<^verbatim>\<open>count_in_range\<close> it dereferences \<^verbatim>\<open>last\<close>
  without checking that it is inside the buffer.\<close>

definition mask_byte :: "bool \<Rightarrow> bool \<Rightarrow> bitmap \<Rightarrow> nat \<Rightarrow> u8 \<Rightarrow> bitmap kresult" where
  "mask_byte VALUE verify_flip b i byte_mask =
     tryE (read_byte b i) (\<lambda>v.
       verifyE (\<not> verify_flip \<or> (if VALUE then v AND byte_mask = 0 else v AND byte_mask = byte_mask))
         (write_byte b i (if VALUE then v OR byte_mask else v AND NOT byte_mask)))"

fun memset :: "bitmap \<Rightarrow> nat \<Rightarrow> u8 \<Rightarrow> nat \<Rightarrow> bitmap kresult" where
  "memset b i v 0 = Inr b"
| "memset b i v (Suc n) = tryE (write_byte b i v) (\<lambda>b. memset b (Suc i) v n)"

definition set_range :: "bool \<Rightarrow> bool \<Rightarrow> bitmap \<Rightarrow> nat \<Rightarrow> nat \<Rightarrow> bitmap kresult" where
  "set_range VALUE verify_flip b start len =
     verifyE (start < m_size b) (verifyE (size_add start len \<le> m_size b)
       (if len = 0 then Inr b
        else
          let first = start div 8;
              last = size_add start len div 8;
              byte_mask = bitmask_first_byte ! (start mod 8)
          in if first = last
             then mask_byte VALUE verify_flip b first
                    (byte_mask AND bitmask_last_byte ! (size_add start len mod 8))
             else
               tryE (mask_byte VALUE verify_flip b first byte_mask) (\<lambda>b.
               tryE (mask_byte VALUE verify_flip b last (bitmask_last_byte ! (size_add start len mod 8))) (\<lambda>b.
                 if Suc first < last
                 then memset b (Suc first) (if VALUE then 0xFF else 0x0) (last - Suc first)
                 else Inr b))))"

definition set_range_and_verify_that_all_bits_flip :: "bitmap \<Rightarrow> nat \<Rightarrow> nat \<Rightarrow> bool \<Rightarrow> bitmap kresult" where
  "set_range_and_verify_that_all_bits_flip b start len value = set_range value True b start len"

definition fill :: "bitmap \<Rightarrow> bool \<Rightarrow> bitmap kresult" where
  "fill b value = memset b 0 (if value then 0xff else 0x00) (size_in_bytes b)"

text \<open>\<^verbatim>\<open>Bitmap::create\<close> and \<^verbatim>\<open>Bitmap::grow\<close>; the bytes a fresh allocation happens to hold and its
  address are arguments.\<close>

definition Bitmap_create :: "bool \<Rightarrow> u8 list \<Rightarrow> nat \<Rightarrow> nat \<Rightarrow> bool \<Rightarrow> bitmap kresult" where
  "Bitmap_create mem junk addr new_size default_value =
     verifyE (new_size \<noteq> 0)
       (if \<not> mem then Inl (Errno ENOMEM)
        else fill \<lparr>m_data = take (ceil_div new_size 8) junk, m_size = new_size, m_addr = addr\<rparr> default_value)"

definition grow :: "u8 list \<Rightarrow> nat \<Rightarrow> bitmap \<Rightarrow> nat \<Rightarrow> bool \<Rightarrow> bitmap kresult" where
  "grow junk addr b new_size default_value =
     verifyE (new_size > m_size b)
       (let previous_size_bytes = size_in_bytes b;
            previous_size = m_size b;
            previous_data = m_data b;
            fresh = \<lparr>m_data = take (ceil_div new_size 8) junk, m_size = new_size, m_addr = addr\<rparr>
        in tryE (fill fresh default_value) (\<lambda>b.
           if previous_data \<noteq> []
           then let b = b\<lparr>m_data := take previous_size_bytes previous_data @ drop previous_size_bytes (m_data b)\<rparr>
                in if previous_size mod 8 \<noteq> 0
                   then set_range default_value False b previous_size (8 - previous_size mod 8)
                   else Inr b
           else Inr b))"

end
