(* ===== verification/Kernel_Heap.thy ===== *)
theory Kernel_Heap
  imports Bitmap
begin

text \<open>
  \<^verbatim>\<open>Kernel/Heap/Heap.h\<close>: the heap behind \<^verbatim>\<open>kmalloc\<close>. It hands out runs of chunks of a block of memory; a bitmap
  after the last chunk says which chunks are in use, and each allocation starts with a header that holds its
  length. Memory is a function from addresses to bytes, the bitmap's bytes excepted, which are in the
  bitmap. The template arguments are a record. An allocation of 128 chunks or more uses best fit, which
  may not return; that is the value \<open>None\<close>. The address sanitizer is not compiled in.
\<close>

record heap_config =
  CHUNK_SIZE :: nat
  HEAP_SCRUB_BYTE_ALLOC :: u32
  HEAP_SCRUB_BYTE_FREE :: u32

record heap =
  m_total_chunks :: nat
  m_allocated_chunks :: nat
  m_chunks :: nat
  m_bitmap :: bitmap
  m_memory :: "nat \<Rightarrow> u8"

section \<open>Memory\<close>

definition fill_memory :: "(nat \<Rightarrow> u8) \<Rightarrow> nat \<Rightarrow> u8 \<Rightarrow> nat \<Rightarrow> nat \<Rightarrow> u8" where
  "fill_memory mem ptr value n = (\<lambda>x. if ptr \<le> x \<and> x < ptr + n then value else mem x)"

definition read_size :: "(nat \<Rightarrow> u8) \<Rightarrow> nat \<Rightarrow> nat" where
  "read_size mem a = unat (word_of_bytes (map mem [a..<a + 8]))"

definition write_size :: "(nat \<Rightarrow> u8) \<Rightarrow> nat \<Rightarrow> nat \<Rightarrow> nat \<Rightarrow> u8" where
  "write_size mem a n = (\<lambda>x. if a \<le> x \<and> x < a + 8 then ucast (drop_bit (8 * (x - a)) (of_nat n :: u64)) else mem x)"

section \<open>The heap\<close>

definition AllocationHeaderSize :: nat where
  "AllocationHeaderSize = 16"

definition calculate_chunks :: "heap_config \<Rightarrow> nat \<Rightarrow> nat" where
  "calculate_chunks c memory_size = memory_size div (CHUNK_SIZE c + 1)"

definition Heap :: "heap_config \<Rightarrow> (nat \<Rightarrow> u8) \<Rightarrow> nat \<Rightarrow> nat \<Rightarrow> heap kresult" where
  "Heap c mem memory memory_size =
     (let total = calculate_chunks c memory_size;
          bits = memory + total * CHUNK_SIZE c
      in verifyE (total * CHUNK_SIZE c + (total + 7) div 8 \<le> memory_size)
           (Inr \<lparr>m_total_chunks = total, m_allocated_chunks = 0, m_chunks = memory,
                 m_bitmap = \<lparr>m_data = map mem [bits..<memory + memory_size], m_size = total, m_addr = bits\<rparr>,
                 m_memory = mem\<rparr>))"

definition calculate_memory_for_bytes :: "heap_config \<Rightarrow> nat \<Rightarrow> nat" where
  "calculate_memory_for_bytes c bytes =
     (let needed_chunks = size_sub (size_add (size_add AllocationHeaderSize bytes) (CHUNK_SIZE c)) 1 div CHUNK_SIZE c
      in size_add (needed_chunks * CHUNK_SIZE c mod 2 ^ 64) ((needed_chunks + 7) div 8))"

definition free_chunks :: "heap \<Rightarrow> nat" where
  "free_chunks h = size_sub (m_total_chunks h) (m_allocated_chunks h)"

definition best_fit_threshold :: nat where
  "best_fit_threshold = 128"

text \<open>The part of \<^verbatim>\<open>allocate\<close> after the search: align the address behind the header, write the header, mark the
  chunks, scrub.\<close>

definition place_allocation ::
  "heap_config \<Rightarrow> heap \<Rightarrow> nat \<Rightarrow> nat \<Rightarrow> nat \<Rightarrow> nat \<Rightarrow> bool \<Rightarrow> (nat option \<times> heap) kresult" where
  "place_allocation c h first_chunk chunks_needed alignment chunk_alignment caller_will_initialize_memory =
     (let a = m_chunks h + first_chunk * CHUNK_SIZE c;
          a = size_sub (size_add a alignment) ((a + AllocationHeaderSize) mod alignment);
          aligned_first_chunk = size_sub a (m_chunks h) div CHUNK_SIZE c
      in verifyE (first_chunk \<le> aligned_first_chunk)
           (verifyE (size_add aligned_first_chunk chunks_needed \<le> size_add (size_add first_chunk chunks_needed) chunk_alignment)
             (let ptr = a + AllocationHeaderSize;
                  mem = write_size (m_memory h) a chunks_needed
              in tryE (set_range_and_verify_that_all_bits_flip (m_bitmap h) aligned_first_chunk chunks_needed True) (\<lambda>bits.
                 let mem = (if \<not> caller_will_initialize_memory \<and> HEAP_SCRUB_BYTE_ALLOC c \<noteq> 0
                            then fill_memory mem ptr (ucast (HEAP_SCRUB_BYTE_ALLOC c)) (chunks_needed * CHUNK_SIZE c - AllocationHeaderSize)
                            else mem)
                 in verifyE (ptr mod alignment = 0)
                      (Inr (Some ptr, h\<lparr>m_bitmap := bits, m_allocated_chunks := size_add (m_allocated_chunks h) chunks_needed,
                                       m_memory := mem\<rparr>))))))"

definition chunks_for :: "heap_config \<Rightarrow> nat \<Rightarrow> nat" where
  "chunks_for c n = size_sub (size_add n (CHUNK_SIZE c)) 1 div CHUNK_SIZE c"

definition Heap_allocate :: "heap_config \<Rightarrow> heap \<Rightarrow> nat \<Rightarrow> nat \<Rightarrow> bool \<Rightarrow> (nat option \<times> heap) kresult option" where
  "Heap_allocate c h requested alignment caller_will_initialize_memory =
     (let alignment = (if alignment < CHUNK_SIZE c then CHUNK_SIZE c else alignment);
          real_size = size_add requested AllocationHeaderSize;
          chunks_needed = chunks_for c real_size;
          chunk_alignment = chunks_for c alignment
      in if chunks_needed > free_chunks h then Some (Inr (None, h))
         else
           map_option (\<lambda>first_chunk. tryE first_chunk (\<lambda>first_chunk.
               case first_chunk of
                 None \<Rightarrow> Inr (None, h)
               | Some first_chunk \<Rightarrow>
                   place_allocation c h first_chunk chunks_needed alignment chunk_alignment caller_will_initialize_memory))
             (if chunks_needed < best_fit_threshold
              then Some (find_first_fit (m_bitmap h) (size_add chunks_needed chunk_alignment))
              else find_best_fit (m_bitmap h) (size_add chunks_needed chunk_alignment)))"

definition Heap_deallocate :: "heap_config \<Rightarrow> heap \<Rightarrow> nat \<Rightarrow> heap kresult" where
  "Heap_deallocate c h ptr =
     (if ptr = 0 then Inr h
      else
        let a = size_sub ptr AllocationHeaderSize;
            top = m_chunks h + m_total_chunks h * CHUNK_SIZE c
        in verifyE (m_chunks h \<le> a \<and> ptr < top)
             (let start = size_sub a (m_chunks h) div CHUNK_SIZE c;
                  allocation_size_in_chunks = read_size (m_memory h) a
              in tryE (get (m_bitmap h) start) (\<lambda>allocated.
                 verifyE allocated
                   (verifyE (size_add a (allocation_size_in_chunks * CHUNK_SIZE c mod 2 ^ 64) \<le> top)
                     (tryE (set_range_and_verify_that_all_bits_flip (m_bitmap h) start allocation_size_in_chunks False) (\<lambda>bits.
                      verifyE (allocation_size_in_chunks \<le> m_allocated_chunks h)
                        (Inr (h\<lparr>m_bitmap := bits, m_allocated_chunks := m_allocated_chunks h - allocation_size_in_chunks,
                                m_memory :=
                                  if HEAP_SCRUB_BYTE_FREE c \<noteq> 0
                                  then fill_memory (m_memory h) a (ucast (HEAP_SCRUB_BYTE_FREE c)) (allocation_size_in_chunks * CHUNK_SIZE c)
                                  else m_memory h\<rparr>))))))))"

definition Heap_contains :: "heap_config \<Rightarrow> heap \<Rightarrow> nat \<Rightarrow> bool" where
  "Heap_contains c h ptr \<longleftrightarrow>
     m_chunks h \<le> size_sub ptr AllocationHeaderSize \<and> ptr < m_chunks h + m_total_chunks h * CHUNK_SIZE c"

definition total_bytes :: "heap_config \<Rightarrow> heap \<Rightarrow> nat" where
  "total_bytes c h = m_total_chunks h * CHUNK_SIZE c"

definition free_bytes :: "heap_config \<Rightarrow> heap \<Rightarrow> nat" where
  "free_bytes c h = free_chunks h * CHUNK_SIZE c"

definition allocated_bytes :: "heap_config \<Rightarrow> heap \<Rightarrow> nat" where
  "allocated_bytes c h = m_allocated_chunks h * CHUNK_SIZE c"

end
