(* ===== verification/Bitmap_Facts.thy ===== *)
theory Bitmap_Facts
  imports Bitmap
begin

text \<open>
  What the bitmap operations compute, stated over the bits \<^verbatim>\<open>tst b i\<close>: single-bit access, the
  word-wise count against the plain count, range updates, and the search for ranges of unset bits.
\<close>

section \<open>Well-formed bitmaps\<close>

definition tst :: "bitmap \<Rightarrow> nat \<Rightarrow> bool" where
  "tst b i = bit (m_data b ! (i div 8)) (i mod 8)"

definition bitmap_wf :: "bitmap \<Rightarrow> bool" where
  "bitmap_wf b \<longleftrightarrow> size_in_bytes b \<le> length (m_data b) \<and> m_size b < 2 ^ 64"

lemma ceil_div_8: "ceil_div n 8 = (n + 7) div 8"
proof -
  define q r where "q = n div 8" and "r = n mod 8"
  then have n: "n = 8 * q + r" "r < 8" by simp_all
  then show ?thesis by (cases "r = 0") (simp_all add: ceil_div_def)
qed

lemma size_in_bytes_eq: "size_in_bytes b = (m_size b + 7) div 8"
  by (simp add: size_in_bytes_def ceil_div_8)

lemma index_div_8_less: "(i::nat) < n \<Longrightarrow> i div 8 < (n + 7) div 8"
  by auto

lemma bitmap_wf_index: "bitmap_wf b \<Longrightarrow> i < m_size b \<Longrightarrow> i div 8 < length (m_data b)"
  using index_div_8_less [of i "m_size b"] by (simp add: bitmap_wf_def size_in_bytes_eq)

section \<open>Single bits\<close>

lemma and_exp_iff: "(w :: 'a::len word) AND 2 ^ k = 0 \<longleftrightarrow> \<not> bit w k"
  unfolding word_and_eq_0_iff by (auto simp: bit_exp_iff dest: bit_imp_le_length)

lemma get_eq: "bitmap_wf b \<Longrightarrow> i < m_size b \<Longrightarrow> get b i = Inr (tst b i)"
  using bitmap_wf_index [of b i] by (simp add: get_def read_byte_def tst_def and_exp_iff)

lemma div_mod_8_neq: "(j::nat) \<noteq> i \<Longrightarrow> j div 8 = i div 8 \<Longrightarrow> j mod 8 \<noteq> i mod 8"
  by (metis div_mult_mod_eq)

lemma set_bit_to_spec:
  assumes "bitmap_wf b" and "i < m_size b"
  obtains b' where "set_bit_to b i v = Inr b'" "bitmap_wf b'" "m_size b' = m_size b"
    "m_addr b' = m_addr b" "\<And>j. tst b' j = (if j = i then v else tst b j)"
proof -
  let ?k = "i div 8"
  let ?byte = "if v then m_data b ! ?k OR push_bit (i mod 8) 1
               else m_data b ! ?k AND NOT (push_bit (i mod 8) 1)"
  let ?b' = "b\<lparr>m_data := (m_data b)[?k := ?byte]\<rparr>"
  from bitmap_wf_index [OF assms] have k: "?k < length (m_data b)" .
  have "set_bit_to b i v = Inr ?b'"
    using assms k by (simp add: set_bit_to_def read_byte_def write_byte_def)
  moreover have "bitmap_wf ?b'"
    using assms by (simp add: bitmap_wf_def size_in_bytes_def)
  moreover have "tst ?b' j = (if j = i then v else tst b j)" for j
  proof (cases "j div 8 = ?k")
    case True
    with k show ?thesis
      using div_mod_8_neq [of j i] by (auto simp: tst_def bit_simps)
  next
    case False
    then show ?thesis by (auto simp: tst_def)
  qed
  ultimately show thesis using that [of ?b'] by simp
qed

section \<open>Counting\<close>

definition cnt :: "bitmap \<Rightarrow> nat \<Rightarrow> nat \<Rightarrow> nat" where
  "cnt b i j = card {k. i \<le> k \<and> k < j \<and> tst b k}"

lemma cnt_split: "i \<le> j \<Longrightarrow> j \<le> k \<Longrightarrow> cnt b i k = cnt b i j + cnt b j k"
proof -
  assume *: "i \<le> j" "j \<le> k"
  have "{x. i \<le> x \<and> x < k \<and> tst b x} = {x. i \<le> x \<and> x < j \<and> tst b x} \<union> {x. j \<le> x \<and> x < k \<and> tst b x}"
    using * by auto
  then show ?thesis unfolding cnt_def
    by (simp add: card_Un_disjoint disjoint_iff)
qed

lemma cnt_empty [simp]: "cnt b i i = 0"
  by (simp add: cnt_def)

lemma nat_less_8_cases: "(k::nat) < 8 \<longleftrightarrow> k \<in> {0, 1, 2, 3, 4, 5, 6, 7}"
  by auto

lemma bit_first_mask: "k < 8 \<Longrightarrow> j < 8 \<Longrightarrow> bit (bitmask_first_byte ! k) j \<longleftrightarrow> k \<le> j"
  by (auto simp: nat_less_8_cases bitmask_first_byte_def)

lemma bit_last_mask: "k < 8 \<Longrightarrow> j < 8 \<Longrightarrow> bit (bitmask_last_byte ! k) j \<longleftrightarrow> j < k"
  by (auto simp: nat_less_8_cases bitmask_last_byte_def)

lemma bit_u8_less: "bit (w :: u8) j \<Longrightarrow> j < 8"
  using bit_imp_le_length [of w j] by simp

text \<open>Counting the bits of a word that stand for positions \<open>8 * p + i\<close> up to \<open>8 * p + j\<close>.\<close>

lemma popcount_cnt:
  fixes w :: "'a::len word"
  assumes "\<And>n. n < LENGTH('a) \<Longrightarrow> bit w n \<longleftrightarrow> i \<le> n \<and> n < j \<and> tst b (p + n)" and "j \<le> LENGTH('a)"
  shows "popcount w = cnt b (p + i) (p + j)"
proof -
  have *: "i \<le> n \<and> n < j \<and> tst b (p + n)" if "bit w n" for n
    using assms(1) [OF bit_imp_le_length [OF that]] that by simp
  have "bij_betw (\<lambda>n. p + n) {n. bit w n} {k. p + i \<le> k \<and> k < p + j \<and> tst b k}"
  proof (rule bij_betw_byWitness [where f' = "\<lambda>k. k - p"])
    show "(\<lambda>n. p + n) ` {n. bit w n} \<subseteq> {k. p + i \<le> k \<and> k < p + j \<and> tst b k}"
      using * by auto
    show "(\<lambda>k. k - p) ` {k. p + i \<le> k \<and> k < p + j \<and> tst b k} \<subseteq> {n. bit w n}"
      using assms by auto
  qed auto
  then show ?thesis
    unfolding popcount_eq_card cnt_def by (rule bij_betw_same_card)
qed

lemma tst_byte: "n < 8 \<Longrightarrow> tst b (8 * p + n) = bit (m_data b ! p) n"
  by (simp add: tst_def)

lemma popcount_masked:
  assumes "i < 8" "j < 8"
  shows "popcount (m_data b ! p AND bitmask_first_byte ! i AND bitmask_last_byte ! j) = cnt b (8 * p + i) (8 * p + j)"
    "popcount (m_data b ! p AND bitmask_first_byte ! i) = cnt b (8 * p + i) (8 * p + 8)"
    "popcount (m_data b ! p AND bitmask_last_byte ! j) = cnt b (8 * p) (8 * p + j)"
  using popcount_cnt [where p = "8 * p" and i = i and j = j and b = b
      and w = "m_data b ! p AND bitmask_first_byte ! i AND bitmask_last_byte ! j"]
    popcount_cnt [where p = "8 * p" and i = i and j = 8 and b = b
      and w = "m_data b ! p AND bitmask_first_byte ! i"]
    popcount_cnt [where p = "8 * p" and i = 0 and j = j and b = b
      and w = "m_data b ! p AND bitmask_last_byte ! j"] assms
  by (auto simp: bit_simps bit_first_mask bit_last_mask tst_byte)

lemma popcount_byte: "popcount (m_data b ! p) = cnt b (8 * p) (8 * p + 8)"
  using popcount_cnt [where p = "8 * p" and i = 0 and j = 8 and b = b and w = "m_data b ! p"]
  by (auto simp: tst_byte)

lemma bit_word_of_bytes:
  "j < 8 * length bs \<Longrightarrow> j < 64 \<Longrightarrow> bit (word_of_bytes bs) j = bit (bs ! (j div 8)) (j mod 8)"
proof (induction bs arbitrary: j)
  case (Cons x bs)
  have eq: "word_of_bytes (x # bs) = ucast x OR push_bit 8 (word_of_bytes bs)"
    by (simp add: word_of_bytes_def)
  show ?case
  proof (cases "j < 8")
    case True
    then show ?thesis by (simp add: eq bit_simps)
  next
    case False
    with Cons.prems have "bit (word_of_bytes bs) (j - 8) = bit (bs ! ((j - 8) div 8)) ((j - 8) mod 8)"
      by (intro Cons.IH) auto
    moreover have "\<not> bit (ucast x :: u64) j"
      using False bit_u8_less [of x j] by (auto simp: bit_simps)
    moreover have "j div 8 = Suc ((j - 8) div 8)" "j mod 8 = (j - 8) mod 8"
      using False by (auto simp: le_div_geq le_mod_geq not_less)
    ultimately show ?thesis
      using False Cons.prems by (simp add: eq bit_simps)
  qed
qed simp

lemma read_word_eq:
  assumes "i + 8 \<le> length (m_data b)"
  obtains w where "read_word b i = Inr w" "\<And>n. n < 64 \<Longrightarrow> bit w n = tst b (8 * i + n)"
proof -
  let ?bs = "take 8 (drop i (m_data b))"
  have "bit (word_of_bytes ?bs) n = tst b (8 * i + n)" if "n < 64" for n
  proof -
    have "n div 8 < 8" using that by simp
    with assms that show ?thesis by (simp add: bit_word_of_bytes tst_def)
  qed
  with assms show thesis using that [of "word_of_bytes ?bs"] by (simp add: read_word_def)
qed

lemma count_bytes_eq:
  "i \<le> j \<Longrightarrow> j \<le> length (m_data b) \<Longrightarrow>
     count_bytes b (m_addr b + i) (m_addr b + j) n = Inr (n + cnt b (8 * i) (8 * j))"
proof (induction "j - i" arbitrary: i n)
  case 0
  then show ?case by (subst count_bytes.simps) simp
next
  case (Suc k)
  then have ij: "i < j" by simp
  have "count_bytes b (m_addr b + Suc i) (m_addr b + j) (n + popcount (m_data b ! i)) =
      Inr (n + popcount (m_data b ! i) + cnt b (8 * Suc i) (8 * j))"
    using Suc ij by (intro Suc(1)) auto
  moreover have "cnt b (8 * i) (8 * j) = cnt b (8 * i) (8 * i + 8) + cnt b (8 * Suc i) (8 * j)"
    using ij cnt_split [of "8 * i" "8 * i + 8" "8 * j" b] by (simp add: add.commute)
  ultimately show ?case
    using ij Suc.prems
    by (simp add: count_bytes.simps [of b "m_addr b + i" "m_addr b + j" n] read_byte_def popcount_byte)
qed

lemma count_words_eq:
  "i \<le> j \<Longrightarrow> j \<le> length (m_data b) \<Longrightarrow> 8 dvd (j - i) \<Longrightarrow>
     count_words b (m_addr b + i) (m_addr b + j) n = Inr (m_addr b + j, n + cnt b (8 * i) (8 * j))"
proof (induction "j - i" arbitrary: i n rule: less_induct)
  case less
  show ?case
  proof (cases "i = j")
    case True
    then show ?thesis by (subst count_words.simps) simp
  next
    case False
    with less.prems have "0 < j - i" by simp
    with less.prems(3) have "8 \<le> j - i" by (rule dvd_imp_le)
    then have ij: "i + 8 \<le> j" by simp
    from ij less.prems(2) have "i + 8 \<le> length (m_data b)" by simp
    then obtain w where w: "read_word b i = Inr w" "\<And>n. n < 64 \<Longrightarrow> bit w n = tst b (8 * i + n)"
      by (rule read_word_eq [where thesis = thesis]) (rule that)
    have pop: "popcount w = cnt b (8 * i) (8 * i + 64)"
      using popcount_cnt [where p = "8 * i" and i = 0 and j = 64 and b = b and w = w] w(2) by simp
    have "8 dvd (j - (i + 8))" using less.prems(3) by (simp add: dvd_diff_nat flip: diff_diff_left)
    then have "count_words b (m_addr b + (i + 8)) (m_addr b + j) (n + popcount w) =
        Inr (m_addr b + j, n + popcount w + cnt b (8 * (i + 8)) (8 * j))"
      using ij less.prems by (intro less.hyps) auto
    moreover have "cnt b (8 * i) (8 * j) = popcount w + cnt b (8 * (i + 8)) (8 * j)"
      unfolding pop using ij cnt_split [of "8 * i" "8 * i + 64" "8 * j" b] by (simp add: add_mult_distrib2)
    ultimately show ?thesis
      using ij w(1) by (simp add: count_words.simps [of b "m_addr b + i" "m_addr b + j" n] add.assoc)
  qed
qed

lemma align_down_le: "align_down a \<le> a"
  by (simp add: align_down_def)

lemma align_down_dvd: "8 dvd align_down a"
  by (simp add: align_down_def minus_mod_eq_mult_div)

lemma align_down_gt: "a < align_down a + 8"
  using mod_less_divisor [of 8 a] unfolding align_down_def by arith

text \<open>The part of \<^verbatim>\<open>count_in_range\<close> after the two end bytes: wherever the buffer starts in memory, the
  byte, word and byte loops together count the whole bytes between.\<close>

lemma count_between_eq:
  assumes ij: "i < j" and len: "j \<le> length (m_data b)"
  shows "count_between b (m_addr b + i) (m_addr b + j) n = Inr (n + cnt b (8 * i) (8 * j))"
proof -
  define p0 where "p0 = align_down (m_addr b + i + 7)"
  define p where "p = (if p0 > m_addr b + j then m_addr b + j else p0)"
  have unf: "count_between b (m_addr b + i) (m_addr b + j) n =
      tryE (count_bytes b (m_addr b + i) p n) (\<lambda>n.
        tryE (count_words b p (align_down (m_addr b + j)) n) (\<lambda>(ptr_large, n).
          count_bytes b ptr_large (m_addr b + j) n))"
    by (simp add: count_between_def p_def p0_def Let_def)
  have p0: "m_addr b + i \<le> p0"
    unfolding p0_def using align_down_gt [of "m_addr b + i + 7"] by simp
  then have "m_addr b + i \<le> p" "p \<le> m_addr b + j" using ij by (auto simp: p_def)
  then obtain k where k: "p = m_addr b + k" "i \<le> k" "k \<le> j"
    by (intro that [of "p - m_addr b"]) auto
  have step1: "count_bytes b (m_addr b + i) p n = Inr (n + cnt b (8 * i) (8 * k))"
    using k len count_bytes_eq [of i k b n] by simp
  let ?n = "n + cnt b (8 * i) (8 * k)"
  have step3: "count_bytes b (m_addr b + l) (m_addr b + j) m = Inr (m + cnt b (8 * l) (8 * j))"
    if "l \<le> j" for l m using that len by (rule count_bytes_eq)
  show ?thesis
  proof (cases "p < align_down (m_addr b + j)")
    case True
    with k obtain l where l: "align_down (m_addr b + j) = m_addr b + l" "k < l" "l \<le> j"
      using align_down_le [of "m_addr b + j"]
      by (intro that [of "align_down (m_addr b + j) - m_addr b"]) auto
    have "p = p0" using True align_down_le [of "m_addr b + j"] by (auto simp: p_def)
    then have "8 dvd p" by (simp add: p0_def align_down_dvd)
    then have "8 dvd (l - k)"
      using align_down_dvd [of "m_addr b + j"] dvd_diff_nat [of 8 "m_addr b + l" "m_addr b + k"] l(1) k(1) by simp
    then have "count_words b p (align_down (m_addr b + j)) ?n = Inr (m_addr b + l, ?n + cnt b (8 * k) (8 * l))"
      using l k len count_words_eq [of k l b ?n] by simp
    then show ?thesis
      using unf step1 step3 [of l] k l cnt_split [of "8 * i" "8 * k" "8 * l" b]
        cnt_split [of "8 * i" "8 * l" "8 * j" b] by simp
  next
    case False
    then have "count_words b p (align_down (m_addr b + j)) ?n = Inr (p, ?n)"
      by (subst count_words.simps) simp
    then show ?thesis
      using unf step1 step3 [of k] k cnt_split [of "8 * i" "8 * k" "8 * j" b] by simp
  qed
qed

lemma cnt_le: "i \<le> j \<Longrightarrow> cnt b i j \<le> j - i"
proof -
  have "cnt b i j \<le> card {i..<j}" unfolding cnt_def by (rule card_mono) auto
  then show ?thesis by simp
qed

lemma cnt_unset: "i \<le> j \<Longrightarrow> card {k. i \<le> k \<and> k < j \<and> \<not> tst b k} = (j - i) - cnt b i j"
proof -
  assume "i \<le> j"
  have "{k. i \<le> k \<and> k < j \<and> \<not> tst b k} = {i..<j} - {k. i \<le> k \<and> k < j \<and> tst b k}" by auto
  moreover have "{k. i \<le> k \<and> k < j \<and> tst b k} \<subseteq> {i..<j}" by auto
  ultimately show ?thesis by (simp add: cnt_def card_Diff_subset finite_subset)
qed

lemma end_div_8: "(e::nat) \<le> n \<Longrightarrow> e div 8 = (n + 7) div 8 \<Longrightarrow> e mod 8 = 0"
proof -
  assume e: "e \<le> n" "e div 8 = (n + 7) div 8"
  have "n + 7 < 8 * (e div 8) + 8" unfolding e(2) by (simp add: dividend_less_times_div)
  with e(1) show ?thesis using div_mult_mod_eq [of e 8] by linarith
qed

lemma first_last_less:
  assumes "bitmap_wf b" "start < m_size b" "0 < len" "start + len \<le> m_size b"
  shows "start div 8 < length (m_data b)" "start div 8 \<le> (start + len) div 8"
    "(start + len) div 8 \<le> size_in_bytes b" "size_in_bytes b \<le> length (m_data b)"
    "(start + len) div 8 = size_in_bytes b \<Longrightarrow> (start + len) mod 8 = 0"
  using assms end_div_8 [of "start + len" "m_size b"]
  unfolding bitmap_wf_def size_in_bytes_eq by (auto simp: div_le_mono)

lemma count_in_range_set:
  assumes wf: "bitmap_wf b" and s: "start < m_size b" and l: "start + len \<le> m_size b"
  shows "count_in_range b start len value =
    Inr (if value then cnt b start (start + len) else len - cnt b start (start + len))"
proof (cases "len = 0")
  case True
  with assms show ?thesis by (simp add: count_in_range_def size_add_eq bitmap_wf_def)
next
  case False
  define f l i j where d: "f = start div 8" "l = (start + len) div 8" "i = start mod 8" "j = (start + len) mod 8"
  have add: "size_add start len = start + len" using wf l by (simp add: size_add_eq bitmap_wf_def)
  have ix: "f < length (m_data b)" "f \<le> l" "l \<le> size_in_bytes b" "size_in_bytes b \<le> length (m_data b)"
    "l = size_in_bytes b \<Longrightarrow> j = 0"
    unfolding d using first_last_less [OF wf s _ l] False by simp_all
  have sd: "start = 8 * f + i" "start + len = 8 * l + j" "i < 8" "j < 8" by (simp_all add: d)
  have whole: "cnt b start (start + len) = cnt b (8 * f + i) (8 * f + 8) + cnt b (8 * (Suc f)) (8 * l) + cnt b (8 * l) (8 * l + j)"
    if "Suc f \<le> l"
    using that cnt_split [of "8 * f + i" "8 * f + 8" "8 * l + j" b] cnt_split [of "8 * Suc f" "8 * l" "8 * l + j" b] sd
    by (simp add: add.commute [of 8])
  note unf = count_in_range_def add d [symmetric] read_byte_def Let_def and.assoc
  have base: "start < m_size b" "start + len \<le> m_size b" by fact+
  consider "f = l" | "f \<noteq> l" "Suc f < l" | "f \<noteq> l" "Suc f = l" using ix(2) by linarith
  then show ?thesis
  proof cases
    case 1
    then have "popcount (m_data b ! f AND bitmask_first_byte ! i AND bitmask_last_byte ! j) = cnt b start (start + len)"
      using popcount_masked(1) [OF sd(3,4), of b f] sd(1,2) by metis
    with 1 show ?thesis using False base ix(1) by (simp add: unf)
  next
    case 2
    then have ends: "cnt b start (start + len) =
        (if l < size_in_bytes b then popcount (m_data b ! f AND bitmask_first_byte ! i) +
           popcount (m_data b ! l AND bitmask_last_byte ! j) else popcount (m_data b ! f AND bitmask_first_byte ! i)) +
        cnt b (8 * (Suc f)) (8 * l)"
      using whole popcount_masked(2) [OF sd(3,4), of b f] popcount_masked(3) [OF sd(3,4), of b l] ix(3,5) by auto
    show ?thesis
      using 2 False base ix(1,3,4) ends count_between_eq [OF 2(2)] by (simp add: unf)
  next
    case 3
    then show ?thesis
      using False base ix whole popcount_masked(2) [OF sd(3,4), of b f] popcount_masked(3) [OF sd(3,4), of b l]
      by (simp add: unf)
  qed
qed

text \<open>\<^bold>\<open>C19.\<close> Counting the set (or the unset) bits of a range of a bitmap gives the number of positions of
  the range that hold that value. The code masks the two end bytes and counts the bytes between in
  machine words from an aligned address on, so the claim covers every alignment of the buffer and of
  the two ends of the range.\<close>

theorem count_in_range_correct:
  assumes "bitmap_wf b" and "start < m_size b" and "start + len \<le> m_size b"
  shows "count_in_range b start len value = Inr (card {k. start \<le> k \<and> k < start + len \<and> tst b k = value})"
proof (cases "value")
  case True
  then show ?thesis by (simp add: count_in_range_set [OF assms] cnt_def)
next
  case False
  then show ?thesis using cnt_unset [of start "start + len" b] by (simp add: count_in_range_set [OF assms])
qed

theorem count_in_range_witness:
  "count_in_range \<lparr>m_data = [0xF1, 0x0F, 0, 1], m_size = 26, m_addr = 5\<rparr> 3 23 True =
     Inr (card {k. 3 \<le> k \<and> k < 26 \<and> tst \<lparr>m_data = [0xF1, 0x0F, 0, 1], m_size = 26, m_addr = 5\<rparr> k = True})"
  using count_in_range_correct [of "\<lparr>m_data = [0xF1, 0x0F, 0, 1], m_size = 26, m_addr = 5\<rparr>" 3 23 True]
  by (simp add: bitmap_wf_def size_in_bytes_def ceil_div_def)

section \<open>Setting a range\<close>

text \<open>A byte of the range is changed through a mask; the verifying variant first checks that the masked
  bits hold the other value.\<close>

lemma mask_byte_spec:
  assumes "i < length (m_data b)"
  shows "mask_byte v verify b i msk =
    (if verify \<and> (\<exists>n < 8. bit msk n \<and> tst b (8 * i + n) = v) then Inl Verification_failed
     else Inr (b\<lparr>m_data := (m_data b)[i := if v then m_data b ! i OR msk else m_data b ! i AND NOT msk]\<rparr>))"
proof -
  have "m_data b ! i AND msk = 0 \<longleftrightarrow> \<not> (\<exists>n < 8. bit msk n \<and> tst b (8 * i + n))"
    unfolding word_and_eq_0_iff using bit_u8_less by (auto simp: tst_byte)
  moreover have "m_data b ! i AND msk = msk \<longleftrightarrow> \<not> (\<exists>n < 8. bit msk n \<and> \<not> tst b (8 * i + n))"
    using bit_u8_less by (auto simp: tst_byte bit_eq_iff bit_and_iff)
  ultimately show ?thesis
    using assms by (auto simp: mask_byte_def read_byte_def write_byte_def verifyE_def)
qed

lemma tst_mask_byte:
  assumes "i < length (m_data b)"
  shows "tst (b\<lparr>m_data := (m_data b)[i := if v then m_data b ! i OR msk else m_data b ! i AND NOT msk]\<rparr>) k =
    (if k div 8 = i \<and> bit msk (k mod 8) then v else tst b k)"
  using assms by (cases "k div 8 = i") (auto simp: tst_def bit_simps)

lemma memset_spec:
  "i + n \<le> length (m_data b) \<Longrightarrow>
     memset b i w n = Inr (b\<lparr>m_data := take i (m_data b) @ replicate n w @ drop (i + n) (m_data b)\<rparr>)"
proof (induction n arbitrary: b i)
  case (Suc n)
  let ?b = "b\<lparr>m_data := (m_data b)[i := w]\<rparr>"
  have "memset ?b (Suc i) w n = Inr (?b\<lparr>m_data := take (Suc i) (m_data ?b) @ replicate n w @ drop (Suc i + n) (m_data ?b)\<rparr>)"
    using Suc.prems by (intro Suc.IH) simp
  moreover have "take (Suc i) ((m_data b)[i := w]) = take i (m_data b) @ [w]"
    using Suc.prems by (simp add: take_Suc_conv_app_nth)
  ultimately show ?case
    using Suc.prems by (simp add: write_byte_def)
qed simp

lemma tst_memset:
  assumes "i + n \<le> length (m_data b)"
  shows "tst (b\<lparr>m_data := take i (m_data b) @ replicate n (if v then 0xFF else 0x0) @ drop (i + n) (m_data b)\<rparr>) k =
    (if i \<le> k div 8 \<and> k div 8 < i + n then v else tst b k)"
proof -
  have "bit (0xFF :: u8) (k mod 8)"
    using nat_less_8_cases [of "k mod 8"] by auto
  with assms show ?thesis by (auto simp: tst_def nth_append)
qed

lemma le_iff_div_mod_8: "i < 8 \<Longrightarrow> 8 * f + i \<le> k \<longleftrightarrow> f < k div 8 \<or> f = k div 8 \<and> i \<le> k mod 8" for k :: nat
  using div_mult_mod_eq [of k 8] mod_less_divisor [of 8 k] by linarith

lemma less_iff_div_mod_8: "j < 8 \<Longrightarrow> k < 8 * l + j \<longleftrightarrow> k div 8 < l \<or> k div 8 = l \<and> k mod 8 < j" for k :: nat
  using div_mult_mod_eq [of k 8] mod_less_divisor [of 8 k] by linarith

definition range_set :: "bitmap \<Rightarrow> bool \<Rightarrow> nat \<Rightarrow> nat \<Rightarrow> bitmap \<Rightarrow> bool" where
  "range_set b v start len b' \<longleftrightarrow> length (m_data b') = length (m_data b) \<and> m_size b' = m_size b \<and>
     m_addr b' = m_addr b \<and> (\<forall>k. tst b' k = (if start \<le> k \<and> k < start + len then v else tst b k))"

lemma mask_byte_plain:
  assumes "i < length (m_data b)"
  obtains b' where "mask_byte v False b i msk = Inr b'" "length (m_data b') = length (m_data b)"
    "m_size b' = m_size b" "m_addr b' = m_addr b"
    "\<And>k. tst b' k = (if k div 8 = i \<and> bit msk (k mod 8) then v else tst b k)"
  using that mask_byte_spec [OF assms, of v False msk] tst_mask_byte [OF assms, of v msk] by simp

lemma memset_plain:
  assumes "i + n \<le> length (m_data b)"
  obtains b' where "memset b i (if v then 0xFF else 0x0) n = Inr b'" "length (m_data b') = length (m_data b)"
    "m_size b' = m_size b" "m_addr b' = m_addr b"
    "\<And>k. tst b' k = (if i \<le> k div 8 \<and> k div 8 < i + n then v else tst b k)"
  using that memset_spec [OF assms, of "if v then 0xFF else 0x0"] tst_memset [OF assms, of v] assms by simp

lemma set_range_one_byte:
  assumes "i < 8" "j < 8" "f < length (m_data b)" "start = 8 * f + i" "start + len = 8 * f + j"
  obtains b' where "mask_byte v False b f (bitmask_first_byte ! i AND bitmask_last_byte ! j) = Inr b'"
    "range_set b v start len b'"
proof -
  obtain b' where b': "mask_byte v False b f (bitmask_first_byte ! i AND bitmask_last_byte ! j) = Inr b'"
    "length (m_data b') = length (m_data b)" "m_size b' = m_size b" "m_addr b' = m_addr b"
    "\<And>k. tst b' k = (if k div 8 = f \<and> bit (bitmask_first_byte ! i AND bitmask_last_byte ! j) (k mod 8) then v else tst b k)"
    using mask_byte_plain [OF assms(3)] by blast
  have "range_set b v start len b'"
    unfolding range_set_def assms(5) using b' assms(1,2)
    by (auto simp: assms(4) le_iff_div_mod_8 less_iff_div_mod_8 bit_and_iff bit_first_mask bit_last_mask)
  with b'(1) that show thesis by blast
qed

lemma set_range_bytes:
  assumes "i < 8" "j < 8" "f < l" "l < length (m_data b)" "start = 8 * f + i" "start + len = 8 * l + j"
  obtains b' where "tryE (mask_byte v False b f (bitmask_first_byte ! i)) (\<lambda>b.
       tryE (mask_byte v False b l (bitmask_last_byte ! j)) (\<lambda>b.
         if Suc f < l then memset b (Suc f) (if v then 0xFF else 0x0) (l - Suc f) else Inr b)) = Inr b'"
    "range_set b v start len b'"
proof -
  from assms have f: "f < length (m_data b)" by simp
  obtain b1 where b1: "mask_byte v False b f (bitmask_first_byte ! i) = Inr b1"
    "length (m_data b1) = length (m_data b)" "m_size b1 = m_size b" "m_addr b1 = m_addr b"
    "\<And>k. tst b1 k = (if k div 8 = f \<and> bit (bitmask_first_byte ! i) (k mod 8) then v else tst b k)"
    using mask_byte_plain [OF f] by blast
  from assms b1(2) have l: "l < length (m_data b1)" by simp
  obtain b2 where b2: "mask_byte v False b1 l (bitmask_last_byte ! j) = Inr b2"
    "length (m_data b2) = length (m_data b1)" "m_size b2 = m_size b1" "m_addr b2 = m_addr b1"
    "\<And>k. tst b2 k = (if k div 8 = l \<and> bit (bitmask_last_byte ! j) (k mod 8) then v else tst b1 k)"
    using mask_byte_plain [OF l] by blast
  from assms b1(2) b2(2) have m: "Suc f + (l - Suc f) \<le> length (m_data b2)" by simp
  obtain b3 where b3: "memset b2 (Suc f) (if v then 0xFF else 0x0) (l - Suc f) = Inr b3"
    "length (m_data b3) = length (m_data b2)" "m_size b3 = m_size b2" "m_addr b3 = m_addr b2"
    "\<And>k. tst b3 k = (if Suc f \<le> k div 8 \<and> k div 8 < Suc f + (l - Suc f) then v else tst b2 k)"
    using memset_plain [OF m] by blast
  let ?b' = "if Suc f < l then b3 else b2"
  have "range_set b v start len ?b'"
    unfolding range_set_def assms(6) using b1 b2 b3 assms(1-3)
    by (auto simp: assms(5) le_iff_div_mod_8 less_iff_div_mod_8 bit_first_mask bit_last_mask)
  with b1(1) b2(1) b3(1) that [of ?b'] show thesis by (simp split: if_splits)
qed

lemma set_range_ok:
  assumes "bitmap_wf b" and "start < m_size b" and "0 < len" and "start + len \<le> m_size b"
  shows "if start + len < 8 * length (m_data b)
         then \<exists>b'. set_range v False b start len = Inr b' \<and> range_set b v start len b'
         else set_range v False b start len = Inl Out_of_bounds"
proof -
  define f l i j where d: "f = start div 8" "l = (start + len) div 8" "i = start mod 8" "j = (start + len) mod 8"
  have add: "size_add start len = start + len" using assms by (simp add: size_add_eq bitmap_wf_def)
  have ix: "f < length (m_data b)" "f \<le> l"
    unfolding d using first_last_less [OF assms] by simp_all
  have sd: "start = 8 * f + i" "start + len = 8 * l + j" "i < 8" "j < 8" by (simp_all add: d)
  have ge: "start + len < 8 * length (m_data b) \<longleftrightarrow> l < length (m_data b)" using sd(2,4) by linarith
  from assms(3) have len: "len \<noteq> 0" by simp
  note unf = set_range_def add d [symmetric] Let_def assms len
  consider "f = l" | "f < l" "l < length (m_data b)" | "f < l" "\<not> l < length (m_data b)" using ix(2) by linarith
  then show ?thesis
  proof cases
    case 1
    then obtain b' where "mask_byte v False b f (bitmask_first_byte ! i AND bitmask_last_byte ! j) = Inr b'"
        "range_set b v start len b'"
      using set_range_one_byte [OF sd(3,4) ix(1) sd(1)] sd(2) by blast
    with 1 show ?thesis using ix(1) by (simp add: ge unf)
  next
    case 2
    then obtain b' where "tryE (mask_byte v False b f (bitmask_first_byte ! i)) (\<lambda>b.
       tryE (mask_byte v False b l (bitmask_last_byte ! j)) (\<lambda>b.
         if Suc f < l then memset b (Suc f) (if v then 0xFF else 0x0) (l - Suc f) else Inr b)) = Inr b'"
        "range_set b v start len b'"
      using set_range_bytes [OF sd(3,4) 2 sd(1,2)] by blast
    with 2 show ?thesis by (simp add: ge unf)
  next
    case 3
    obtain b1 where "mask_byte v False b f (bitmask_first_byte ! i) = Inr b1" "length (m_data b1) = length (m_data b)"
      using mask_byte_plain [OF ix(1)] by blast
    with 3 show ?thesis by (simp add: ge unf mask_byte_def read_byte_def)
  qed
qed

text \<open>The verifying variant does the same when every bit of the range flips.\<close>

lemma mask_byte_verify:
  assumes "i < length (m_data b)" "\<And>n. n < 8 \<Longrightarrow> bit msk n \<Longrightarrow> tst b (8 * i + n) \<noteq> v"
  shows "mask_byte v True b i msk = mask_byte v False b i msk"
  using assms by (auto simp: mask_byte_spec)

lemma set_range_flip:
  assumes wf: "bitmap_wf b" and r: "start < m_size b" "0 < len" "start + len \<le> m_size b"
    and room: "start + len < 8 * length (m_data b)"
    and flip: "\<And>k. start \<le> k \<Longrightarrow> k < start + len \<Longrightarrow> tst b k \<noteq> v"
  shows "set_range v True b start len = set_range v False b start len"
proof -
  define f l i j where d: "f = start div 8" "l = (start + len) div 8" "i = start mod 8" "j = (start + len) mod 8"
  have ij: "i < 8" "j < 8" "start = 8 * f + i" "start + len = 8 * l + j" by (simp_all add: d)
  have sa: "size_add start len = start + len" using wf r(3) by (intro size_add_eq) (simp add: bitmap_wf_def)
  have l: "l < length (m_data b)" using room ij by linarith
  have fl: "f \<le> l" by (simp add: d div_le_mono)
  have f: "f < length (m_data b)" using l fl by simp
  note unf = set_range_def sa Let_def d [symmetric]
  show ?thesis
  proof (cases "f = l")
    case True
    have "mask_byte v True b f (bitmask_first_byte ! i AND bitmask_last_byte ! j) =
        mask_byte v False b f (bitmask_first_byte ! i AND bitmask_last_byte ! j)"
      using f ij True by (intro mask_byte_verify flip) (auto simp: bit_and_iff bit_first_mask bit_last_mask)
    with True show ?thesis by (simp add: unf)
  next
    case False
    have first: "mask_byte v True b f (bitmask_first_byte ! i) = mask_byte v False b f (bitmask_first_byte ! i)"
      using f ij False fl by (intro mask_byte_verify flip) (auto simp: bit_first_mask)
    obtain b1 where b1: "mask_byte v False b f (bitmask_first_byte ! i) = Inr b1" "length (m_data b1) = length (m_data b)"
        "\<And>k. tst b1 k = (if k div 8 = f \<and> bit (bitmask_first_byte ! i) (k mod 8) then v else tst b k)"
      using mask_byte_plain [OF f] by blast
    have "mask_byte v True b1 l (bitmask_last_byte ! j) = mask_byte v False b1 l (bitmask_last_byte ! j)"
    proof (intro mask_byte_verify)
      fix n assume n: "n < 8" "bit (bitmask_last_byte ! j) n"
      then have "n < j" using ij by (simp add: bit_last_mask)
      then have "tst b (8 * l + n) \<noteq> v" using ij fl False by (intro flip) linarith+
      moreover have "(8 * l + n) div 8 = l" using n(1) by simp
      ultimately show "tst b1 (8 * l + n) \<noteq> v" using b1(3) False by simp
    qed (use l b1(2) in simp)
    with first b1(1) False show ?thesis by (simp add: unf)
  qed
qed

text \<open>\<^bold>\<open>C22.\<close> Setting a range of a bitmap (without the verification of the flips) gives every position of
  the range the new value and leaves every other bit, the size and the buffer's length alone, unless
  the range ends exactly at the end of the buffer: then the code touches the byte after it, which the
  model reports as an access out of bounds.\<close>

theorem set_range_correct:
  assumes "bitmap_wf b" and "start < m_size b" and "0 < len" and "start + len \<le> m_size b"
  shows "if start + len < 8 * length (m_data b)
         then \<exists>b'. set_range v False b start len = Inr b' \<and> range_set b v start len b'
         else set_range v False b start len = Inl Out_of_bounds"
  using assms by (rule set_range_ok)

theorem set_range_witness:
  "(\<exists>b'. set_range True False \<lparr>m_data = [0, 0], m_size = 16, m_addr = 0\<rparr> 3 9 = Inr b' \<and>
      range_set \<lparr>m_data = [0, 0], m_size = 16, m_addr = 0\<rparr> True 3 9 b') \<and>
   set_range True False \<lparr>m_data = [0, 0], m_size = 16, m_addr = 0\<rparr> 0 16 = Inl Out_of_bounds"
  using set_range_correct [of "\<lparr>m_data = [0, 0], m_size = 16, m_addr = 0\<rparr>" 3 9 True]
    set_range_correct [of "\<lparr>m_data = [0, 0], m_size = 16, m_addr = 0\<rparr>" 0 16 True]
  by (simp add: bitmap_wf_def size_in_bytes_def ceil_div_def)

lemma fill_spec:
  assumes "bitmap_wf b"
  obtains b' where "fill b v = Inr b'" "bitmap_wf b'" "m_size b' = m_size b"
    "\<And>k. k < m_size b \<Longrightarrow> tst b' k = v"
proof -
  have "0 + size_in_bytes b \<le> length (m_data b)" using assms by (simp add: bitmap_wf_def)
  then obtain b' where b': "memset b 0 (if v then 0xFF else 0x0) (size_in_bytes b) = Inr b'"
    "length (m_data b') = length (m_data b)" "m_size b' = m_size b" "m_addr b' = m_addr b"
    "\<And>k. tst b' k = (if 0 \<le> k div 8 \<and> k div 8 < 0 + size_in_bytes b then v else tst b k)"
    using memset_plain by blast
  have "bitmap_wf b'" using assms b' by (simp add: bitmap_wf_def size_in_bytes_def)
  moreover have "tst b' k = v" if "k < m_size b" for k
    using that b'(5) [of k] index_div_8_less [of k "m_size b"] by (simp add: size_in_bytes_eq)
  ultimately show thesis using that [of b'] b' by (simp add: fill_def)
qed

section \<open>The first bit of a value\<close>

lemma skip_bytes_spec:
  assumes "n \<le> length (m_data b)" "i \<le> n"
  shows "\<exists>j. skip_bytes b w i n = Inr j \<and> i \<le> j \<and> j \<le> n \<and> (j < n \<longrightarrow> m_data b ! j \<noteq> w) \<and>
      (\<forall>k. i \<le> k \<and> k < j \<longrightarrow> m_data b ! k = w)"
  using assms(2)
proof (induction i rule: inc_induct)
  case base
  show ?case by (subst skip_bytes.simps) auto
next
  case (step i)
  show ?case
  proof (cases "m_data b ! i = w")
    case True
    with step assms have "skip_bytes b w i n = skip_bytes b w (Suc i) n"
      by (simp add: skip_bytes.simps [of b w i n] read_byte_def)
    with step.IH True show ?thesis by (metis Suc_leD Suc_leI le_neq_implies_less)
  next
    case False
    with step assms have "skip_bytes b w i n = Inr i"
      by (simp add: skip_bytes.simps [of b w i n] read_byte_def)
    with False step show ?thesis by (intro exI [of _ i]) auto
  qed
qed

text \<open>\<^verbatim>\<open>find_first\<close> returns the lowest position of the buffer that holds the value, and none only
  when no position does. The positions searched are those of the whole bytes, so the unused bits of
  the last byte count as positions.\<close>

theorem find_first_correct:
  assumes "bitmap_wf b"
  shows "case find_first VALUE b of
      Inl e \<Rightarrow> False
    | Inr None \<Rightarrow> \<forall>k < 8 * size_in_bytes b. tst b k \<noteq> VALUE
    | Inr (Some k) \<Rightarrow> k < 8 * size_in_bytes b \<and> tst b k = VALUE \<and> (\<forall>j < k. tst b j \<noteq> VALUE)"
proof -
  let ?n = "size_in_bytes b" and ?w = "if VALUE then 0x00 else 0xff :: u8"
  have full: "bit ?w m \<longleftrightarrow> \<not> VALUE" if "m < 8" for m
    using that by (auto simp: nat_less_8_cases)
  obtain i where i: "skip_bytes b ?w 0 ?n = Inr i" "i \<le> ?n" "i < ?n \<longrightarrow> m_data b ! i \<noteq> ?w"
      "\<forall>k < i. m_data b ! k = ?w"
    using skip_bytes_spec [of ?n b 0 ?w] assms by (auto simp: bitmap_wf_def)
  have before: "tst b k \<noteq> VALUE" if "k < 8 * i" for k
    using that i(4) full [of "k mod 8"] by (simp add: tst_def less_mult_imp_div_less mult.commute)
  show ?thesis
  proof (cases "i = ?n")
    case True
    with i(1) before show ?thesis by (simp add: find_first_def Let_def)
  next
    case False
    with i have il: "i < ?n" and ne: "m_data b ! i \<noteq> ?w" by auto
    let ?v = "if \<not> VALUE then NOT (m_data b ! i) else m_data b ! i"
    have ff: "(-1 :: u8) = 0xff" by simp
    have "NOT (m_data b ! i) = 0 \<Longrightarrow> m_data b ! i = 0xff"
      using bit.double_compl [of "m_data b ! i"] by (simp flip: ff)
    with ne have v0: "?v \<noteq> 0" by (auto split: if_splits)
    have bits: "bit ?v m = (tst b (8 * i + m) = VALUE)" if "m < 8" for m
      using that by (auto simp: tst_byte bit_not_iff)
    note ctz = count_trailing_zeroes_least [OF v0]
    have c8: "count_trailing_zeroes ?v < 8" using ctz(2) by simp
    have "\<forall>j < 8 * i + count_trailing_zeroes ?v. tst b j \<noteq> VALUE"
    proof (intro allI impI)
      fix j assume j: "j < 8 * i + count_trailing_zeroes ?v"
      show "tst b j \<noteq> VALUE"
      proof (cases "j < 8 * i")
        case False
        with j ctz(3) [of "j - 8 * i"] bits [of "j - 8 * i"] c8 show ?thesis by simp
      qed (rule before)
    qed
    moreover have "tst b (8 * i + count_trailing_zeroes ?v) = VALUE" using bits [OF c8] ctz(1) by simp
    moreover have "find_first VALUE b = Inr (Some (8 * i + count_trailing_zeroes ?v))"
      using i(1) False il v0 assms
      by (cases VALUE) (simp_all add: find_first_def Let_def read_byte_def bitmap_wf_def bit_scan_forward_def mult.commute)
    ultimately show ?thesis using il c8 by simp
  qed
qed

theorem find_first_witness:
  "find_first True \<lparr>m_data = [0, 0x08], m_size = 12, m_addr = 0\<rparr> = Inr (Some 11) \<and>
   tst \<lparr>m_data = [0, 0x08], m_size = 12, m_addr = 0\<rparr> 11"
proof -
  have "find_first True \<lparr>m_data = [0, 0x08], m_size = 12, m_addr = 0\<rparr> = Inr (Some 11)" by code_simp
  with find_first_correct [of "\<lparr>m_data = [0, 0x08], m_size = 12, m_addr = 0\<rparr>" True] show ?thesis
    by (simp add: bitmap_wf_def size_in_bytes_def ceil_div_def)
qed

end
