(* ===== verification/Bitmap_Search.thy ===== *)
theory Bitmap_Search
  imports Bitmap_Facts
begin

text \<open>
  The searches for ranges of unset bits. \<^verbatim>\<open>find_next_range_of_unset_bits\<close> is shown against the bits:
  what it returns is a range of unset bits, the first one that is long enough, and it finds nothing
  only when there is none. On top of it, first fit is exact, the search for the longest range always
  returns, and best fit need not.
\<close>

section \<open>The invariant of the scan\<close>

text \<open>\<^verbatim>\<open>run b s n\<close>: the \<open>n\<close> bits from \<open>s\<close> are unset. \<^verbatim>\<open>blocked b from q m\<close>: no run of \<open>m\<close> bits starts between
  \<open>from\<close> and \<open>q\<close>. At position \<open>pos\<close> of the scan the run in progress has length \<open>free\<close>.\<close>

definition run :: "bitmap \<Rightarrow> nat \<Rightarrow> nat \<Rightarrow> bool" where
  "run b s n \<longleftrightarrow> (\<forall>k. s \<le> k \<and> k < s + n \<longrightarrow> \<not> tst b k)"

definition blocked :: "bitmap \<Rightarrow> nat \<Rightarrow> nat \<Rightarrow> nat \<Rightarrow> bool" where
  "blocked b from q m \<longleftrightarrow> (\<forall>s. from \<le> s \<and> s < q \<longrightarrow> \<not> run b s m)"

definition at_pos :: "bitmap \<Rightarrow> nat \<Rightarrow> nat \<Rightarrow> nat \<Rightarrow> nat \<Rightarrow> nat \<Rightarrow> bool" where
  "at_pos b from m pos free start \<longleftrightarrow>
     (0 < free \<longrightarrow> start + free = pos \<and> run b start free) \<and> blocked b from (pos - free) m"

definition found_ok :: "bitmap \<Rightarrow> nat \<Rightarrow> nat \<Rightarrow> nat \<Rightarrow> nat \<Rightarrow> nat \<Rightarrow> bool" where
  "found_ok b from m mx len start \<longleftrightarrow>
     m \<le> len \<and> len \<le> mx \<and> run b start len \<and> start + len \<le> m_size b \<and> blocked b from start m"

lemma run_less: "run b s n \<Longrightarrow> n' \<le> n \<Longrightarrow> run b s n'"
  by (simp add: run_def)

lemma run_append: "run b s n \<Longrightarrow> run b (s + n) n' \<Longrightarrow> run b s (n + n')"
  unfolding run_def by (metis add.assoc leI)

lemma at_pos_extend:
  assumes "at_pos b from m pos free start" "run b pos z"
  shows "at_pos b from m (pos + z) (free + z) (if free = 0 then pos else start)"
  using assms run_append [of b start free z] by (auto simp: at_pos_def)

text \<open>A set bit ends the run in progress; when that was too short, no long run starts before the bit.\<close>

lemma at_pos_ones:
  assumes "at_pos b from m pos free start" "free < m" "0 < n" and ones: "\<And>k. pos \<le> k \<Longrightarrow> k < pos + n \<Longrightarrow> tst b k"
  shows "at_pos b from m (pos + n) 0 start'"
proof -
  have "\<not> run b s m" if s: "from \<le> s" "s < pos + n" for s
  proof (cases "s < pos - free")
    case True
    with s assms(1) show ?thesis by (auto simp: at_pos_def blocked_def)
  next
    case False
    have "tst b (max s pos)" using s assms(3) by (intro ones) auto
    moreover have "max s pos < s + m" using False assms(2) by auto
    ultimately show ?thesis unfolding run_def by (metis max.cobounded1)
  qed
  then show ?thesis by (auto simp: at_pos_def blocked_def)
qed

lemma at_pos_found:
  assumes "at_pos b from m pos free start" "0 < m" "m \<le> mx" "m \<le> free" "pos \<le> m_size b"
  shows "found_ok b from m mx (min free mx) start"
  using assms run_less [of b start free "min free mx"] by (auto simp: at_pos_def found_ok_def min_def)

section \<open>Inside a bucket\<close>

text \<open>The bucket, shifted by the bits already viewed, holds the bits from \<open>base + viewed\<close> on and zeroes
  above.\<close>

definition bucket_ok :: "bitmap \<Rightarrow> nat \<Rightarrow> u64 \<Rightarrow> nat \<Rightarrow> bool" where
  "bucket_ok b base w viewed \<longleftrightarrow> viewed \<le> 64 \<and> (\<forall>n. bit w n = (n < 64 - viewed \<and> tst b (base + viewed + n)))"

lemma bucket_bit: "bucket_ok b base w viewed \<Longrightarrow> bit w n \<longleftrightarrow> n < 64 - viewed \<and> tst b (base + viewed + n)"
  by (simp add: bucket_ok_def)

lemma bucket_ok_shift:
  assumes "bucket_ok b base w viewed" "n \<le> 64 - viewed"
  shows "bucket_ok b base (drop_bit n w) (viewed + n)"
proof -
  have "bit (drop_bit n w) k = (k < 64 - (viewed + n) \<and> tst b (base + (viewed + n) + k))" for k
  proof -
    have "bit (drop_bit n w) k = bit w (n + k)" by (simp add: bit_drop_bit_eq)
    also have "\<dots> = (n + k < 64 - viewed \<and> tst b (base + viewed + (n + k)))"
      by (rule bucket_bit [OF assms(1)])
    also have "\<dots> = (k < 64 - (viewed + n) \<and> tst b (base + (viewed + n) + k))"
      by (simp add: add.assoc less_diff_conv add.left_commute add.commute)
    finally show ?thesis .
  qed
  with assms show ?thesis unfolding bucket_ok_def by auto
qed

lemma bucket_zeroes:
  assumes "bucket_ok b base w viewed" "w \<noteq> 0"
  shows "run b (base + viewed) (count_trailing_zeroes w)" "count_trailing_zeroes w < 64 - viewed"
    "bit (drop_bit (count_trailing_zeroes w) w) 0"
proof -
  note ctz = count_trailing_zeroes_least [OF assms(2)]
  from ctz(1) show lt: "count_trailing_zeroes w < 64 - viewed" unfolding bucket_bit [OF assms(1)] by simp
  show "bit (drop_bit (count_trailing_zeroes w) w) 0" using ctz(1) by (simp add: bit_drop_bit_eq)
  show "run b (base + viewed) (count_trailing_zeroes w)"
    unfolding run_def
  proof (intro allI impI)
    fix k assume k: "base + viewed \<le> k \<and> k < base + viewed + count_trailing_zeroes w"
    then have "\<not> bit w (k - (base + viewed))" by (intro ctz(3)) auto
    moreover have "k - (base + viewed) < 64 - viewed" using k lt by arith
    ultimately show "\<not> tst b k" using k unfolding bucket_bit [OF assms(1)] by simp
  qed
qed

lemma bucket_ones:
  assumes "bucket_ok b base w viewed" "bit w 0" "w \<noteq> -1"
  defines "n \<equiv> count_trailing_zeroes (NOT w)"
  shows "0 < n" "n \<le> 64 - viewed" "\<And>k. base + viewed \<le> k \<Longrightarrow> k < base + viewed + n \<Longrightarrow> tst b k"
proof -
  have nz: "NOT w \<noteq> 0" using assms(3) by (metis bit.double_compl bit.compl_zero)
  note ctz = count_trailing_zeroes_least [OF nz, folded n_def]
  show "0 < n" using ctz(1) assms(2) by (cases n) (auto simp: bit_not_iff)
  have ones: "bit w j" if "j < n" for j
    using ctz(2) ctz(3) [OF that] that by (simp add: bit_not_iff)
  show "n \<le> 64 - viewed"
    using ones [of "64 - viewed"] unfolding bucket_bit [OF assms(1)] by (meson less_irrefl not_le)
  show "tst b k" if "base + viewed \<le> k" "k < base + viewed + n" for k
    using ones [of "k - (base + viewed)"] that unfolding bucket_bit [OF assms(1)] by simp
qed

text \<open>What one bucket does to the state of the scan.\<close>

definition scan_ok :: "bitmap \<Rightarrow> nat \<Rightarrow> nat \<Rightarrow> nat \<Rightarrow> nat \<Rightarrow> scan \<Rightarrow> bool" where
  "scan_ok b from m mx pos r \<longleftrightarrow>
     (case r of Found len start \<Rightarrow> found_ok b from m mx len start
      | Go free start \<Rightarrow> at_pos b from m pos free start)"

lemma scan_ok_simps [simp]:
  "scan_ok b from m mx pos (Found len start) = found_ok b from m mx len start"
  "scan_ok b from m mx pos (Go free start) = at_pos b from m pos free start"
  by (simp_all add: scan_ok_def)

lemma scan_bucket_ok:
  assumes "bucket_ok b base w viewed" "w \<noteq> -1" "at_pos b from m (base + viewed) free start"
    and m: "0 < m" "m \<le> mx" and size: "base + 64 \<le> m_size b"
  shows "scan_ok b from m mx (base + 64) (scan_bucket base m mx w viewed free start)"
  using assms(1-3)
proof (induction "64 - viewed" arbitrary: w viewed free start rule: less_induct)
  case less
  let ?start = "if free = 0 then base + viewed else start"
  have v64: "viewed \<le> 64" using less.prems(1) by (simp add: bucket_ok_def)
  consider "viewed = 64" | "viewed < 64" "w = 0" | "viewed < 64" "w \<noteq> 0" using v64 by linarith
  then show ?case
  proof cases
    case 1
    with less.prems show ?thesis by (simp add: scan_bucket.simps [of base m mx w 64])
  next
    case 2
    have "run b (base + viewed) (64 - viewed)"
      unfolding run_def using bucket_bit [OF less.prems(1)] 2 by (metis bit_0_eq bot_apply bot_bool_def le_add_diff_inverse nat_add_left_cancel_less)
    from at_pos_extend [OF less.prems(3) this] 2 v64 show ?thesis
      by (simp add: scan_bucket.simps [of base m mx 0 viewed] scan_bucket.simps [of base m mx 0 64])
  next
    case 3
    let ?z = "count_trailing_zeroes w" let ?v = "drop_bit ?z w" let ?o = "count_trailing_zeroes (NOT ?v)"
    note z = bucket_zeroes [OF less.prems(1) 3(2)]
    have ok: "bucket_ok b base ?v (viewed + ?z)" using z(2) by (intro bucket_ok_shift [OF less.prems(1)]) simp
    have at: "at_pos b from m (base + (viewed + ?z)) (free + ?z) ?start"
      using at_pos_extend [OF less.prems(3) z(1)] by (simp add: add.assoc)
    show ?thesis
    proof (cases "m \<le> free + ?z")
      case True
      have "found_ok b from m mx (min (free + ?z) mx) ?start"
        using z(2) size by (intro at_pos_found [OF at m True]) simp
      with 3 True show ?thesis by (simp add: scan_bucket.simps [of base m mx w viewed] Let_def)
    next
      case False
      have ne: "?v \<noteq> -1"
      proof
        assume "?v = -1"
        then have "bit ?v 63" by simp
        then show False using bucket_bit [OF ok, of 63] less.prems(2) \<open>?v = -1\<close>
          by (cases "?z = 0") auto
      qed
      note o = bucket_ones [OF ok z(3) ne]
      have "bucket_ok b base (drop_bit ?o ?v) (viewed + ?z + ?o)" by (rule bucket_ok_shift [OF ok o(2)])
      moreover have "drop_bit ?o ?v \<noteq> -1"
      proof
        assume "drop_bit ?o ?v = -1"
        then have "bit (drop_bit ?o ?v) 63" by simp
        then have "63 < 64 - (viewed + ?z + ?o)" using bucket_bit [OF calculation, of 63] by blast
        with o(1) show False by linarith
      qed
      moreover have "at_pos b from m (base + (viewed + ?z) + ?o) 0 ?start"
        using False o by (intro at_pos_ones [OF at]) auto
      ultimately have "scan_ok b from m mx (base + 64) (scan_bucket base m mx (drop_bit ?o ?v) (viewed + ?z + ?o) 0 ?start)"
        using z(2) o(1) by (intro less.hyps) (auto simp: add.assoc)
      with 3 False show ?thesis by (simp add: scan_bucket.simps [of base m mx w viewed] Let_def)
    qed
  qed
qed

section \<open>Over the buckets\<close>

lemma bucket_ok_start:
  assumes "\<And>n. n < 64 \<Longrightarrow> bit w n = tst b (base + n)" "k < 64"
  shows "bucket_ok b base (drop_bit k w) k"
proof -
  have "bucket_ok b base w 0"
    unfolding bucket_ok_def using assms(1) bit_imp_le_length [of w] by auto
  from bucket_ok_shift [OF this, of k] assms(2) show ?thesis by simp
qed

lemma bucket_in_size: "i < m_size b div 64 \<Longrightarrow> i * 64 + 64 \<le> m_size b"
  by (metis Suc_leI add.commute less_eq_div_iff_mult_less_eq mult_Suc zero_less_numeral)

lemma bucket_in_data:
  assumes "bitmap_wf b" "i < m_size b div 64"
  shows "8 * i + 8 \<le> length (m_data b)"
proof -
  have "8 * i + 8 \<le> (m_size b + 7) div 8"
    using bucket_in_size [OF assms(2)] by (simp add: less_eq_div_iff_mult_less_eq)
  with assms(1) show ?thesis by (simp add: bitmap_wf_def size_in_bytes_eq)
qed

lemma scan_buckets_ok:
  assumes wf: "bitmap_wf b" and m: "0 < m" "m \<le> mx" and i: "i \<le> m_size b div 64"
    and "at_pos b from m (i * 64 + k) free start" "k < 64" "k \<noteq> 0 \<Longrightarrow> free = 0 \<and> i < m_size b div 64"
  shows "\<exists>r. scan_buckets b m mx i k free start = Inr r \<and> scan_ok b from m mx (m_size b div 64 * 64) r"
  using i assms(5-)
proof (induction i arbitrary: k free start rule: inc_induct)
  case base
  then show ?case by (cases "k = 0") (simp_all add: scan_buckets.simps [of b m mx "m_size b div 64"])
next
  case (step i)
  let ?size = "i * 64 + 64"
  note size = bucket_in_size [OF step(2)]
  obtain w where w: "read_word b (8 * i) = Inr w" "\<And>n. n < 64 \<Longrightarrow> bit w n = tst b (8 * (8 * i) + n)"
    using read_word_eq [OF bucket_in_data [OF wf step(2)]] by blast
  have bits: "bit w n = tst b (i * 64 + n)" if "n < 64" for n
    using w(2) [OF that] by (simp add: mult.commute)
  note unf = scan_buckets.simps [of b m mx i] step(2) w(1)
  consider "w = -1" | "w = 0" | "w \<noteq> -1" "w \<noteq> 0" by blast
  then show ?case
  proof cases
    case 1
    show ?thesis
    proof (cases "m \<le> free")
      case True
      from at_pos_found [OF step.prems(1) m True] size step.prems(2) 1 True show ?thesis by (simp add: unf)
    next
      case False
      have ones: "tst b n" if "i * 64 + k \<le> n" "n < i * 64 + k + (64 - k)" for n
        using bits [of "n - i * 64"] that 1 by simp
      have "at_pos b from m (Suc i * 64) 0 start"
        using at_pos_ones [OF step.prems(1) _ _ ones, of "64 - k" start] False step.prems(2) by (simp add: add.commute)
      with step.IH [of 0 0 start] 1 False show ?thesis by (simp add: unf)
    qed
  next
    case 2
    have zero: "run b (i * 64) 64"
      unfolding run_def using bits 2 by (metis bit_0_eq bot_apply bot_bool_def le_add_diff_inverse nat_add_left_cancel_less)
    have at: "at_pos b from m (Suc i * 64) (free + 64) (if free = 0 then i * 64 else start)"
    proof (cases "k = 0")
      case True
      with at_pos_extend [OF _ zero, of "from" m free start] step.prems(1) show ?thesis by (simp add: add.commute)
    next
      case False
      with step.prems(1,3) zero show ?thesis by (auto simp: at_pos_def blocked_def)
    qed
    show ?thesis
    proof (cases "mx \<le> free + 64")
      case True
      have "found_ok b from m mx (min (free + 64) mx) (if free = 0 then i * 64 else start)"
        using True m size by (intro at_pos_found [OF at m]) auto
      with True 2 m show ?thesis by (simp add: unf Let_def min_absorb2)
    next
      case False
      with step.IH [of 0 "free + 64" "if free = 0 then i * 64 else start"] at 2 show ?thesis by (simp add: unf Let_def)
    qed
  next
    case 3
    have ok: "bucket_ok b (i * 64) (drop_bit k w) k" by (rule bucket_ok_start [OF bits step.prems(2)])
    have ne: "drop_bit k w \<noteq> -1"
    proof
      assume "drop_bit k w = -1"
      then have "bit (drop_bit k w) 63" by simp
      then have "k = 0" using bucket_bit [OF ok, of 63] by (cases k) auto
      with \<open>drop_bit k w = -1\<close> 3 show False by simp
    qed
    note sc = scan_bucket_ok [OF ok ne step.prems(1) m size]
    show ?thesis
    proof (cases "scan_bucket (i * 64) m mx (drop_bit k w) k free start")
      case (Found len st)
      with sc 3 show ?thesis by (simp add: unf)
    next
      case (Go free' st)
      with sc have "at_pos b from m (Suc i * 64 + 0) free' st" by (simp add: add.commute)
      with step.IH [of 0 free' st] Go 3 show ?thesis by (simp add: unf)
    qed
  qed
qed

section \<open>The bits after the last bucket\<close>

lemma scan_trailing_ok:
  assumes wf: "bitmap_wf b" and m: "0 < m" "m \<le> mx" and i: "i \<le> n" "f + n = m_size b"
    and "at_pos b from m (f + i) free start" "free < m"
  shows "\<exists>r. scan_trailing b m mx f i n free start = Inr r \<and> scan_ok b from m mx (m_size b) r \<and>
    (\<forall>free start. r = Go free start \<longrightarrow> free < m)"
  using i(1) assms(6-)
proof (induction i arbitrary: free start rule: inc_induct)
  case base
  then show ?case by (simp add: scan_trailing.simps [of b m mx f n n] i(2))
next
  case (step i)
  let ?start = "if free = 0 then f + i else start"
  have g: "get b (f + i) = Inr (tst b (f + i))" using step(2) i(2) by (intro get_eq [OF wf]) simp
  note unf = scan_trailing.simps [of b m mx f i n] step(2) g Let_def
  show ?case
  proof (cases "tst b (f + i)")
    case True
    have "at_pos b from m (f + i + 1) 0 start"
      using True by (intro at_pos_ones [OF step.prems]) (auto dest: antisym)
    with step.IH [of 0 start] True m show ?thesis by (simp add: unf)
  next
    case False
    have "run b (f + i) 1" using False by (auto simp: run_def dest: antisym)
    from at_pos_extend [OF step.prems(1) this] have at: "at_pos b from m (f + Suc i) (Suc free) ?start" by simp
    show ?thesis
    proof (cases "m \<le> Suc free")
      case True
      have "found_ok b from m mx (min (Suc free) mx) ?start"
        using step(2) i(2) by (intro at_pos_found [OF at m True]) simp
      with True False show ?thesis by (simp add: unf)
    next
      case F: False
      with step.IH [OF at] False show ?thesis by (simp add: unf)
    qed
  qed
qed

lemma at_pos_none:
  assumes "at_pos b from m (m_size b) free start" "free < m" "from \<le> s" "s + m \<le> m_size b"
  shows "\<not> run b s m"
  using assms by (auto simp: at_pos_def blocked_def)

lemma at_pos_start: "q \<le> from \<Longrightarrow> at_pos b from m q 0 start"
  by (auto simp: at_pos_def blocked_def)

lemma find_next_range_spec:
  assumes wf: "bitmap_wf b" and m: "0 < m" "m \<le> mx"
  obtains len start where "find_next_range_of_unset_bits b from m mx = Inr (Some len, start)" "found_ok b from m mx len start"
  | start where "find_next_range_of_unset_bits b from m mx = Inr (None, start)"
      "\<And>s. from \<le> s \<Longrightarrow> s + m \<le> m_size b \<Longrightarrow> \<not> run b s m"
proof -
  let ?N = "m_size b div 64" let ?f = "?N * 64"
  have "\<exists>r. scan_buckets b m mx (from div 64) (from mod 64) 0 from = Inr r \<and> scan_ok b from m mx ?f r"
  proof (cases "from div 64 < ?N")
    case True
    have "at_pos b from m (from div 64 * 64 + from mod 64) 0 from" by (rule at_pos_start) simp
    with True show ?thesis by (intro scan_buckets_ok [OF wf m]) auto
  next
    case False
    then have "?f \<le> from" by (metis div_times_less_eq_dividend le_trans mult_le_mono1 not_less)
    with False show ?thesis by (simp add: scan_buckets.simps [of b m mx "from div 64"] at_pos_start)
  qed
  then obtain r where r: "scan_buckets b m mx (from div 64) (from mod 64) 0 from = Inr r" "scan_ok b from m mx ?f r"
    by blast
  note unf = find_next_range_of_unset_bits_def leD [OF m(2)] r(1)
  let ?fn = "find_next_range_of_unset_bits b from m mx"
  show thesis
  proof (cases r)
    case (Found len start)
    then have "?fn = Inr (Some len, start)" by (simp add: unf)
    with r(2) Found that(1) show thesis by simp
  next
    case (Go free start)
    show thesis
    proof (cases "free < m")
      case True
      have "at_pos b from m (?f + 0) free start" using r(2) Go by simp
      then obtain r' where r': "scan_trailing b m mx ?f 0 (m_size b mod 64) free start = Inr r'"
          "scan_ok b from m mx (m_size b) r'" "\<forall>free start. r' = Go free start \<longrightarrow> free < m"
        using scan_trailing_ok [OF wf m _ _ _ True, of 0 "m_size b mod 64" ?f "from" start] by auto
      show thesis
      proof (cases r')
        case (Found len start')
        with r' Go True have "?fn = Inr (Some len, start')" by (simp add: unf)
        with r'(2) Found that(1) show thesis by simp
      next
        case Go': (Go free' start')
        with r' Go True have fn: "?fn = Inr (None, start')" by (simp add: unf)
        from Go' r' have "\<not> run b s m" if "from \<le> s" "s + m \<le> m_size b" for s
          using at_pos_none [of b "from" m free' start' s] that by simp
        with that(2) fn show thesis by blast
      qed
    next
      case False
      have "found_ok b from m mx (min free mx) start"
        using r(2) Go False by (intro at_pos_found [OF _ m]) auto
      moreover have "?fn = Inr (Some (min free mx), start)" using Go False by (simp add: unf)
      ultimately show thesis using that(1) by blast
    qed
  qed
qed

definition three_free :: bitmap where
  "three_free = \<lparr>m_data = [0], m_size = 3, m_addr = 0\<rparr>"

lemma find_next_three_free:
  "find_next_range_of_unset_bits three_free 0 2 max_size = Inr (Some 2, 0)"
  "find_next_range_of_unset_bits three_free 2 2 2 = Inr (Some 2, 0)"
  by (simp_all add: find_next_range_of_unset_bits_def scan_buckets.simps scan_trailing.simps
      three_free_def get_def read_byte_def max_size_def)

lemma three_free_wf: "bitmap_wf three_free"
  by (simp add: three_free_def bitmap_wf_def size_in_bytes_def ceil_div_def)



text \<open>\<^bold>\<open>C21.\<close> First fit is exact: it returns the lowest position at which \<open>minimum_length\<close> unset bits start
  inside the bitmap, and nothing only if there is no such position.\<close>

theorem find_first_fit_correct:
  assumes "bitmap_wf b" and "0 < minimum_length"
  shows "find_first_fit b minimum_length =
    Inr (if \<exists>s. s + minimum_length \<le> m_size b \<and> run b s minimum_length
         then Some (LEAST s. s + minimum_length \<le> m_size b \<and> run b s minimum_length) else None)"
proof (rule find_next_range_spec [OF assms order_refl, of 0])
  fix len start
  assume f: "find_next_range_of_unset_bits b 0 minimum_length minimum_length = Inr (Some len, start)"
    and ok: "found_ok b 0 minimum_length minimum_length len start"
  then have "(LEAST s. s + minimum_length \<le> m_size b \<and> run b s minimum_length) = start"
    by (intro Least_equality) (auto simp: found_ok_def blocked_def not_less [symmetric])
  with f ok show ?thesis by (auto simp: find_first_fit_def found_ok_def)
next
  fix start
  assume "find_next_range_of_unset_bits b 0 minimum_length minimum_length = Inr (None, start)"
    "\<And>s. 0 \<le> s \<Longrightarrow> s + minimum_length \<le> m_size b \<Longrightarrow> \<not> run b s minimum_length"
  then show ?thesis by (auto simp: find_first_fit_def)
qed

theorem find_first_fit_witness:
  "find_first_fit three_free 2 = Inr (Some (LEAST s. s + 2 \<le> m_size three_free \<and> run three_free s 2))"
proof -
  have "k < 2 \<Longrightarrow> \<not> tst three_free k" for k by (simp add: tst_def three_free_def)
  then have "\<exists>s. s + 2 \<le> m_size three_free \<and> run three_free s 2"
    by (intro exI [of _ 0]) (simp add: run_def three_free_def)
  with find_first_fit_correct [of three_free 2, OF three_free_wf] show ?thesis by simp
qed

section \<open>The longest range\<close>

lemma find_longest_loop_spec:
  assumes "bitmap_wf b" and "sz \<le> mx" and "0 < sz \<Longrightarrow> run b start sz \<and> start + sz \<le> m_size b"
  shows "\<exists>s z. find_longest_loop b mx pos start sz = Some (Inr (s, z)) \<and> sz \<le> z \<and> z \<le> mx \<and>
    (0 < z \<longrightarrow> run b s z \<and> s + z \<le> m_size b) \<and> (z = 0 \<and> 0 < mx \<longrightarrow> (\<forall>k. pos \<le> k \<and> k < m_size b \<longrightarrow> tst b k))"
  using assms(2-)
proof (induction "mx - sz" arbitrary: pos start sz rule: less_induct)
  case less
  note unf = find_longest_loop.simps [of b mx pos start sz]
  show ?case
  proof (cases "sz < mx")
    case False
    then have "find_next_range_of_unset_bits b pos (sz + 1) mx = Inr (None, pos)"
      by (simp add: find_next_range_of_unset_bits_def)
    then have "find_longest_loop b mx pos start sz = Some (Inr (start, sz))" by (simp add: unf)
    with less.prems False show ?thesis by auto
  next
    case True
    then have le: "sz + 1 \<le> mx" by simp
    show ?thesis
    proof (rule find_next_range_spec [OF assms(1) _ le, of pos])
      fix len s
      assume fn: "find_next_range_of_unset_bits b pos (sz + 1) mx = Inr (Some len, s)" and ok: "found_ok b pos (sz + 1) mx len s"
      then have "\<exists>s' z. find_longest_loop b mx (s + len) s len = Some (Inr (s', z)) \<and> len \<le> z \<and> z \<le> mx \<and>
          (0 < z \<longrightarrow> run b s' z \<and> s' + z \<le> m_size b) \<and> (z = 0 \<and> 0 < mx \<longrightarrow> (\<forall>k. s + len \<le> k \<and> k < m_size b \<longrightarrow> tst b k))"
        using True by (intro less.hyps) (auto simp: found_ok_def)
      with fn ok show ?thesis by (auto simp: unf found_ok_def)
    next
      fix s
      assume fn: "find_next_range_of_unset_bits b pos (sz + 1) mx = Inr (None, s)"
        and none: "\<And>s. pos \<le> s \<Longrightarrow> s + (sz + 1) \<le> m_size b \<Longrightarrow> \<not> run b s (sz + 1)"
      have "tst b k" if "sz = 0" "pos \<le> k" "k < m_size b" for k
        using none [of k] that by (auto simp: run_def dest: antisym)
      moreover have "find_longest_loop b mx pos start sz = Some (Inr (start, sz))" using fn by (simp add: unf)
      ultimately show ?thesis using less.prems by auto
    qed simp
  qed
qed

text \<open>\<^bold>\<open>C23.\<close> The search for the longest range always returns. It returns nothing only when it was asked for
  length 0 or every bit is set, and otherwise a nonempty range of unset bits inside the bitmap, not
  longer than asked for.\<close>

theorem find_longest_returns:
  assumes "bitmap_wf b"
  shows "\<exists>r z. find_longest_range_of_unset_bits b max_length = Some (Inr (r, z)) \<and> z \<le> max_length \<and>
    (case r of None \<Rightarrow> z = 0 \<and> (max_length = 0 \<or> (\<forall>k < m_size b. tst b k))
     | Some s \<Rightarrow> 0 < z \<and> run b s z \<and> s + z \<le> m_size b)"
proof -
  obtain s z where "find_longest_loop b max_length 0 0 0 = Some (Inr (s, z))" "z \<le> max_length"
      "0 < z \<longrightarrow> run b s z \<and> s + z \<le> m_size b" "z = 0 \<and> 0 < max_length \<longrightarrow> (\<forall>k. 0 \<le> k \<and> k < m_size b \<longrightarrow> tst b k)"
    using find_longest_loop_spec [OF assms, of 0 max_length 0 0] by auto
  then show ?thesis by (auto simp: find_longest_range_of_unset_bits_def)
qed

theorem find_longest_witness:
  "\<exists>r z. find_longest_range_of_unset_bits three_free 2 = Some (Inr (r, z)) \<and> z \<le> 2 \<and>
    (case r of None \<Rightarrow> z = 0 \<and> (2 = (0 :: nat) \<or> (\<forall>k < m_size three_free. tst three_free k))
     | Some s \<Rightarrow> 0 < z \<and> run three_free s z \<and> s + z \<le> m_size three_free)"
  by (rule find_longest_returns [OF three_free_wf])

section \<open>Best fit\<close>

lemma find_best_fit_loop_stuck: "find_best_fit_loop three_free 2 2 s 2 True = None"
proof -
  have "\<not> (b = three_free \<and> m = 2 \<and> p = 2 \<and> z = 2 \<and> f)"
    if "find_best_fit_loop b m p s z f = Some r" for b m p s z f r
    by (rule find_best_fit_loop.raw_induct
          [where P = "\<lambda>b m p s z f r. \<not> (b = three_free \<and> m = 2 \<and> p = 2 \<and> z = 2 \<and> f)", OF _ that])
      (auto simp: find_next_three_free numeral_2_eq_2 [symmetric], blast)
  then show ?thesis by (metis not_None_eq)
qed

text \<open>\<^bold>\<open>C24.\<close> Best fit need not return: on three unset bits, asked for two, the loop reaches a state in which
  the next search finds the same range again, because the scan of the last bits of the map starts over
  at their first bit whatever the position it is asked to start from.\<close>

theorem find_best_fit_diverges: "find_best_fit three_free 2 = None"
  by (simp add: find_best_fit_def find_best_fit_loop.simps [of three_free 2 0] find_next_three_free
      find_best_fit_loop_stuck numeral_2_eq_2 [symmetric])

text \<open>A range found does not start before the bucket of \<open>from\<close>, so a search for ranges of at least a whole
  bucket always moves on, and best fit returns.\<close>

lemma scan_bucket_start:
  "scan_bucket base m mx w viewed free start = r \<Longrightarrow> (0 < free \<Longrightarrow> L \<le> start) \<Longrightarrow> L \<le> base + viewed \<Longrightarrow> 0 < m \<Longrightarrow>
     (case r of Found len s \<Rightarrow> L \<le> s | Go free s \<Rightarrow> 0 < free \<longrightarrow> L \<le> s)"
proof (induction base m mx w viewed free start arbitrary: r rule: scan_bucket.induct)
  case (1 base m mx w viewed free start)
  note unf = scan_bucket.simps [of base m mx w viewed free start]
  show ?case
  proof (cases "viewed < 64")
    case False
    with 1(3-) show ?thesis by (auto simp: unf)
  next
    case True
    show ?thesis
    proof (cases "w = 0")
      case z: True
      have "scan_bucket base m mx w 64 (free + (64 - viewed)) (if free = 0 then base + viewed else start) = r"
        using 1(3) [unfolded unf] True z by simp
      from 1(1) [OF True z this] 1(4-) True show ?thesis by auto
    next
      case nz: False
      let ?t = "count_trailing_zeroes w" and ?s = "if free = 0 then base + viewed else start"
      show ?thesis
      proof (cases "m \<le> free + ?t")
        case found: True
        with 1(3-) True nz show ?thesis by (auto simp: unf Let_def)
      next
        case False
        let ?o = "count_trailing_zeroes (NOT (drop_bit ?t w))"
        from 1(3) True nz False have "scan_bucket base m mx (drop_bit ?o (drop_bit ?t w)) (viewed + ?t + ?o) 0 ?s = r"
          by (simp add: unf Let_def)
        from 1(2) [OF True nz refl refl refl refl refl _ refl this] False 1(4-) show ?thesis by auto
      qed
    qed
  qed
qed

lemma scan_buckets_start:
  "scan_buckets b m mx i k free start = Inr r \<Longrightarrow> (0 < free \<Longrightarrow> L \<le> start) \<Longrightarrow> L \<le> i * 64 \<Longrightarrow> 0 < m \<Longrightarrow>
     (case r of Found len s \<Rightarrow> L \<le> s | Go free s \<Rightarrow> 0 < free \<longrightarrow> L \<le> s)"
proof (induction "m_size b div 64 - i" arbitrary: i k free start)
  case 0
  then show ?case by (auto simp: scan_buckets.simps [of b m mx i])
next
  case (Suc n)
  then have i: "i < m_size b div 64" and n: "n = m_size b div 64 - Suc i" by simp_all
  from Suc.prems(1) i obtain w where w: "read_word b (8 * i) = Inr w"
    by (auto simp: scan_buckets.simps [of b m mx i] tryE_Inr_iff)
  note IH = Suc.hyps(1) [OF n]
  note unf = scan_buckets.simps [of b m mx i k free start] i w Let_def
  consider "w = -1" | "w = 0" | "w \<noteq> -1" "w \<noteq> 0" by blast
  then show ?case
  proof cases
    case 1
    with Suc.prems IH [of 0 0 start] show ?thesis by (auto simp: unf split: if_splits)
  next
    case 2
    with Suc.prems IH [of 0 "free + 64"] show ?thesis by (auto simp: unf split: if_splits)
  next
    case 3
    obtain q where q: "scan_bucket (i * 64) m mx (drop_bit k w) k free start = q" by blast
    have "case q of Found len s \<Rightarrow> L \<le> s | Go free s \<Rightarrow> 0 < free \<longrightarrow> L \<le> s"
      using Suc.prems by (intro scan_bucket_start [OF q]) auto
    with Suc.prems 3 q IH show ?thesis by (cases q) (auto simp: unf)
  qed
qed

lemma scan_trailing_start:
  "scan_trailing b m mx f i n free start = Inr r \<Longrightarrow> (0 < free \<Longrightarrow> L \<le> start) \<Longrightarrow> L \<le> f + i \<Longrightarrow> 0 < m \<Longrightarrow>
     (case r of Found len s \<Rightarrow> L \<le> s | Go free s \<Rightarrow> True)"
proof (induction "n - i" arbitrary: i free start)
  case 0
  then show ?case by (auto simp: scan_trailing.simps [of b m mx f i])
next
  case (Suc d)
  then have i: "i < n" and d: "d = n - Suc i" by simp_all
  from Suc.prems(1) i obtain v where v: "get b (f + i) = Inr v"
    by (auto simp: scan_trailing.simps [of b m mx f i] tryE_Inr_iff)
  note unf = scan_trailing.simps [of b m mx f i n free start] i v Let_def
  from Suc.prems Suc.hyps(1) [OF d, of 0 start] Suc.hyps(1) [OF d, of "Suc free"] show ?case
    by (cases v) (auto simp: unf split: if_splits)
qed

lemma find_next_range_start:
  assumes "find_next_range_of_unset_bits b from m mx = Inr (Some len, start)" "0 < m" "from \<le> m_size b"
  shows "from div 64 * 64 \<le> start"
proof -
  let ?L = "from div 64 * 64"
  have L: "?L \<le> m_size b div 64 * 64" using assms(3) by (simp add: div_le_mono)
  from assms(1) obtain r where r: "scan_buckets b m mx (from div 64) (from mod 64) 0 from = Inr r"
    by (auto simp: find_next_range_of_unset_bits_def tryE_Inr_iff split: if_splits)
  have ok: "case r of Found len s \<Rightarrow> ?L \<le> s | Go free s \<Rightarrow> 0 < free \<longrightarrow> ?L \<le> s"
    by (rule scan_buckets_start [OF r]) (use assms(2) in simp_all)
  show ?thesis
  proof (cases r)
    case (Found l s)
    with assms r ok show ?thesis by (auto simp: find_next_range_of_unset_bits_def split: if_splits)
  next
    case (Go free s)
    show ?thesis
    proof (cases "free < m")
      case True
      with assms(1) r Go obtain r' where r': "scan_trailing b m mx (m_size b div 64 * 64) 0 (m_size b mod 64) free s = Inr r'"
        by (auto simp: find_next_range_of_unset_bits_def tryE_Inr_iff split: if_splits)
      have "case r' of Found len s \<Rightarrow> ?L \<le> s | Go free s \<Rightarrow> True"
        by (rule scan_trailing_start [OF r']) (use ok Go L assms(2) in simp_all)
      with assms(1) r r' Go True show ?thesis
        by (auto simp: find_next_range_of_unset_bits_def split: if_splits scan.splits)
    next
      case False
      with assms r ok Go show ?thesis by (auto simp: find_next_range_of_unset_bits_def split: if_splits)
    qed
  qed
qed

lemma find_best_fit_loop_spec:
  assumes wf: "bitmap_wf b" and m: "64 \<le> m"
  shows "pos \<le> m_size b \<Longrightarrow> m \<le> sz \<Longrightarrow> (found \<Longrightarrow> run b start m \<and> start + m \<le> m_size b) \<Longrightarrow>
    \<exists>r. find_best_fit_loop b m pos start sz found = Some (Inr r) \<and>
      (case r of Some s \<Rightarrow> run b s m \<and> s + m \<le> m_size b
       | None \<Rightarrow> \<not> found \<and> (\<forall>s. pos \<le> s \<and> s + m \<le> m_size b \<longrightarrow> \<not> run b s m))"
proof (induction "m_size b - pos" arbitrary: pos start sz found rule: less_induct)
  case less
  note unf = find_best_fit_loop.simps [of b m pos start sz found]
  have m0: "0 < m" using m by simp
  show ?case
  proof (rule find_next_range_spec [OF wf m0 less.prems(2), of pos])
    fix len s
    assume fn: "find_next_range_of_unset_bits b pos m sz = Inr (Some len, s)" and ok: "found_ok b pos m sz len s"
    have "64 \<le> len" using ok m by (simp add: found_ok_def)
    moreover have "pos < pos div 64 * 64 + 64" using dividend_less_div_times [of 64 pos] by simp
    ultimately have "pos < s + len" using find_next_range_start [OF fn m0 less.prems(1)] by linarith
    then have dec: "m_size b - (s + len) < m_size b - pos" using ok by (auto simp: found_ok_def)
    have run: "run b s m \<and> s + m \<le> m_size b" "m \<le> len" "s + len \<le> m_size b" using ok run_less [of b s len m] by (auto simp: found_ok_def)
    show ?thesis
    proof (cases "sz > len \<or> \<not> found")
      case True
      from less.hyps [OF dec, of len True s] run True fn show ?thesis by (auto simp: unf split: option.splits)
    next
      case False
      then have "find_best_fit_loop b m pos start sz found = find_best_fit_loop b m (s + len) start sz found"
        unfolding unf fn by simp
      with less.hyps [OF dec, of sz found start] run(3) False less.prems show ?thesis by (auto split: option.splits)
    qed
  next
    fix s
    assume "find_next_range_of_unset_bits b pos m sz = Inr (None, s)"
      and "\<And>s. pos \<le> s \<Longrightarrow> s + m \<le> m_size b \<Longrightarrow> \<not> run b s m"
    with less.prems show ?thesis by (auto simp: unf)
  qed
qed

lemma find_best_fit_spec:
  assumes "bitmap_wf b" "64 \<le> m" "m_size b \<le> max_size"
  shows "\<exists>r. find_best_fit b m = Some (Inr r) \<and>
    (case r of Some s \<Rightarrow> run b s m \<and> s + m \<le> m_size b | None \<Rightarrow> \<forall>s. s + m \<le> m_size b \<longrightarrow> \<not> run b s m)"
proof (cases "m \<le> max_size")
  case True
  then show ?thesis using find_best_fit_loop_spec [OF assms(1,2), of 0 max_size False 0]
    by (auto simp: find_best_fit_def split: option.splits)
next
  case False
  then have "find_best_fit b m = Some (Inr None)"
    by (simp add: find_best_fit_def find_best_fit_loop.simps [of b m 0] find_next_range_of_unset_bits_def)
  with False assms(3) show ?thesis by auto
qed



section \<open>A longest range that is not the longest\<close>

definition crossing :: bitmap where
  "crossing = \<lparr>m_data = [0xFF, 0xFF, 0xFF, 0xFF, 0xFF, 0xFF, 0xFF, 0x7F, 0], m_size = 65, m_addr = 0\<rparr>"

lemma crossing_bucket: "read_word crossing 0 = Inr 0x7FFFFFFFFFFFFFFF"
  by (simp add: read_word_def crossing_def word_of_bytes_def)

lemma find_next_crossing:
  "find_next_range_of_unset_bits crossing 0 1 2 = Inr (Some 1, 63)"
  "find_next_range_of_unset_bits crossing 64 2 2 = Inr (None, 64)"
proof -
  have ctz: "count_trailing_zeroes (0x7FFFFFFFFFFFFFFF :: u64) = 0" "count_trailing_zeroes (- 0x8000000000000000 :: u64) = 63"
    by (simp_all add: count_trailing_zeroes_def upt_conv_Cons)
  have size: "m_size crossing = 65" by (simp add: crossing_def)
  have "scan_bucket 0 1 2 0x7FFFFFFFFFFFFFFF 0 0 0 = Go 1 63"
    by (simp add: scan_bucket.simps ctz)
  then show "find_next_range_of_unset_bits crossing 0 1 2 = Inr (Some 1, 63)"
    by (simp add: find_next_range_of_unset_bits_def scan_buckets.simps size crossing_bucket)
  have "get crossing 64 = Inr False" by (simp add: get_def crossing_def read_byte_def)
  then show "find_next_range_of_unset_bits crossing 64 2 2 = Inr (None, 64)"
    by (simp add: find_next_range_of_unset_bits_def scan_buckets.simps scan_trailing.simps size)
qed

text \<open>The range the search for the longest range returns need not be the longest: a range that
  crosses from the last 64-bit bucket into the remaining bits is seen as two. Here two unset bits start
  at 63, and the search answers with the one at 63 alone.\<close>

theorem find_longest_not_longest:
  "find_longest_range_of_unset_bits crossing 2 = Some (Inr (Some 63, 1)) \<and> run crossing 63 2 \<and> 63 + 2 \<le> m_size crossing"
proof -
  have "find_longest_loop crossing 2 0 0 0 = Some (Inr (63, 1))"
    using find_next_crossing
    by (simp add: find_longest_loop.simps [of crossing 2 0] find_longest_loop.simps [of crossing 2 64] numeral_2_eq_2 [symmetric])
  moreover have "run crossing 63 2"
  proof -
    have "tst crossing 63 = False" "tst crossing 64 = False" by (simp_all add: tst_def crossing_def)
    moreover have "k = 63 \<or> k = 64" if "63 \<le> k \<and> k < 63 + 2" for k :: nat using that by auto
    ultimately show ?thesis unfolding run_def by blast
  qed
  ultimately show ?thesis by (simp add: find_longest_range_of_unset_bits_def crossing_def)
qed

end
