(* ===== verification/Block_Allocator.thy ===== *)
theory Block_Allocator
  imports Prelude
begin

text \<open>
  The contract of an allocator of blocks, as the physical zones and the kernel heap promise it to their
  callers, and what a caller that allocates and gives back blocks in any order can rely on.
\<close>

section \<open>Callers\<close>

text \<open>A caller holds blocks; a request allocates a block or gives back the one at a position of the list.\<close>

datatype 'r request = Allocate 'r | Release nat

fun serve ::
  "('r \<Rightarrow> 's \<Rightarrow> ('h option \<times> 's) kresult) \<Rightarrow> ('r \<Rightarrow> 'h \<Rightarrow> 's \<Rightarrow> 's kresult) \<Rightarrow>
   'r request list \<Rightarrow> 's \<times> ('r \<times> 'h) list \<Rightarrow> ('s \<times> ('r \<times> 'h) list) kresult" where
  "serve alloc release [] sH = Inr sH"
| "serve alloc release (Allocate r # rs) (s, H) =
     tryE (alloc r s) (\<lambda>(h, s). serve alloc release rs (s, case h of None \<Rightarrow> H | Some h \<Rightarrow> (r, h) # H))"
| "serve alloc release (Release i # rs) (s, H) =
     (if i < length H
      then tryE (release (fst (H ! i)) (snd (H ! i)) s) (\<lambda>s. serve alloc release rs (s, take i H @ drop (Suc i) H))
      else serve alloc release rs (s, H))"

text \<open>The blocks held are disjoint from one another and from the free units, and all together they are \<open>U\<close>.\<close>

fun held_ok :: "('r \<Rightarrow> 'h \<Rightarrow> nat set) \<Rightarrow> nat set \<Rightarrow> ('r \<times> 'h) list \<Rightarrow> nat set \<Rightarrow> bool" where
  "held_ok span U [] F \<longleftrightarrow> F = U"
| "held_ok span U ((r, h) # H) F \<longleftrightarrow> span r h \<inter> F = {} \<and> held_ok span U H (F \<union> span r h)"

lemma held_ok_insert:
  "held_ok span U H F \<Longrightarrow> span r h \<subseteq> F \<Longrightarrow> held_ok span U ((r, h) # H) (F - span r h)"
  by (auto simp: Un_absorb2 Un_Diff_cancel2)

lemma held_ok_disjoint: "held_ok span U H F \<Longrightarrow> (r, h) \<in> set H \<Longrightarrow> span r h \<inter> F = {}"
proof (induction H arbitrary: F)
  case (Cons x H)
  then show ?case by (cases x) auto
qed simp

lemma held_ok_remove:
  "held_ok span U H F \<Longrightarrow> i < length H \<Longrightarrow>
     held_ok span U (take i H @ drop (Suc i) H) (F \<union> span (fst (H ! i)) (snd (H ! i)))"
proof (induction H arbitrary: F i)
  case (Cons x H)
  obtain r h where x: "x = (r, h)" by fastforce
  show ?case
  proof (cases i)
    case (Suc j)
    with Cons.prems x have ok: "held_ok span U H (F \<union> span r h)" and j: "j < length H" by simp_all
    let ?s = "span (fst (H ! j)) (snd (H ! j))"
    have "?s \<inter> (F \<union> span r h) = {}" using held_ok_disjoint [OF ok, of "fst (H ! j)" "snd (H ! j)"] j by simp
    moreover have "held_ok span U (take j H @ drop (Suc j) H) (F \<union> span r h \<union> ?s)" by (rule Cons.IH [OF ok j])
    then have "held_ok span U (take j H @ drop (Suc j) H) ((F \<union> ?s) \<union> span r h)" by (simp add: Un_ac)
    ultimately show ?thesis using Cons.prems x Suc by auto
  qed (use Cons.prems x in auto)
qed simp

lemma held_ok_pairwise:
  "held_ok span U H F \<Longrightarrow> i < j \<Longrightarrow> j < length H \<Longrightarrow>
     span (fst (H ! i)) (snd (H ! i)) \<inter> span (fst (H ! j)) (snd (H ! j)) = {}"
proof (induction H arbitrary: F i j)
  case (Cons x H)
  obtain r h where x: "x = (r, h)" by fastforce
  from Cons.prems obtain k where k: "j = Suc k" by (cases j) auto
  show ?case
  proof (cases i)
    case 0
    have "held_ok span U H (F \<union> span r h)" using Cons.prems x by simp
    from held_ok_disjoint [OF this, of "fst (H ! k)" "snd (H ! k)"] Cons.prems k x 0 show ?thesis by auto
  next
    case (Suc i')
    with Cons.prems x k Cons.IH [of "F \<union> span r h" i' k] show ?thesis by simp
  qed
qed simp

lemma held_ok_union: "held_ok span U H F \<Longrightarrow> F \<union> (\<Union>(r, h) \<in> set H. span r h) = U"
proof (induction H arbitrary: F)
  case (Cons x H)
  then show ?case by (cases x) (auto simp: Un_assoc)
qed simp

section \<open>The contract\<close>

text \<open>The state meets the invariant for the set of its free units and the list of the blocks held. Allocating
  returns a block of free units or nothing; giving back a held block makes its units free again. Only
  admissible requests are made.\<close>

locale block_allocator =
  fixes inv :: "'s \<Rightarrow> nat set \<Rightarrow> ('r \<times> 'h) list \<Rightarrow> bool"
    and alloc :: "'r \<Rightarrow> 's \<Rightarrow> ('h option \<times> 's) kresult"
    and release :: "'r \<Rightarrow> 'h \<Rightarrow> 's \<Rightarrow> 's kresult"
    and span :: "'r \<Rightarrow> 'h \<Rightarrow> nat set"
    and admissible :: "'r \<Rightarrow> bool"
  assumes alloc_ok: "inv s F H \<Longrightarrow> held_ok span U H F \<Longrightarrow> admissible r \<Longrightarrow> \<exists>h s'. alloc r s = Inr (h, s') \<and>
      (case h of None \<Rightarrow> inv s' F H | Some h \<Rightarrow> span r h \<subseteq> F \<and> inv s' (F - span r h) ((r, h) # H))"
    and release_ok: "inv s F H \<Longrightarrow> held_ok span U H F \<Longrightarrow> i < length H \<Longrightarrow>
      \<exists>s'. release (fst (H ! i)) (snd (H ! i)) s = Inr s' \<and>
        inv s' (F \<union> span (fst (H ! i)) (snd (H ! i))) (take i H @ drop (Suc i) H)"
begin

lemma serve_ok:
  assumes "inv s F H" "held_ok span U H F" "\<And>r. Allocate r \<in> set rs \<Longrightarrow> admissible r"
  shows "\<exists>s' H' F'. serve alloc release rs (s, H) = Inr (s', H') \<and> inv s' F' H' \<and> held_ok span U H' F'"
  using assms
proof (induction rs arbitrary: s H F)
  case (Cons q rs)
  show ?case
  proof (cases q)
    case (Allocate r)
    from alloc_ok [OF Cons.prems(1,2), of r] Cons.prems(3) Allocate obtain h s' where h: "alloc r s = Inr (h, s')"
      "case h of None \<Rightarrow> inv s' F H | Some h \<Rightarrow> span r h \<subseteq> F \<and> inv s' (F - span r h) ((r, h) # H)" by auto
    show ?thesis
    proof (cases h)
      case None
      with h Allocate Cons.IH [of s' F H] Cons.prems show ?thesis by simp
    next
      case (Some a)
      with h held_ok_insert [OF Cons.prems(2), of r a] Cons.IH [of s' "F - span r a" "(r, a) # H"] Cons.prems(3) Allocate
      show ?thesis by simp
    qed
  next
    case (Release i)
    show ?thesis
    proof (cases "i < length H")
      case True
      let ?r = "fst (H ! i)" and ?h = "snd (H ! i)"
      from release_ok [OF Cons.prems(1,2) True] obtain s' where s': "release ?r ?h s = Inr s'"
        "inv s' (F \<union> span ?r ?h) (take i H @ drop (Suc i) H)" by blast
      from Cons.IH [OF s'(2) held_ok_remove [OF Cons.prems(2) True]] Cons.prems(3) s'(1) True Release show ?thesis by simp
    next
      case False
      with Cons Release show ?thesis by simp
    qed
  qed
qed auto

text \<open>No request of any sequence fails, and in the end, as at every point, the blocks held are pairwise
  disjoint and make up the units together with what is free.\<close>

lemma serve_safe:
  assumes "inv s U []" "\<forall>r. Allocate r \<in> set rs \<longrightarrow> admissible r"
  shows "\<exists>s' H' F'. serve alloc release rs (s, []) = Inr (s', H') \<and> inv s' F' H' \<and>
    F' \<union> (\<Union>(r, h) \<in> set H'. span r h) = U \<and>
    (\<forall>i j. i < j \<and> j < length H' \<longrightarrow> span (fst (H' ! i)) (snd (H' ! i)) \<inter> span (fst (H' ! j)) (snd (H' ! j)) = {}) \<and>
    (\<forall>(r, h) \<in> set H'. span r h \<inter> F' = {})"
proof -
  obtain s' H' F' where "serve alloc release rs (s, []) = Inr (s', H')" "inv s' F' H'" "held_ok span U H' F'"
    using serve_ok [OF assms(1), of U rs] assms(2) by auto
  then show ?thesis using held_ok_union held_ok_pairwise held_ok_disjoint by (intro exI conjI) fast+
qed

end

end
