(* ===== verification/Kernel_Heap_Facts.thy ===== *)
theory Kernel_Heap_Facts
  imports Kernel_Heap Bitmap_Search Block_Allocator
begin

text \<open>
  The kernel heap keeps its invariant, never fails a check, always returns, and never hands out memory
  twice. The bitmap's \<^verbatim>\<open>set_range\<close>, which steps outside its buffer for a range that ends with it, is never
  asked for such a range: an allocation always leaves at least the last chunk unused.
\<close>

section \<open>Headers in memory\<close>

lemma read_size_cong: "(\<And>x. a \<le> x \<Longrightarrow> x < a + 8 \<Longrightarrow> mem x = mem' x) \<Longrightarrow> read_size mem a = read_size mem' a"
proof -
  assume "\<And>x. a \<le> x \<Longrightarrow> x < a + 8 \<Longrightarrow> mem x = mem' x"
  then have "map mem [a..<a + 8] = map mem' [a..<a + 8]" by (intro map_cong) auto
  then show ?thesis by (simp only: read_size_def)
qed

lemma read_write_size:
  assumes "n < 2 ^ 64"
  shows "read_size (write_size mem a n) a = n"
proof -
  let ?bs = "map (write_size mem a n) [a..<a + 8]"
  have "bit (word_of_bytes ?bs) j = bit (of_nat n :: u64) j" if "j < 64" for j
  proof -
    have k: "j div 8 < 8" using that by simp
    then have "?bs ! (j div 8) = write_size mem a n (a + j div 8)" by (subst nth_map) simp_all
    with k have "?bs ! (j div 8) = ucast (drop_bit (8 * (j div 8)) (of_nat n :: u64))" by (simp add: write_size_def)
    moreover have "bit (word_of_bytes ?bs) j = bit (?bs ! (j div 8)) (j mod 8)"
      using that by (intro bit_word_of_bytes) simp_all
    ultimately have "bit (word_of_bytes ?bs) j = bit (of_nat n :: u64) (8 * (j div 8) + j mod 8)"
      by (simp only: bit_ucast_iff bit_drop_bit_eq comp_def) simp
    then show ?thesis by simp
  qed
  then have "word_of_bytes ?bs = of_nat n" by (intro bit_word_eqI) simp
  with assms show ?thesis by (simp only: read_size_def) (simp add: unat_of_nat)
qed

section \<open>The invariant\<close>

definition heap_rel :: "heap_config \<Rightarrow> heap \<Rightarrow> nat set \<Rightarrow> bool" where
  "heap_rel c h F \<longleftrightarrow>
     AllocationHeaderSize < CHUNK_SIZE c \<and> CHUNK_SIZE c dvd m_chunks h \<and>
     m_chunks h + m_total_chunks h * CHUNK_SIZE c < 2 ^ 64 \<and> m_total_chunks h \<le> max_size \<and>
     bitmap_wf (m_bitmap h) \<and> m_size (m_bitmap h) = m_total_chunks h \<and>
     F = {k. k < m_total_chunks h \<and> \<not> tst (m_bitmap h) k} \<and> m_allocated_chunks h + card F = m_total_chunks h"

text \<open>The number of chunks of an allocation, and when a request fits into the arithmetic.\<close>

definition needed :: "heap_config \<Rightarrow> nat \<Rightarrow> nat" where
  "needed c n = (n + AllocationHeaderSize + CHUNK_SIZE c - 1) div CHUNK_SIZE c"

definition effective_alignment :: "heap_config \<Rightarrow> nat \<Rightarrow> nat" where
  "effective_alignment c alignment = max alignment (CHUNK_SIZE c)"

definition request_ok :: "heap_config \<Rightarrow> nat \<Rightarrow> nat \<Rightarrow> nat \<Rightarrow> bool" where
  "request_ok c limit n alignment \<longleftrightarrow>
     n + AllocationHeaderSize + CHUNK_SIZE c \<le> 2 ^ 62 \<and> CHUNK_SIZE c dvd effective_alignment c alignment \<and>
     effective_alignment c alignment + CHUNK_SIZE c \<le> 2 ^ 62 \<and> limit + effective_alignment c alignment < 2 ^ 64"

lemma heap_relD:
  assumes "heap_rel c h F"
  shows "AllocationHeaderSize < CHUNK_SIZE c" "CHUNK_SIZE c dvd m_chunks h" "bitmap_wf (m_bitmap h)"
    "m_chunks h + m_total_chunks h * CHUNK_SIZE c < 2 ^ 64" "m_size (m_bitmap h) = m_total_chunks h"
    "m_total_chunks h \<le> max_size"
    "\<And>k. k \<in> F \<longleftrightarrow> k < m_total_chunks h \<and> \<not> tst (m_bitmap h) k" "m_allocated_chunks h + card F = m_total_chunks h"
  using assms by (auto simp: heap_rel_def)

lemma heap_rel_finite: "heap_rel c h F \<Longrightarrow> finite F"
  by (simp add: heap_rel_def)

lemma heap_total_small: "heap_rel c h F \<Longrightarrow> m_total_chunks h < 2 ^ 32"
  using heap_relD(6) [of c h F] by (simp add: max_size_def)

lemma free_chunks_eq: "heap_rel c h F \<Longrightarrow> free_chunks h = card F"
proof -
  assume rel: "heap_rel c h F"
  have "m_total_chunks h < 2 ^ 64" using heap_total_small [OF rel] by simp
  with heap_relD(8) [OF rel] show ?thesis by (simp add: free_chunks_def size_sub_eq)
qed

lemma chunks_for_eq: "n + CHUNK_SIZE c < 2 ^ 64 \<Longrightarrow> 0 < CHUNK_SIZE c \<Longrightarrow> chunks_for c n = (n + CHUNK_SIZE c - 1) div CHUNK_SIZE c"
  by (simp add: chunks_for_def size_add_eq size_sub_eq)

lemma run_iff_free:
  assumes "heap_rel c h F" "s + n \<le> m_total_chunks h"
  shows "run (m_bitmap h) s n \<longleftrightarrow> {s..<s + n} \<subseteq> F"
  using assms(2) heap_relD(7) [OF assms(1)] by (auto simp: run_def subset_iff)

lemma needed_pos: "AllocationHeaderSize < CHUNK_SIZE c \<Longrightarrow> 0 < needed c n"
  by (simp add: needed_def AllocationHeaderSize_def div_greater_zero_iff)

lemma needed_bytes: "AllocationHeaderSize < CHUNK_SIZE c \<Longrightarrow> n + AllocationHeaderSize \<le> needed c n * CHUNK_SIZE c"
proof -
  assume C: "AllocationHeaderSize < CHUNK_SIZE c"
  have "n + AllocationHeaderSize + CHUNK_SIZE c - 1 < needed c n * CHUNK_SIZE c + CHUNK_SIZE c"
    unfolding needed_def using C by (metis add.commute dividend_less_div_times gr_implies_not0 gr0I)
  with C show ?thesis by linarith
qed

lemma heap_rel_update:
  assumes "heap_rel c h F" "range_set (m_bitmap h) v i n bits" "F' = {k. k < m_total_chunks h \<and> \<not> tst bits k}"
    "allocated + card F' = m_total_chunks h"
  shows "heap_rel c (h\<lparr>m_bitmap := bits, m_allocated_chunks := allocated, m_memory := mem\<rparr>) F'"
proof -
  have "bitmap_wf bits" "m_size bits = m_total_chunks h"
    using assms(1,2) by (auto simp: heap_rel_def range_set_def bitmap_wf_def size_in_bytes_def)
  with assms(1,4) show ?thesis unfolding heap_rel_def by (simp add: assms(3))
qed

section \<open>Placing an allocation\<close>

text \<open>Behind the alignment arithmetic: the header of an allocation in the chunks from \<open>i\<close> on ends with chunk \<open>i\<close>,
  and the memory handed out begins with the chunk after it.\<close>

lemma aligned_place:
  fixes C g k :: nat
  assumes C: "AllocationHeaderSize < C" and k: "0 < k"
  shows "\<exists>d < k. C * g + C * k - (C * g + AllocationHeaderSize) mod (C * k) + AllocationHeaderSize = C * Suc (g + d) \<and>
    (C * g + AllocationHeaderSize) mod (C * k) \<le> C * k \<and> k dvd Suc (g + d)"
proof -
  define m where "m = g mod k"
  have m: "m < k" "k dvd g - m" "m \<le> g" using k by (simp_all add: m_def dvd_minus_mod)
  have "(C * g + AllocationHeaderSize) mod (C * k) = C * m + AllocationHeaderSize"
    using C by (simp add: mod_mult2_eq m_def)
  moreover have "C * m + AllocationHeaderSize \<le> C * k"
  proof -
    have "C * Suc m \<le> C * k" using m(1) by (intro mult_le_mono2) simp
    with C show ?thesis by simp
  qed
  moreover have "C * g + C * k - C * m = C * Suc (g + (k - Suc m))"
  proof -
    have "Suc (g + (k - Suc m)) = g + k - m" using m by simp
    then show ?thesis by (simp only: diff_mult_distrib2 distrib_left)
  qed
  moreover have "k dvd Suc (g + (k - Suc m))"
  proof -
    have "Suc (g + (k - Suc m)) = (g - m) + k" using m by simp
    with m(2) show ?thesis by simp
  qed
  moreover have "k - Suc m < k" using m by simp
  ultimately show ?thesis by (intro exI [of _ "k - Suc m"]) auto
qed

lemma place_allocation_ok:
  assumes rel: "heap_rel c h F" and fit: "{first..<first + n + k} \<subseteq> F" "first + n + k \<le> m_total_chunks h"
    and n: "0 < n" and al: "alignment = CHUNK_SIZE c * k" "0 < k"
    and small: "m_chunks h + m_total_chunks h * CHUNK_SIZE c + alignment < 2 ^ 64"
  obtains i h' where "place_allocation c h first n alignment k w = Inr (Some (m_chunks h + Suc i * CHUNK_SIZE c), h')"
    "alignment dvd m_chunks h + Suc i * CHUNK_SIZE c" "{i..<i + n} \<subseteq> F" "i + n < m_total_chunks h"
    "heap_rel c h' (F - {i..<i + n})" "m_chunks h' = m_chunks h" "m_total_chunks h' = m_total_chunks h"
    "read_size (m_memory h') (m_chunks h + Suc i * CHUNK_SIZE c - AllocationHeaderSize) = n"
    "\<And>x. x < m_chunks h + Suc i * CHUNK_SIZE c - AllocationHeaderSize \<or>
        m_chunks h + Suc (i + n) * CHUNK_SIZE c - AllocationHeaderSize \<le> x \<Longrightarrow> m_memory h' x = m_memory h x"
proof -
  let ?C = "CHUNK_SIZE c" and ?A = "AllocationHeaderSize" and ?N = "m_total_chunks h"
  note C = heap_relD(1) [OF rel] and tot = heap_total_small [OF rel]
  obtain \<beta> where \<beta>: "m_chunks h = ?C * \<beta>" using heap_relD(2) [OF rel] by blast
  define g where "g = \<beta> + first"
  have start: "m_chunks h + first * ?C = ?C * g" by (simp add: \<beta> g_def algebra_simps)
  obtain d where d: "d < k" "?C * g + ?C * k - (?C * g + ?A) mod (?C * k) + ?A = ?C * Suc (g + d)"
      "(?C * g + ?A) mod (?C * k) \<le> ?C * k" "k dvd Suc (g + d)" using aligned_place [OF C al(2)] by blast
  define i where "i = first + d"
  define a where "a = ?C * g + ?C * k - (?C * g + ?A) mod (?C * k)"
  have i: "i + n < ?N" "first \<le> i" "{i..<i + n} \<subseteq> F" using fit d(1) by (auto simp: i_def)
  have ptr: "a + ?A = m_chunks h + Suc i * ?C" using d(2) by (simp add: a_def i_def g_def \<beta> algebra_simps)
  have le: "?C * g + ?C * k < 2 ^ 64"
  proof -
    have "first * ?C \<le> ?N * ?C" using fit(2) by (intro mult_le_mono1) simp
    with small start al show ?thesis by linarith
  qed
  have idx: "(a - m_chunks h) div ?C = i"
  proof -
    define r where "r = ?C - ?A"
    have "a - m_chunks h = i * ?C + r" "r < ?C" using ptr C by (simp_all add: r_def AllocationHeaderSize_def)
    then show ?thesis by simp
  qed
  have a: "size_sub (size_add (?C * g) alignment) ((?C * g + ?A) mod alignment) = a" "size_sub a (m_chunks h) = a - m_chunks h"
    using le d(3) ptr C unfolding al by (simp_all add: size_add_eq size_sub_eq a_def)
  have flip: "set_range True True (m_bitmap h) i n = set_range True False (m_bitmap h) i n"
    and room: "i + n < 8 * length (m_data (m_bitmap h))"
  proof -
    show room: "i + n < 8 * length (m_data (m_bitmap h))"
      using i(1) heap_relD(3,5) [OF rel] by (auto simp: bitmap_wf_def size_in_bytes_eq)
    show "set_range True True (m_bitmap h) i n = set_range True False (m_bitmap h) i n"
      using i n room heap_relD(3,5,7) [OF rel] by (intro set_range_flip) auto
  qed
  obtain bits where bits: "set_range True False (m_bitmap h) i n = Inr bits" "range_set (m_bitmap h) True i n bits"
    using set_range_ok [of "m_bitmap h" i n True] room i n heap_relD(3,5) [OF rel] by auto
  define mem where "mem = write_size (m_memory h) a n"
  define mem' where "mem' = (if \<not> w \<and> HEAP_SCRUB_BYTE_ALLOC c \<noteq> 0
      then fill_memory mem (a + ?A) (ucast (HEAP_SCRUB_BYTE_ALLOC c)) (n * ?C - ?A) else mem)"
  define h' where "h' = h\<lparr>m_bitmap := bits, m_allocated_chunks := m_allocated_chunks h + n, m_memory := mem'\<rparr>"
  have al0: "alignment dvd m_chunks h + Suc i * ?C"
  proof -
    have "m_chunks h + Suc i * ?C = ?C * Suc (g + d)" by (simp add: \<beta> g_def i_def algebra_simps)
    then show ?thesis using mult_dvd_mono [OF dvd_refl d(4), of ?C] by (simp only: al)
  qed
  have F: "F - {i..<i + n} = {k. k < ?N \<and> \<not> tst bits k}"
    using heap_relD(7) [OF rel] bits(2) by (auto simp: range_set_def)
  have card: "card (F - {i..<i + n}) + n = card F"
    using card_Diff_subset [OF _ i(3)] card_mono [OF heap_rel_finite [OF rel] i(3)] by simp
  have alloc: "m_allocated_chunks h + n \<le> ?N" using heap_relD(8) [OF rel] card by simp
  have rel': "heap_rel c h' (F - {i..<i + n})"
    unfolding h'_def using card heap_relD(8) [OF rel] by (intro heap_rel_update [OF rel bits(2) F]) simp
  have res: "place_allocation c h first n alignment k w = Inr (Some (m_chunks h + Suc i * ?C), h')"
  proof -
    have "size_add i n = i + n" "size_add (size_add first n) k = first + n + k" "size_add (m_allocated_chunks h) n = m_allocated_chunks h + n"
      using i(1) fit(2) alloc tot by (simp_all add: size_add_eq)
    moreover have "i + n \<le> first + n + k" using d(1) by (simp add: i_def)
    ultimately show ?thesis using i(2) al0 ptr
      by (simp add: place_allocation_def Let_def start a idx set_range_and_verify_that_all_bits_flip_def flip bits(1)
          h'_def mem'_def mem_def)
  qed
  have a': "m_chunks h + Suc i * ?C - ?A = a" using ptr by simp
  have Cn: "?A < ?C" "?C \<le> n * ?C" using C n by auto
  have "read_size mem' a = read_size mem a"
    by (rule read_size_cong) (simp add: mem'_def fill_memory_def AllocationHeaderSize_def)
  then have hd: "read_size (m_memory h') a = n"
    using read_write_size [of n "m_memory h" a] i(1) tot by (simp add: h'_def mem_def)
  have frame: "m_memory h' x = m_memory h x" if "x < a \<or> m_chunks h + Suc (i + n) * ?C - ?A \<le> x" for x
  proof -
    define s where "s = n * ?C"
    have "m_chunks h + Suc (i + n) * ?C - ?A = a + s" using ptr Cn by (simp add: algebra_simps s_def)
    moreover have "?A < s" using Cn by (simp only: s_def)
    ultimately show ?thesis using that unfolding h'_def mem'_def mem_def s_def [symmetric]
      by (auto simp: fill_memory_def write_size_def AllocationHeaderSize_def)
  qed
  show thesis
    by (rule that [OF res al0 i(3,1) rel']) (use hd frame a' in \<open>simp_all add: h'_def\<close>)
qed

section \<open>Allocating and freeing\<close>

text \<open>The block of \<open>n\<close> chunks from chunk \<open>i\<close> on has its header at \<^verbatim>\<open>block_start c base i\<close> and its memory at
  \<^verbatim>\<open>block_data c base i\<close>, and ends where the block of chunk \<open>i + n\<close> starts.\<close>

definition block_data :: "heap_config \<Rightarrow> nat \<Rightarrow> nat \<Rightarrow> nat" where
  "block_data c base i = base + Suc i * CHUNK_SIZE c"

definition block_start :: "heap_config \<Rightarrow> nat \<Rightarrow> nat \<Rightarrow> nat" where
  "block_start c base i = block_data c base i - AllocationHeaderSize"

definition same_outside :: "(nat \<Rightarrow> u8) \<Rightarrow> (nat \<Rightarrow> u8) \<Rightarrow> nat \<Rightarrow> nat \<Rightarrow> bool" where
  "same_outside mem mem' lo hi \<longleftrightarrow> (\<forall>x. x < lo \<or> hi \<le> x \<longrightarrow> mem' x = mem x)"

lemma block_start_mono: "i \<le> j \<Longrightarrow> block_start c base i \<le> block_start c base j"
  unfolding block_start_def block_data_def by (intro diff_le_mono add_left_mono mult_le_mono1) simp

lemma block_start_Suc: "AllocationHeaderSize < CHUNK_SIZE c \<Longrightarrow> block_start c base (Suc i) = block_start c base i + CHUNK_SIZE c"
  by (simp add: block_start_def block_data_def)

text \<open>The header of a block survives a change inside a disjoint block.\<close>

lemma header_kept:
  assumes "same_outside mem mem' (block_start c base i) (block_start c base (i + n))" "AllocationHeaderSize < CHUNK_SIZE c"
    "{j..<j + m} \<inter> {i..<i + n} = {}" "0 < m" "0 < n"
  shows "read_size mem' (block_start c base j) = read_size mem (block_start c base j)"
proof (rule read_size_cong)
  fix x assume x: "block_start c base j \<le> x" "x < block_start c base j + 8"
  have "x < block_start c base (Suc j)" using x(2) assms(2) by (simp add: block_start_Suc AllocationHeaderSize_def)
  moreover have "Suc j \<le> i \<or> i + n \<le> j"
  proof (rule ccontr)
    assume "\<not> ?thesis"
    then have "j \<in> {j..<j + m} \<inter> {i..<i + n}" using assms(4) by simp
    with assms(3) show False by blast
  qed
  ultimately have "x < block_start c base i \<or> block_start c base (i + n) \<le> x"
    using x(1) block_start_mono [of "Suc j" i c base] block_start_mono [of "i + n" j c base] by linarith
  with assms(1) show "mem' x = mem x" unfolding same_outside_def by blast
qed

lemma search_ok:
  assumes "bitmap_wf b" "0 < m" "m_size b \<le> max_size" "n \<le> m"
  shows "\<exists>r. (if n < best_fit_threshold then Some (find_first_fit b m) else find_best_fit b m) = Some (Inr r) \<and>
    (case r of None \<Rightarrow> \<forall>s. s + m \<le> m_size b \<longrightarrow> \<not> run b s m | Some s \<Rightarrow> s + m \<le> m_size b \<and> run b s m)"
proof (cases "n < best_fit_threshold")
  case True
  have "\<exists>r. find_first_fit b m = Inr r \<and>
    (case r of None \<Rightarrow> \<forall>s. s + m \<le> m_size b \<longrightarrow> \<not> run b s m | Some s \<Rightarrow> s + m \<le> m_size b \<and> run b s m)"
    by (rule find_next_range_spec [OF assms(1,2) order_refl, of 0]) (auto simp: find_first_fit_def found_ok_def)
  with True show ?thesis by simp
next
  case False
  then have "64 \<le> m" using assms(4) by (simp add: best_fit_threshold_def)
  from find_best_fit_spec [OF assms(1) this assms(3)] False show ?thesis by (auto split: option.splits)
qed

lemma Heap_allocate_ok:
  assumes rel: "heap_rel c h F" and req: "request_ok c (m_chunks h + m_total_chunks h * CHUNK_SIZE c) n alignment"
    and k: "k = effective_alignment c alignment div CHUNK_SIZE c"
  obtains "Heap_allocate c h n alignment w = Some (Inr (None, h))"
    "\<And>s. s + needed c n + k \<le> m_total_chunks h \<Longrightarrow> \<not> {s..<s + needed c n + k} \<subseteq> F"
  | i h' where "Heap_allocate c h n alignment w = Some (Inr (Some (block_data c (m_chunks h) i), h'))"
    "effective_alignment c alignment dvd block_data c (m_chunks h) i"
    "{i..<i + needed c n} \<subseteq> F" "i + needed c n < m_total_chunks h" "heap_rel c h' (F - {i..<i + needed c n})"
    "m_chunks h' = m_chunks h" "m_total_chunks h' = m_total_chunks h"
    "read_size (m_memory h') (block_start c (m_chunks h) i) = needed c n"
    "same_outside (m_memory h) (m_memory h') (block_start c (m_chunks h) i) (block_start c (m_chunks h) (i + needed c n))"
proof -
  let ?C = "CHUNK_SIZE c" and ?m = "needed c n" and ?al = "effective_alignment c alignment" and ?N = "m_total_chunks h"
  have C: "0 < ?C" using heap_relD(1) [OF rel] by simp
  note m = needed_pos [OF heap_relD(1) [OF rel], of n]
  have al: "?al = ?C * k" "0 < k" using req C k by (auto simp: request_ok_def effective_alignment_def div_greater_zero_iff)
  have ch: "chunks_for c (size_add n AllocationHeaderSize) = ?m" "chunks_for c ?al = k"
  proof -
    have "n + AllocationHeaderSize + ?C < 2 ^ 64" "?al + ?C < 2 ^ 64" using req by (auto simp: request_ok_def)
    then show "chunks_for c (size_add n AllocationHeaderSize) = ?m"
      using C by (simp add: size_add_eq chunks_for_eq needed_def)
    have "(?C * k + ?C - 1) div ?C = k" using C by (simp add: Suc_diff_Suc [symmetric] flip: add_diff_assoc)
    with \<open>?al + ?C < 2 ^ 64\<close> C show "chunks_for c ?al = k" by (simp add: chunks_for_eq al(1))
  qed
  have sum: "size_add ?m k = ?m + k"
  proof -
    have "?m \<le> n + AllocationHeaderSize + ?C - 1" "k \<le> ?al" by (simp_all add: needed_def k)
    moreover have "n + AllocationHeaderSize + ?C \<le> 2 ^ 62" "?al \<le> 2 ^ 62" using req by (auto simp: request_ok_def)
    ultimately have "?m + k \<le> 2 ^ 62 + 2 ^ 62" by linarith
    then show ?thesis by (intro size_add_eq) simp
  qed
  have eff: "(if alignment < ?C then ?C else alignment) = ?al" by (simp add: effective_alignment_def max_def)
  note unf = Heap_allocate_def eff ch sum free_chunks_eq [OF rel] Let_def
  show thesis
  proof (cases "card F < ?m")
    case True
    then have "\<not> {s..<s + ?m + k} \<subseteq> F" for s
      using card_mono [OF heap_rel_finite [OF rel], of "{s..<s + ?m + k}"] by auto
    with True that(1) show thesis by (simp add: unf)
  next
    case False
    let ?find = "if ?m < best_fit_threshold then Some (find_first_fit (m_bitmap h) (?m + k)) else find_best_fit (m_bitmap h) (?m + k)"
    have "\<exists>r. ?find = Some (Inr r) \<and> (case r of
        None \<Rightarrow> \<forall>s. s + (?m + k) \<le> ?N \<longrightarrow> \<not> run (m_bitmap h) s (?m + k)
      | Some s \<Rightarrow> s + (?m + k) \<le> ?N \<and> run (m_bitmap h) s (?m + k))"
      unfolding heap_relD(5) [OF rel, symmetric]
      by (rule search_ok [OF heap_relD(3) [OF rel]]) (use m heap_relD(5,6) [OF rel] in simp_all)
    then obtain r where r: "?find = Some (Inr r)" "case r of
        None \<Rightarrow> \<forall>s. s + (?m + k) \<le> ?N \<longrightarrow> \<not> run (m_bitmap h) s (?m + k)
      | Some s \<Rightarrow> s + (?m + k) \<le> ?N \<and> run (m_bitmap h) s (?m + k)" by blast
    show thesis
    proof (cases r)
      case None
      have "Heap_allocate c h n alignment w = Some (Inr (None, h))" unfolding unf r(1) using False None by simp
      moreover have "\<not> {s..<s + ?m + k} \<subseteq> F" if "s + ?m + k \<le> ?N" for s
        using r(2) None that run_iff_free [OF rel, of s "?m + k"] by (simp add: add.assoc)
      ultimately show thesis using that(1) by blast
    next
      case (Some s)
      then have fit: "{s..<s + ?m + k} \<subseteq> F" "s + ?m + k \<le> ?N"
        using r(2) run_iff_free [OF rel, of s "?m + k"] by (simp_all add: add.assoc)
      have "m_chunks h + ?N * ?C + ?al < 2 ^ 64" using req by (simp add: request_ok_def)
      from place_allocation_ok [OF rel fit m al this, of w] obtain i h' where
        p: "place_allocation c h s ?m ?al k w = Inr (Some (m_chunks h + Suc i * ?C), h')"
        "?al dvd m_chunks h + Suc i * ?C" "{i..<i + ?m} \<subseteq> F" "i + ?m < ?N"
        "heap_rel c h' (F - {i..<i + ?m})" "m_chunks h' = m_chunks h" "m_total_chunks h' = ?N"
        "read_size (m_memory h') (m_chunks h + Suc i * ?C - AllocationHeaderSize) = ?m"
        "\<And>x. x < m_chunks h + Suc i * ?C - AllocationHeaderSize \<or>
            m_chunks h + Suc (i + ?m) * ?C - AllocationHeaderSize \<le> x \<Longrightarrow> m_memory h' x = m_memory h x" by metis
      have "Heap_allocate c h n alignment w = Some (Inr (Some (block_data c (m_chunks h) i), h'))"
        unfolding unf r(1) using False Some p(1) by (simp add: block_data_def)
      from that(2) [OF this _ p(3-7)] p(2,8,9) show thesis
        unfolding block_start_def block_data_def same_outside_def by blast
    qed
  qed
qed

lemma Heap_deallocate_ok:
  assumes rel: "heap_rel c h F" and hd: "read_size (m_memory h) (block_start c (m_chunks h) i) = n"
    and blk: "0 < n" "i + n < m_total_chunks h" "{i..<i + n} \<inter> F = {}"
  obtains h' where "Heap_deallocate c h (block_data c (m_chunks h) i) = Inr h'" "heap_rel c h' (F \<union> {i..<i + n})"
    "m_chunks h' = m_chunks h" "m_total_chunks h' = m_total_chunks h"
    "same_outside (m_memory h) (m_memory h') (block_start c (m_chunks h) i) (block_start c (m_chunks h) (i + n))"
proof -
  let ?C = "CHUNK_SIZE c" and ?A = "AllocationHeaderSize" and ?N = "m_total_chunks h" and ?p = "block_data c (m_chunks h) i"
  let ?a = "block_start c (m_chunks h) i"
  note C = heap_relD(1) [OF rel] and top = heap_relD(4) [OF rel]
  have pa: "?p = ?a + ?A" and lo: "m_chunks h \<le> ?a" using C by (simp_all add: block_start_def block_data_def)
  have idx: "(?a - m_chunks h) div ?C = i"
  proof -
    define r where "r = ?C - ?A"
    have "?a - m_chunks h = i * ?C + r" "r < ?C"
      using C by (simp_all add: r_def block_start_def block_data_def AllocationHeaderSize_def)
    then show ?thesis by simp
  qed
  have mul: "Suc (i + n) * ?C \<le> ?N * ?C" using blk(2) by (intro mult_le_mono1) simp
  have eq: "Suc (i + n) * ?C = Suc i * ?C + n * ?C" by (simp add: algebra_simps)
  define s where "s = n * ?C"
  have fin: "?a + s + ?A \<le> m_chunks h + ?N * ?C" using mul pa unfolding eq s_def [symmetric] by (simp add: block_data_def)
  have s: "?C \<le> s" using blk(1) by (simp add: s_def)
  have used: "tst (m_bitmap h) k" if "i \<le> k" "k < i + n" for k
  proof -
    have "k \<in> {i..<i + n}" using that by simp
    with blk(3) have "k \<notin> F" by blast
    with that blk(2) heap_relD(7) [OF rel, of k] show ?thesis by simp
  qed
  have bits: "get (m_bitmap h) i = Inr True"
    using get_eq [OF heap_relD(3) [OF rel], of i] heap_relD(5) [OF rel] blk used [of i] by simp
  have room: "i + n < 8 * length (m_data (m_bitmap h))"
    using blk(2) heap_relD(3,5) [OF rel] by (auto simp: bitmap_wf_def size_in_bytes_eq)
  have "set_range False True (m_bitmap h) i n = set_range False False (m_bitmap h) i n"
    using blk room heap_relD(3,5) [OF rel] used by (intro set_range_flip) auto
  then obtain b where b: "set_range False True (m_bitmap h) i n = Inr b" "range_set (m_bitmap h) False i n b"
    using set_range_ok [of "m_bitmap h" i n False] room blk heap_relD(3,5) [OF rel] by auto
  have F: "F \<union> {i..<i + n} = {k. k < ?N \<and> \<not> tst b k}"
    using heap_relD(7) [OF rel] b(2) blk(2) by (auto simp: range_set_def)
  have "card (F \<union> {i..<i + n}) = card F + n"
    using card_Un_disjoint [OF heap_rel_finite [OF rel], of "{i..<i + n}"] blk(3) by (simp add: Int_commute)
  moreover have "card (F \<union> {i..<i + n}) \<le> ?N" using card_mono [of "{..<?N}" "F \<union> {i..<i + n}"] unfolding F by auto
  ultimately have al: "n \<le> m_allocated_chunks h" "m_allocated_chunks h - n + card (F \<union> {i..<i + n}) = ?N"
    using heap_relD(8) [OF rel] by simp_all
  define mem where "mem = (if HEAP_SCRUB_BYTE_FREE c \<noteq> 0 then fill_memory (m_memory h) ?a (ucast (HEAP_SCRUB_BYTE_FREE c)) s
      else m_memory h)"
  define h' where "h' = h\<lparr>m_bitmap := b, m_allocated_chunks := m_allocated_chunks h - n, m_memory := mem\<rparr>"
  have sub: "size_sub ?p ?A = ?a" "size_sub ?a (m_chunks h) = ?a - m_chunks h" "size_add ?a s = ?a + s"
      "s mod 18446744073709551616 = s"
    using pa lo fin top by (simp_all add: size_sub_eq size_add_eq)
  have "?p \<noteq> 0" "?p < m_chunks h + ?N * ?C" "?a + s \<le> m_chunks h + ?N * ?C"
    using pa fin s C by (simp_all add: AllocationHeaderSize_def)
  then have "Heap_deallocate c h ?p = Inr h'"
    using lo bits b(1) al(1)
    by (simp add: Heap_deallocate_def Let_def sub idx hd s_def [symmetric] set_range_and_verify_that_all_bits_flip_def h'_def mem_def)
  moreover have "heap_rel c h' (F \<union> {i..<i + n})"
    unfolding h'_def by (rule heap_rel_update [OF rel b(2) F al(2)])
  moreover have "block_start c (m_chunks h) (i + n) = ?a + s"
    using C by (simp add: block_start_def block_data_def s_def algebra_simps)
  then have "same_outside (m_memory h) (m_memory h') ?a (block_start c (m_chunks h) (i + n))"
    by (simp add: same_outside_def h'_def mem_def fill_memory_def)
  ultimately show thesis using that [of h'] by (simp add: h'_def)
qed

lemma Heap_ok:
  assumes "AllocationHeaderSize < CHUNK_SIZE c" "CHUNK_SIZE c dvd memory" "memory + memory_size < 2 ^ 64" "calculate_chunks c memory_size \<le> max_size"
    "\<And>x. memory \<le> x \<Longrightarrow> x < memory + memory_size \<Longrightarrow> mem x = 0"
  shows "\<exists>h. Heap c mem memory memory_size = Inr h \<and> heap_rel c h {..<calculate_chunks c memory_size} \<and>
    m_chunks h = memory \<and> m_total_chunks h = calculate_chunks c memory_size"
proof -
  let ?C = "CHUNK_SIZE c"
  define N where "N = calculate_chunks c memory_size"
  define l where "l = memory_size - N * ?C"
  have sz: "N * ?C + N \<le> memory_size"
    using div_times_less_eq_dividend [of memory_size "?C + 1"] by (simp add: N_def calculate_chunks_def algebra_simps)
  have l: "N \<le> l" "l + N * ?C = memory_size" using sz by (simp_all add: l_def)
  have up: "(N + 7) div 8 \<le> N" by (cases "N = 0") auto
  define bits where "bits = \<lparr>m_data = map mem [memory + N * ?C..<memory + memory_size], m_size = N, m_addr = memory + N * ?C\<rparr>"
  have ln: "length (m_data bits) = l" using l by (simp add: bits_def l_def)
  have "N < 2 ^ 64" using assms(3) l by simp
  then have wf: "bitmap_wf bits" using up l by (simp add: bitmap_wf_def size_in_bytes_eq ln) (simp add: bits_def)
  have "\<not> tst bits k" if "k < N" for k
  proof -
    have "k div 8 < l" using that l(1) by (meson div_le_dividend le_less_trans less_le_trans)
    moreover from this have "mem (memory + N * ?C + k div 8) = 0" using l by (intro assms(5)) linarith+
    ultimately show ?thesis using l by (simp add: tst_def bits_def)
  qed
  then have F: "{..<N} = {k. k < N \<and> \<not> tst bits k}" by auto
  have "Heap c mem memory memory_size = Inr \<lparr>m_total_chunks = N, m_allocated_chunks = 0, m_chunks = memory, m_bitmap = bits, m_memory = mem\<rparr>"
    using sz up unfolding Heap_def N_def [symmetric] Let_def bits_def by (simp add: verifyE_def)
  moreover have "heap_rel c \<lparr>m_total_chunks = N, m_allocated_chunks = 0, m_chunks = memory, m_bitmap = bits, m_memory = mem\<rparr> {..<N}"
  proof -
    have "m_size bits = N" by (simp add: bits_def)
    with assms(1-4) wf sz show ?thesis unfolding heap_rel_def N_def [symmetric] by (simp add: F [symmetric])
  qed
  ultimately show ?thesis unfolding N_def by simp
qed

section \<open>Sequences of requests\<close>

text \<open>A request is a size, an alignment and whether the caller initialises the memory. The chunks of a block
  follow from its address and the size asked for.\<close>

type_synonym heap_request = "nat \<times> nat \<times> bool"

definition returned :: "'a kresult option \<Rightarrow> 'a kresult" where
  "returned r = (case r of None \<Rightarrow> Inl Verification_failed | Some r \<Rightarrow> r)"

definition heap_alloc :: "heap_config \<Rightarrow> heap_request \<Rightarrow> heap \<Rightarrow> (nat option \<times> heap) kresult" where
  "heap_alloc c r h = (case r of (n, alignment, w) \<Rightarrow> returned (Heap_allocate c h n alignment w))"

definition heap_free :: "heap_config \<Rightarrow> heap_request \<Rightarrow> nat \<Rightarrow> heap \<Rightarrow> heap kresult" where
  "heap_free c r ptr h = Heap_deallocate c h ptr"

definition heap_block :: "heap_config \<Rightarrow> nat \<Rightarrow> heap_request \<Rightarrow> nat \<Rightarrow> nat set" where
  "heap_block c base r ptr = (let i = (ptr - base) div CHUNK_SIZE c - 1 in {i..<i + needed c (fst r)})"

definition heap_held :: "heap_config \<Rightarrow> heap \<Rightarrow> heap_request \<Rightarrow> nat \<Rightarrow> bool" where
  "heap_held c h r ptr \<longleftrightarrow> (\<exists>i. ptr = block_data c (m_chunks h) i \<and> i + needed c (fst r) < m_total_chunks h \<and>
     read_size (m_memory h) (block_start c (m_chunks h) i) = needed c (fst r) \<and> fst (snd r) dvd ptr)"

definition heap_inv :: "heap_config \<Rightarrow> nat \<Rightarrow> nat \<Rightarrow> heap \<Rightarrow> nat set \<Rightarrow> (heap_request \<times> nat) list \<Rightarrow> bool" where
  "heap_inv c base chunks h F H \<longleftrightarrow> heap_rel c h F \<and> m_chunks h = base \<and> m_total_chunks h = chunks \<and>
     (\<forall>(r, ptr) \<in> set H. heap_held c h r ptr)"

definition heap_admissible :: "heap_config \<Rightarrow> nat \<Rightarrow> nat \<Rightarrow> heap_request \<Rightarrow> bool" where
  "heap_admissible c base chunks r \<longleftrightarrow> request_ok c (base + chunks * CHUNK_SIZE c) (fst r) (fst (snd r)) \<and>
     fst (snd r) dvd effective_alignment c (fst (snd r))"

lemma heap_block_eq:
  "0 < CHUNK_SIZE c \<Longrightarrow> heap_block c base r (block_data c base i) = {i..<i + needed c (fst r)}"
  by (simp add: heap_block_def block_data_def)

lemma heap_held_kept:
  assumes "heap_held c h r ptr" "heap_rel c h F" "m_chunks h' = m_chunks h" "m_total_chunks h' = m_total_chunks h" "0 < n"
    "same_outside (m_memory h) (m_memory h') (block_start c (m_chunks h) i) (block_start c (m_chunks h) (i + n))"
    "heap_block c (m_chunks h) r ptr \<inter> {i..<i + n} = {}"
  shows "heap_held c h' r ptr"
proof -
  note C = heap_relD(1) [OF assms(2)]
  then have C0: "0 < CHUNK_SIZE c" by simp
  from assms(1) obtain j where j: "ptr = block_data c (m_chunks h) j" "j + needed c (fst r) < m_total_chunks h"
      "read_size (m_memory h) (block_start c (m_chunks h) j) = needed c (fst r)" "fst (snd r) dvd ptr" by (auto simp: heap_held_def)
  have "{j..<j + needed c (fst r)} \<inter> {i..<i + n} = {}" using assms(7) j(1) heap_block_eq [OF C0] by simp
  from header_kept [OF assms(6) C this needed_pos [OF C] assms(5)] j assms(3,4) show ?thesis by (auto simp: heap_held_def)
qed

interpretation kernel_heap: block_allocator
  "heap_inv c base chunks" "heap_alloc c" "heap_free c" "heap_block c base" "heap_admissible c base chunks" for c base chunks
proof (unfold_locales, goal_cases)
  case (1 h F H U r)
  obtain n al w where r: "r = (n, al, w)" by (cases r) auto
  from 1 have rel: "heap_rel c h F" and base: "m_chunks h = base" "m_total_chunks h = chunks"
    and held: "\<forall>(r, ptr) \<in> set H. heap_held c h r ptr" by (auto simp: heap_inv_def)
  have C0: "0 < CHUNK_SIZE c" using heap_relD(1) [OF rel] by simp
  have req: "request_ok c (m_chunks h + m_total_chunks h * CHUNK_SIZE c) n al" "al dvd effective_alignment c al"
    using 1(3) base r by (simp_all add: heap_admissible_def)
  show ?case
  proof (rule Heap_allocate_ok [OF rel req(1) refl, of w])
    assume "Heap_allocate c h n al w = Some (Inr (None, h))"
    with 1 r show ?thesis by (auto simp: heap_alloc_def returned_def)
  next
    fix i h'
    let ?B = "{i..<i + needed c n}" and ?p = "block_data c (m_chunks h) i"
    assume a: "Heap_allocate c h n al w = Some (Inr (Some ?p, h'))" "effective_alignment c al dvd ?p" "?B \<subseteq> F"
      "i + needed c n < m_total_chunks h" "heap_rel c h' (F - ?B)" "m_chunks h' = m_chunks h" "m_total_chunks h' = m_total_chunks h"
      "read_size (m_memory h') (block_start c (m_chunks h) i) = needed c n"
      "same_outside (m_memory h) (m_memory h') (block_start c (m_chunks h) i) (block_start c (m_chunks h) (i + needed c n))"
    have blk: "heap_block c base r ?p = ?B" using heap_block_eq [OF C0, of base r i] base r by simp
    have "heap_held c h' q ptr" if "(q, ptr) \<in> set H" for q ptr
    proof (rule heap_held_kept [OF _ rel a(6,7) _ a(9)])
      show "heap_block c (m_chunks h) q ptr \<inter> ?B = {}" using held_ok_disjoint [OF 1(2) that] a(3) base by auto
    qed (use held that needed_pos [OF heap_relD(1) [OF rel]] in auto)
    moreover have "heap_held c h' r ?p" using a(4,6-8) req(2) a(2) r by (auto simp: heap_held_def intro: dvd_trans)
    ultimately show ?thesis using a(1,3,5-7) base blk r
      by (auto simp: heap_alloc_def returned_def heap_inv_def)
  qed
next
  case (2 h F H U i)
  let ?r = "fst (H ! i)" and ?p = "snd (H ! i)"
  have el: "(?r, ?p) \<in> set H" using 2 by simp
  from 2 have rel: "heap_rel c h F" and base: "m_chunks h = base" "m_total_chunks h = chunks"
    and held: "\<forall>(r, ptr) \<in> set H. heap_held c h r ptr" by (auto simp: heap_inv_def)
  have C0: "0 < CHUNK_SIZE c" using heap_relD(1) [OF rel] by simp
  from held el have "heap_held c h ?r ?p" by blast
  then obtain j where j: "?p = block_data c (m_chunks h) j" "j + needed c (fst ?r) < m_total_chunks h"
      "read_size (m_memory h) (block_start c (m_chunks h) j) = needed c (fst ?r)" by (auto simp: heap_held_def)
  let ?B = "{j..<j + needed c (fst ?r)}"
  have blk: "heap_block c base ?r ?p = ?B" using heap_block_eq [OF C0, of base ?r j] j(1) base by simp
  have pos: "0 < needed c (fst ?r)" by (rule needed_pos [OF heap_relD(1) [OF rel]])
  have "?B \<inter> F = {}" using held_ok_disjoint [OF 2(2) el] blk by simp
  from Heap_deallocate_ok [OF rel j(3) pos j(2) this] obtain h' where
    h': "Heap_deallocate c h ?p = Inr h'" "heap_rel c h' (F \<union> ?B)" "m_chunks h' = m_chunks h" "m_total_chunks h' = m_total_chunks h"
      "same_outside (m_memory h) (m_memory h') (block_start c (m_chunks h) j) (block_start c (m_chunks h) (j + needed c (fst ?r)))"
    using j(1) by metis
  have "heap_held c h' q ptr" if q: "(q, ptr) \<in> set (take i H @ drop (Suc i) H)" for q ptr
  proof (rule heap_held_kept [OF _ rel h'(3,4) pos h'(5)])
    show "heap_held c h q ptr" using held q set_take_subset [of i H] set_drop_subset [of "Suc i" H] by auto
    from held_ok_disjoint [OF held_ok_remove [OF 2(2,3)] q] blk base
    show "heap_block c (m_chunks h) q ptr \<inter> ?B = {}" by auto
  qed
  with h' base blk show ?case by (auto simp: heap_free_def heap_inv_def)
qed

text \<open>Blocks of disjoint chunks are disjoint in memory, header and data.\<close>

lemma heap_held_bytes:
  assumes "heap_held c h r ptr" "heap_rel c h F"
  shows "m_chunks h + AllocationHeaderSize \<le> ptr" "ptr + fst r \<le> m_chunks h + m_total_chunks h * CHUNK_SIZE c"
    "\<exists>i. heap_block c (m_chunks h) r ptr = {i..<i + needed c (fst r)} \<and> ptr = block_start c (m_chunks h) i + AllocationHeaderSize \<and>
      ptr + fst r \<le> block_start c (m_chunks h) (i + needed c (fst r))"
proof -
  note C = heap_relD(1) [OF assms(2)]
  then have C0: "0 < CHUNK_SIZE c" by simp
  from assms(1) obtain i where i: "ptr = block_data c (m_chunks h) i" "i + needed c (fst r) < m_total_chunks h"
    by (auto simp: heap_held_def)
  have start: "ptr = block_start c (m_chunks h) i + AllocationHeaderSize" using i(1) C by (simp add: block_start_def block_data_def)
  have fin: "ptr + fst r \<le> block_start c (m_chunks h) (i + needed c (fst r))"
  proof -
    have "block_start c (m_chunks h) (i + needed c (fst r)) = block_start c (m_chunks h) i + needed c (fst r) * CHUNK_SIZE c"
      using C by (simp add: block_start_def block_data_def algebra_simps)
    with start needed_bytes [OF C, of "fst r"] show ?thesis by simp
  qed
  show "m_chunks h + AllocationHeaderSize \<le> ptr" using i(1) C by (simp add: block_data_def)
  have "Suc (i + needed c (fst r)) * CHUNK_SIZE c \<le> m_total_chunks h * CHUNK_SIZE c" using i(2) by (intro mult_le_mono1) simp
  then have "block_start c (m_chunks h) (i + needed c (fst r)) \<le> m_chunks h + m_total_chunks h * CHUNK_SIZE c"
    by (simp add: block_start_def block_data_def)
  with fin show "ptr + fst r \<le> m_chunks h + m_total_chunks h * CHUNK_SIZE c" by linarith
  show "\<exists>i. heap_block c (m_chunks h) r ptr = {i..<i + needed c (fst r)} \<and> ptr = block_start c (m_chunks h) i + AllocationHeaderSize \<and>
      ptr + fst r \<le> block_start c (m_chunks h) (i + needed c (fst r))"
    using heap_block_eq [OF C0] i(1) start fin by (intro exI [of _ i]) simp
qed

lemma heap_held_disjoint:
  assumes "heap_held c h r p" "heap_held c h r' p'" "heap_rel c h F"
    "heap_block c (m_chunks h) r p \<inter> heap_block c (m_chunks h) r' p' = {}"
  shows "p + fst r \<le> p' - AllocationHeaderSize \<or> p' + fst r' \<le> p - AllocationHeaderSize"
proof -
  obtain i j where i: "heap_block c (m_chunks h) r p = {i..<i + needed c (fst r)}" "p = block_start c (m_chunks h) i + AllocationHeaderSize"
      "p + fst r \<le> block_start c (m_chunks h) (i + needed c (fst r))"
    and j: "heap_block c (m_chunks h) r' p' = {j..<j + needed c (fst r')}" "p' = block_start c (m_chunks h) j + AllocationHeaderSize"
      "p' + fst r' \<le> block_start c (m_chunks h) (j + needed c (fst r'))"
    using heap_held_bytes(3) [OF assms(1,3)] heap_held_bytes(3) [OF assms(2,3)] by blast
  have "i + needed c (fst r) \<le> j \<or> j + needed c (fst r') \<le> i"
  proof (rule ccontr)
    assume "\<not> ?thesis"
    then have "max i j \<in> {i..<i + needed c (fst r)} \<inter> {j..<j + needed c (fst r')}"
      using needed_pos [OF heap_relD(1) [OF assms(3)]] by auto
    with assms(4) i(1) j(1) show False by simp
  qed
  then show ?thesis
    using i(2,3) j(2,3) block_start_mono [of "i + needed c (fst r)" j c "m_chunks h"]
      block_start_mono [of "j + needed c (fst r')" i c "m_chunks h"] by auto
qed


definition kmalloc_config :: heap_config where
  "kmalloc_config = \<lparr>CHUNK_SIZE = 64, HEAP_SCRUB_BYTE_ALLOC = 0xbb, HEAP_SCRUB_BYTE_FREE = 0xaa\<rparr>"




text \<open>\<^bold>\<open>C34.\<close> The size plus the header wraps at 64 bits unchecked: asking the heap for \<open>2 ^ 64 - 8\<close> bytes is the
  same as asking it for none.\<close>

theorem Heap_allocate_wraps:
  assumes "AllocationHeaderSize < CHUNK_SIZE c" and "CHUNK_SIZE c < 2 ^ 32"
  shows "Heap_allocate c h (2 ^ 64 - 8) alignment w = Heap_allocate c h 0 alignment w"
proof -
  have "size_add (2 ^ 64 - 8) AllocationHeaderSize = 8" "size_add 0 AllocationHeaderSize = 16"
    by (simp_all add: size_add_def AllocationHeaderSize_def)
  moreover have "chunks_for c 8 = 1" "chunks_for c 16 = 1"
    using assms by (simp_all add: chunks_for_eq AllocationHeaderSize_def div_nat_eqI)
  ultimately show ?thesis by (simp only: Heap_allocate_def Let_def)
qed

theorem Heap_allocate_wraps_witness:
  "\<forall>h. Heap_allocate kmalloc_config h (2 ^ 64 - 8) 64 True = Heap_allocate kmalloc_config h 0 64 True"
  by (rule allI, rule Heap_allocate_wraps) (simp_all add: kmalloc_config_def AllocationHeaderSize_def)

end
