(* ===== verification/Physical_Zone.thy ===== *)
theory Physical_Zone
  imports Bitmap_Facts
begin

text \<open>
  \<^verbatim>\<open>Kernel/Memory/PhysicalZone.{h,cpp}\<close>: the buddy allocator behind physical page allocation. A zone has
  thirteen buckets, one per block order; a block of order \<open>n\<close> is \<open>2 ^ n\<close> pages. A bucket holds the head
  of a doubly linked list of free blocks and a bitmap with one bit per pair of buddies. The list nodes
  live in the array of page entries, indexed by the first page of the block; the model holds the part of
  that array that belongs to the zone, so an index outside the zone is \<^verbatim>\<open>Out_of_bounds\<close>. Indices count
  chunks of half a page and are 16 bits wide and signed; \<^verbatim>\<open>chunk_index\<close> is the conversion to that type.
\<close>

record freelist_entry =
  next_index :: int
  prev_index :: int

record buddy_bucket =
  order :: nat
  freelist :: int
  buddy_bitmap :: bitmap

record zone =
  m_buckets :: "buddy_bucket list"
  m_base_address :: nat
  m_page_count :: nat
  m_used_chunks :: nat
  m_entries :: "freelist_entry list"

definition ZONE_CHUNK_SIZE :: nat where
  "ZONE_CHUNK_SIZE = PAGE_SIZE div 2"

definition max_order :: nat where
  "max_order = 12"

definition chunk_index :: "int \<Rightarrow> int" where
  "chunk_index x = (x + 2 ^ 15) mod 2 ^ 16 - 2 ^ 15"

definition available :: "zone \<Rightarrow> nat" where
  "available z = size_sub (m_page_count z) (m_used_chunks z div 2)"

definition is_empty :: "zone \<Rightarrow> bool" where
  "is_empty z \<longleftrightarrow> available z = 0"

definition contains :: "zone \<Rightarrow> nat \<Rightarrow> bool" where
  "contains z paddr \<longleftrightarrow> m_base_address z \<le> paddr \<and> paddr < size_add (m_base_address z) (m_page_count z * PAGE_SIZE)"

section \<open>Page entries and buckets\<close>

definition get_freelist_entry :: "zone \<Rightarrow> int \<Rightarrow> freelist_entry kresult" where
  "get_freelist_entry z index =
     (if 0 \<le> index \<and> nat index * ZONE_CHUNK_SIZE div PAGE_SIZE < length (m_entries z)
      then Inr (m_entries z ! (nat index * ZONE_CHUNK_SIZE div PAGE_SIZE)) else Inl Out_of_bounds)"

definition modify_freelist_entry :: "zone \<Rightarrow> int \<Rightarrow> (freelist_entry \<Rightarrow> freelist_entry) \<Rightarrow> zone kresult" where
  "modify_freelist_entry z index f =
     tryE (get_freelist_entry z index) (\<lambda>e.
       Inr (z\<lparr>m_entries := (m_entries z)[nat index * ZONE_CHUNK_SIZE div PAGE_SIZE := f e]\<rparr>))"

text \<open>The guarded form \<^verbatim>\<open>if (index != -1) get_freelist_entry(index)...\<close> in which the code follows a link.\<close>

definition modify_linked :: "zone \<Rightarrow> int \<Rightarrow> (freelist_entry \<Rightarrow> freelist_entry) \<Rightarrow> zone kresult" where
  "modify_linked z index f = (if index \<noteq> -1 then modify_freelist_entry z index f else Inr z)"

definition get_bucket :: "zone \<Rightarrow> nat \<Rightarrow> buddy_bucket kresult" where
  "get_bucket z n = (if n < length (m_buckets z) then Inr (m_buckets z ! n) else Inl Out_of_bounds)"

definition put_bucket :: "zone \<Rightarrow> nat \<Rightarrow> buddy_bucket \<Rightarrow> zone" where
  "put_bucket z n b = z\<lparr>m_buckets := (m_buckets z)[n := b]\<rparr>"

definition buddy_bit_index :: "buddy_bucket \<Rightarrow> int \<Rightarrow> nat" where
  "buddy_bit_index b index = nat (index div 2 div 2 ^ (1 + order b) mod 2 ^ 64)"

definition get_buddy_bit :: "buddy_bucket \<Rightarrow> int \<Rightarrow> bool kresult" where
  "get_buddy_bit b index = get (buddy_bitmap b) (buddy_bit_index b index)"

definition set_buddy_bit :: "buddy_bucket \<Rightarrow> int \<Rightarrow> bool \<Rightarrow> buddy_bucket kresult" where
  "set_buddy_bit b index value =
     tryE (set_bit_to (buddy_bitmap b) (buddy_bit_index b index) value) (\<lambda>bm. Inr (b\<lparr>buddy_bitmap := bm\<rparr>))"

section \<open>Allocation\<close>

function allocate_block_impl :: "zone \<Rightarrow> nat \<Rightarrow> (int option \<times> zone) kresult" where
  "allocate_block_impl z n =
     (if n > max_order then Inr (None, z)
      else let block_size = 2 * 2 ^ n in
        tryE (get_bucket z n) (\<lambda>bucket.
        if freelist bucket = -1 then
          tryE (allocate_block_impl z (n + 1)) (\<lambda>(buddies, z).
          case buddies of
            None \<Rightarrow> Inr (None, z)
          | Some index \<Rightarrow>
              tryE (modify_freelist_entry z index (\<lambda>e. e\<lparr>next_index := -1, prev_index := -1\<rparr>)) (\<lambda>z.
              tryE (get_bucket z n) (\<lambda>bucket.
              let bucket = bucket\<lparr>freelist := index\<rparr> in
              tryE (get_buddy_bit bucket index) (\<lambda>bit.
              verifyE (bit = False)
              (tryE (set_buddy_bit bucket index True) (\<lambda>bucket.
              Inr (Some (chunk_index (index + block_size)), put_bucket z n bucket)))))))
        else
          let index = freelist bucket in
          tryE (get_freelist_entry z (freelist bucket)) (\<lambda>e.
          let bucket = bucket\<lparr>freelist := next_index e\<rparr> in
          tryE (modify_linked z (freelist bucket) (\<lambda>e. e\<lparr>prev_index := -1\<rparr>)) (\<lambda>z.
          tryE (get_buddy_bit bucket index) (\<lambda>bit.
          verifyE (bit = True)
          (tryE (set_buddy_bit bucket index False) (\<lambda>bucket.
          Inr (Some index, put_bucket z n bucket))))))))"
  by pat_completeness auto
termination
  by (relation "measure (\<lambda>(z, n). Suc max_order - n)") auto

declare allocate_block_impl.simps [simp del]

definition allocate_block :: "zone \<Rightarrow> nat \<Rightarrow> (nat option \<times> zone) kresult" where
  "allocate_block z n =
     (let block_size = 2 * 2 ^ n in
      tryE (allocate_block_impl z n) (\<lambda>(result, z).
      case result of
        None \<Rightarrow> Inr (None, z)
      | Some index \<Rightarrow>
          let z = z\<lparr>m_used_chunks := size_add (m_used_chunks z) block_size\<rparr> in
          verifyE (even index)
          (Inr (Some (nat ((int (m_base_address z) + index * int ZONE_CHUNK_SIZE) mod 2 ^ 64)), z))))"

section \<open>Deallocation\<close>

definition remove_from_freelist :: "zone \<Rightarrow> buddy_bucket \<Rightarrow> int \<Rightarrow> (buddy_bucket \<times> zone) kresult" where
  "remove_from_freelist z bucket index =
     tryE (get_freelist_entry z index) (\<lambda>e.
     verifyE (prev_index e \<ge> -1)
     (verifyE (next_index e \<ge> -1)
     (tryE (modify_linked z (prev_index e) (\<lambda>p. p\<lparr>next_index := next_index e\<rparr>)) (\<lambda>z.
     tryE (get_freelist_entry z index) (\<lambda>e.
     tryE (modify_linked z (next_index e) (\<lambda>n. n\<lparr>prev_index := prev_index e\<rparr>)) (\<lambda>z.
     tryE (get_freelist_entry z index) (\<lambda>e.
     let bucket = (if freelist bucket = index then bucket\<lparr>freelist := next_index e\<rparr> else bucket) in
     tryE (modify_freelist_entry z index (\<lambda>e. e\<lparr>next_index := -1, prev_index := -1\<rparr>)) (\<lambda>z.
     Inr (bucket, z))))))))) "

function deallocate_block_impl :: "zone \<Rightarrow> int \<Rightarrow> nat \<Rightarrow> zone kresult" where
  "deallocate_block_impl z index n =
     (let block_size = 2 * 2 ^ n in
      if n > max_order then Inl Out_of_bounds
      else tryE (get_bucket z n) (\<lambda>bucket.
      tryE (get_buddy_bit bucket index) (\<lambda>bit.
      if bit then
        let buddy_base_index = chunk_index (int (push_bit (1 + n) (push_bit 1 (buddy_bit_index bucket index)))) in
        tryE (if index = buddy_base_index
              then remove_from_freelist z bucket (chunk_index (buddy_base_index + block_size))
              else remove_from_freelist z bucket buddy_base_index) (\<lambda>(bucket, z).
        tryE (set_buddy_bit bucket index False) (\<lambda>bucket.
        deallocate_block_impl (put_bucket z n bucket) buddy_base_index (n + 1)))
      else
        tryE (modify_linked z (freelist bucket) (\<lambda>e. e\<lparr>prev_index := index\<rparr>)) (\<lambda>z.
        tryE (modify_freelist_entry z index (\<lambda>e. e\<lparr>next_index := freelist bucket, prev_index := -1\<rparr>)) (\<lambda>z.
        let bucket = bucket\<lparr>freelist := index\<rparr> in
        tryE (set_buddy_bit bucket index True) (\<lambda>bucket.
        Inr (put_bucket z n bucket)))))))"
  by pat_completeness auto
termination
  by (relation "measure (\<lambda>(z, index, n). Suc max_order - n)") auto

declare deallocate_block_impl.simps [simp del]

definition deallocate_block :: "zone \<Rightarrow> nat \<Rightarrow> nat \<Rightarrow> zone kresult" where
  "deallocate_block z address n =
     (let block_size = 2 * 2 ^ n;
          index = chunk_index (int (size_sub address (m_base_address z) div ZONE_CHUNK_SIZE)) in
      tryE (deallocate_block_impl z index n) (\<lambda>z.
      Inr (z\<lparr>m_used_chunks := size_sub (m_used_chunks z) block_size\<rparr>)))"

section \<open>Construction\<close>

text \<open>The constructor grows the bitmap of every order that has blocks, then puts the whole zone as free
  blocks on the list of its own order. The buffers the bitmaps are grown into come from \<^verbatim>\<open>kmalloc\<close>:
  \<open>alloc n\<close> is the content and the address of the buffer of order \<open>n\<close>. \<open>entries\<close> is what the page entries
  hold before.\<close>

definition make_bucket :: "(nat \<Rightarrow> u8 list \<times> nat) \<Rightarrow> nat \<Rightarrow> nat \<Rightarrow> buddy_bucket kresult" where
  "make_bucket alloc chunk_count n =
     (let block_size = 2 * 2 ^ n;
          bitmap_size_for_order = ceil_div (chunk_count div block_size) 2;
          bm = \<lparr>m_data = [], m_size = 0, m_addr = 0\<rparr> in
      tryE (if bitmap_size_for_order \<noteq> 0
            then grow (fst (alloc n)) (snd (alloc n)) bm bitmap_size_for_order False else Inr bm) (\<lambda>bm.
      Inr \<lparr>order = n, freelist = -1, buddy_bitmap = bm\<rparr>))"

fun make_buckets :: "(nat \<Rightarrow> u8 list \<times> nat) \<Rightarrow> nat \<Rightarrow> nat \<Rightarrow> buddy_bucket list kresult" where
  "make_buckets alloc chunk_count 0 = Inr []"
| "make_buckets alloc chunk_count (Suc n) =
     tryE (make_bucket alloc chunk_count n) (\<lambda>b.
     tryE (make_buckets alloc chunk_count n) (\<lambda>bs. Inr (bs @ [b])))"

fun add_initial_blocks :: "zone \<Rightarrow> nat \<Rightarrow> nat \<Rightarrow> nat \<Rightarrow> nat \<Rightarrow> nat \<Rightarrow> zone kresult" where
  "add_initial_blocks z first_order block_size i offset 0 = Inr z"
| "add_initial_blocks z first_order block_size i offset (Suc left) =
     (let index = chunk_index (int (offset + i)) in
      tryE (get_bucket z first_order) (\<lambda>bucket.
      tryE (set_buddy_bit bucket index True) (\<lambda>bucket.
      tryE (modify_freelist_entry z index (\<lambda>e. e\<lparr>next_index := freelist bucket, prev_index := -1\<rparr>)) (\<lambda>z.
      add_initial_blocks (put_bucket z first_order (bucket\<lparr>freelist := index\<rparr>)) first_order block_size
        (Suc i) (offset + block_size) left))))"

definition PhysicalZone ::
  "(nat \<Rightarrow> u8 list \<times> nat) \<Rightarrow> freelist_entry list \<Rightarrow> nat \<Rightarrow> nat \<Rightarrow> zone kresult" where
  "PhysicalZone alloc entries base_address page_count =
     (let chunk_count = page_count * 2 in
      tryE (make_buckets alloc chunk_count (Suc max_order)) (\<lambda>buckets.
      let z = \<lparr>m_buckets = buckets, m_base_address = base_address, m_page_count = page_count,
               m_used_chunks = 0, m_entries = entries\<rparr>;
          first_order = count_trailing_zeroes (word_of_nat page_count :: u64);
          block_size = 2 * 2 ^ first_order;
          initial_bundle_count = chunk_count div block_size in
      add_initial_blocks z first_order block_size 0 0 initial_bundle_count))"

end
