(* ===== verification/Buddy.thy ===== *)
theory Buddy
  imports Prelude
begin

text \<open>
  A buddy system over page numbers, without the linked lists and bitmaps of \<^verbatim>\<open>PhysicalZone\<close>: \<open>fl n\<close> is the
  list of the first pages of the free blocks of order \<open>n\<close>. It is the abstract level of the physical
  zone; this theory shows what taking and giving back blocks does to the set of free pages.
\<close>

section \<open>Blocks\<close>

definition block :: "nat \<Rightarrow> nat \<Rightarrow> nat set" where
  "block n p = {p..<p + 2 ^ n}"

definition pages :: "(nat \<Rightarrow> nat list) \<Rightarrow> nat set" where
  "pages fl = (\<Union>n. \<Union>p \<in> set (fl n). block n p)"

definition in_zone :: "nat \<Rightarrow> nat \<Rightarrow> nat \<Rightarrow> bool" where
  "in_zone t n p \<longleftrightarrow> 2 ^ n dvd p \<and> p + 2 ^ n \<le> 2 ^ t"

text \<open>The first page of the pair a block belongs to, and the other block of the pair.\<close>

definition pair_base :: "nat \<Rightarrow> nat \<Rightarrow> nat" where
  "pair_base n p = p div 2 ^ (n + 1) * 2 ^ (n + 1)"

definition buddy :: "nat \<Rightarrow> nat \<Rightarrow> nat" where
  "buddy n p = (if p = pair_base n p then pair_base n p + 2 ^ n else pair_base n p)"

definition buddies_ok :: "nat \<Rightarrow> (nat \<Rightarrow> nat list) \<Rightarrow> bool" where
  "buddies_ok t fl \<longleftrightarrow>
     (\<forall>n. distinct (fl n)) \<and>
     (\<forall>n. \<forall>p \<in> set (fl n). in_zone t n p \<and> buddy n p \<notin> set (fl n)) \<and>
     (\<forall>n m. \<forall>p \<in> set (fl n). \<forall>q \<in> set (fl m). block n p \<inter> block m q \<noteq> {} \<longrightarrow> n = m \<and> p = q)"

lemma block_nonempty [simp]: "p \<in> block n p" "block n p \<noteq> {}"
  by (auto simp: block_def)

lemma finite_block [simp]: "finite (block n p)" "card (block n p) = 2 ^ n"
  by (simp_all add: block_def)

lemma in_zone_le: "in_zone t n p \<Longrightarrow> n \<le> t"
  unfolding in_zone_def by (metis le_add2 le_trans one_less_numeral_iff power_le_imp_le_exp semiring_norm(76))

lemma in_zone_block: "in_zone t n p \<Longrightarrow> block n p \<subseteq> {..<2 ^ t}"
  by (auto simp: in_zone_def block_def)

lemma pages_in_zone: "buddies_ok t fl \<Longrightarrow> pages fl \<subseteq> {..<2 ^ t}"
  unfolding pages_def buddies_ok_def using in_zone_block by blast

lemma pages_update: "pages (fl(n := ps)) = (\<Union>m \<in> -{n}. \<Union>p \<in> set (fl m). block m p) \<union> (\<Union>p \<in> set ps. block n p)"
proof -
  have U: "(UNIV :: nat set) = insert n (- {n})" by auto
  show ?thesis unfolding pages_def U by auto
qed

lemma pages_split: "pages fl = (\<Union>m \<in> -{n}. \<Union>p \<in> set (fl m). block m p) \<union> (\<Union>p \<in> set (fl n). block n p)"
  using pages_update [of fl n "fl n"] by simp

text \<open>The two blocks of a pair.\<close>

lemma aligned_cases:
  assumes "2 ^ n dvd p"
  shows "p = pair_base n p \<or> p = pair_base n p + 2 ^ n"
proof -
  from assms obtain k where p: "p = 2 ^ n * k" by blast
  have "p div (2 ^ n * 2) = k div 2" unfolding p div_mult2_eq by simp
  then have "p div 2 ^ (n + 1) = k div 2" by (simp add: mult.commute)
  then have b: "pair_base n p = 2 ^ n * (k div 2 * 2)" by (simp add: pair_base_def)
  show ?thesis
  proof (cases "even k")
    case True
    then have "k div 2 * 2 = k" by simp
    with b p show ?thesis by simp
  next
    case False
    then have "k = k div 2 * 2 + 1" by (metis mod_div_mult_eq odd_iff_mod_2_eq_one add.commute)
    then have "p = 2 ^ n * (k div 2 * 2) + 2 ^ n" using p by (metis mult_Suc_right add.commute Suc_eq_plus1)
    with b show ?thesis by simp
  qed
qed

lemma pair_base_dvd [simp]: "2 ^ (n + 1) dvd pair_base n p"
  by (simp add: pair_base_def)

lemma buddy_props:
  assumes "2 ^ n dvd p"
  shows "2 ^ n dvd buddy n p" "buddy n p \<noteq> p" "buddy n (buddy n p) = p"
    "pair_base n (buddy n p) = pair_base n p"
    "block (n + 1) (pair_base n p) = block n p \<union> block n (buddy n p)" "block n p \<inter> block n (buddy n p) = {}"
proof -
  define b where "b = pair_base n p"
  have d: "2 ^ n dvd b" by (simp add: b_def pair_base_def)
  have pb: "pair_base n (b + 2 ^ n) = b" "pair_base n b = b" by (simp_all add: b_def pair_base_def)
  have bl: "block (n + 1) b = block n b \<union> block n (b + 2 ^ n)" "block n b \<inter> block n (b + 2 ^ n) = {}"
    by (auto simp: block_def)
  have bu: "buddy n b = b + 2 ^ n" "buddy n (b + 2 ^ n) = b" by (simp_all add: buddy_def pb)
  from aligned_cases [OF assms] have "p = b \<or> p = b + 2 ^ n" by (simp add: b_def)
  then have "2 ^ n dvd buddy n p \<and> buddy n p \<noteq> p \<and> buddy n (buddy n p) = p \<and> pair_base n (buddy n p) = b \<and>
      block (n + 1) b = block n p \<union> block n (buddy n p) \<and> block n p \<inter> block n (buddy n p) = {}"
    using d pb bl bu by auto
  then show "2 ^ n dvd buddy n p" "buddy n p \<noteq> p" "buddy n (buddy n p) = p" "pair_base n (buddy n p) = pair_base n p"
    "block (n + 1) (pair_base n p) = block n p \<union> block n (buddy n p)" "block n p \<inter> block n (buddy n p) = {}"
    by (simp_all add: b_def)
qed

lemma mem_block: "2 ^ n dvd p \<Longrightarrow> x \<in> block n p \<longleftrightarrow> x div 2 ^ n = p div 2 ^ n"
  using dividend_less_times_div [of "2 ^ n" x]
  unfolding block_def by (auto elim!: dvdE simp: div_nat_eqI add.commute)

lemma block_nested:
  assumes "n \<le> m" "2 ^ n dvd p" "2 ^ m dvd q" "x \<in> block n p" "x \<in> block m q"
  shows "block n p \<subseteq> block m q"
proof
  fix y assume y: "y \<in> block n p"
  obtain d where d: "m = n + d" using assms(1) by (metis le_iff_add)
  have "y div 2 ^ n = x div 2 ^ n" using y assms by (simp add: mem_block)
  then have "y div 2 ^ m = x div 2 ^ m" unfolding d power_add by (simp add: div_mult2_eq)
  with assms show "y \<in> block m q" by (simp add: mem_block)
qed

lemma block_subset_eq: "block n p \<subseteq> block n q \<Longrightarrow> p = q"
  by (auto simp: block_def atLeastLessThan_subset_iff)

lemma in_zone_halves:
  assumes "in_zone t (Suc n) p"
  shows "in_zone t n p" "in_zone t n (p + 2 ^ n)" "block (Suc n) p = block n p \<union> block n (p + 2 ^ n)"
    "block n p \<inter> block n (p + 2 ^ n) = {}" "buddy n p = p + 2 ^ n"
proof -
  have d: "2 ^ n dvd p" using assms by (auto simp: in_zone_def intro: dvd_trans [OF le_imp_power_dvd])
  with assms show "in_zone t n p" "in_zone t n (p + 2 ^ n)" by (auto simp: in_zone_def)
  show "block (Suc n) p = block n p \<union> block n (p + 2 ^ n)" "block n p \<inter> block n (p + 2 ^ n) = {}"
    by (auto simp: block_def)
  have "pair_base n p = p" using assms by (simp add: pair_base_def in_zone_def)
  then show "buddy n p = p + 2 ^ n" by (simp add: buddy_def)
qed

section \<open>Adding and removing a block\<close>

lemma buddies_ok_block:
  assumes "buddies_ok t fl" "p \<in> set (fl n)"
  shows "in_zone t n p" "buddy n p \<notin> set (fl n)" "block n p \<subseteq> pages fl"
  using assms by (auto simp: buddies_ok_def pages_def)

lemma buddies_ok_overlap:
  "buddies_ok t fl \<Longrightarrow> p \<in> set (fl n) \<Longrightarrow> q \<in> set (fl m) \<Longrightarrow> x \<in> block n p \<Longrightarrow> x \<in> block m q \<Longrightarrow> n = m \<and> p = q"
  unfolding buddies_ok_def by blast

lemma buddies_ok_remove:
  assumes ok: "buddies_ok t fl" and p: "p \<in> set (fl n)"
  shows "buddies_ok t (fl(n := remove1 p (fl n)))" "pages (fl(n := remove1 p (fl n))) = pages fl - block n p"
proof -
  let ?fl = "fl(n := remove1 p (fl n))"
  have dist: "distinct (fl m)" for m using ok by (simp add: buddies_ok_def)
  have sub: "set (?fl m) \<subseteq> set (fl m)" for m using dist by (auto simp: set_remove1_eq)
  have out: "q \<in> set (?fl m) \<longleftrightarrow> q \<in> set (fl m) \<and> \<not> (m = n \<and> q = p)" for m q
    using dist by (auto simp: set_remove1_eq)
  show "buddies_ok t ?fl"
    unfolding buddies_ok_def
  proof (intro conjI allI ballI impI)
    show "distinct (?fl m)" for m using dist by auto
    show "in_zone t m q" "buddy m q \<notin> set (?fl m)" if "q \<in> set (?fl m)" for m q
      using buddies_ok_block [OF ok] sub that by blast+
    show "m = k" "q = r" if "q \<in> set (?fl m)" "r \<in> set (?fl k)" "block m q \<inter> block k r \<noteq> {}" for m k q r
      using ok sub that unfolding buddies_ok_def by blast+
  qed
  show "pages ?fl = pages fl - block n p"
  proof (intro set_eqI iffI)
    fix x assume "x \<in> pages ?fl"
    then obtain m q where q: "q \<in> set (?fl m)" "x \<in> block m q" by (auto simp: pages_def)
    then have "x \<notin> block n p" using buddies_ok_overlap [OF ok p, of q m x] out [of q m] by auto
    with q sub show "x \<in> pages fl - block n p" by (auto simp: pages_def)
  next
    fix x assume "x \<in> pages fl - block n p"
    then obtain m q where "q \<in> set (fl m)" "x \<in> block m q" "x \<notin> block n p" by (auto simp: pages_def)
    then have "q \<in> set (?fl m)" using out by auto
    with \<open>x \<in> block m q\<close> show "x \<in> pages ?fl" unfolding pages_def by blast
  qed
qed

lemma buddies_ok_insert:
  assumes ok: "buddies_ok t fl" and p: "in_zone t n p" "block n p \<inter> pages fl = {}" "buddy n p \<notin> set (fl n)"
  shows "buddies_ok t (fl(n := p # fl n))" "pages (fl(n := p # fl n)) = pages fl \<union> block n p"
proof -
  let ?fl = "fl(n := p # fl n)"
  show "pages ?fl = pages fl \<union> block n p"
    unfolding pages_update pages_split [of fl n] by auto
  have out: "q \<in> set (?fl m) \<longleftrightarrow> q \<in> set (fl m) \<or> m = n \<and> q = p" for m q by auto
  have sep: "block n p \<inter> block m q = {}" if "q \<in> set (fl m)" for m q
    using buddies_ok_block(3) [OF ok that] p(2) by blast
  have new: "p \<notin> set (fl n)" using sep [of p n] by auto
  show "buddies_ok t ?fl"
    unfolding buddies_ok_def
  proof (intro conjI allI ballI impI)
    show "distinct (?fl m)" for m using new ok by (auto simp: buddies_ok_def)
    show "in_zone t m q" if "q \<in> set (?fl m)" for m q
      using that buddies_ok_block(1) [OF ok] p(1) out by blast
    show "buddy m q \<notin> set (?fl m)" if q: "q \<in> set (?fl m)" for m q
    proof (cases "m = n")
      case True
      have al: "2 ^ n dvd p" using p(1) by (simp add: in_zone_def)
      show ?thesis
      proof (cases "q = p")
        case False
        with q True have qf: "q \<in> set (fl n)" by simp
        then have aq: "2 ^ n dvd q" using buddies_ok_block(1) [OF ok] by (auto simp: in_zone_def)
        have "buddy n q \<noteq> p" using buddy_props(3) [OF aq] qf p(3) by auto
        with True buddies_ok_block(2) [OF ok qf] show ?thesis by simp
      qed (use True p(3) buddy_props(2) [OF al] in auto)
    qed (use q buddies_ok_block(2) [OF ok] in auto)
    show "m = k" "q = r" if "q \<in> set (?fl m)" "r \<in> set (?fl k)" "block m q \<inter> block k r \<noteq> {}" for m k q r
      using that sep ok unfolding out buddies_ok_def by (metis Int_commute)+
  qed
qed

section \<open>Taking and giving back blocks\<close>

function take_block :: "(nat \<Rightarrow> nat list) \<Rightarrow> nat \<Rightarrow> nat \<Rightarrow> (nat \<times> (nat \<Rightarrow> nat list)) option" where
  "take_block fl mx n =
     (if n > mx then None
      else (case fl n of
              p # ps \<Rightarrow> Some (p, fl(n := ps))
            | [] \<Rightarrow> (case take_block fl mx (n + 1) of
                      None \<Rightarrow> None
                    | Some (p, fl') \<Rightarrow> Some (p + 2 ^ n, fl'(n := [p])))))"
  by pat_completeness auto
termination
  by (relation "measure (\<lambda>(fl, mx, n). Suc mx - n)") auto

function give_block :: "(nat \<Rightarrow> nat list) \<Rightarrow> nat \<Rightarrow> nat \<Rightarrow> nat \<Rightarrow> (nat \<Rightarrow> nat list)" where
  "give_block fl mx p n =
     (if n \<le> mx \<and> buddy n p \<in> set (fl n)
      then give_block (fl(n := remove1 (buddy n p) (fl n))) mx (pair_base n p) (n + 1)
      else fl(n := p # fl n))"
  by pat_completeness auto
termination
  by (relation "measure (\<lambda>(fl, mx, p, n). Suc mx - n)") auto

declare take_block.simps [simp del] give_block.simps [simp del]

lemma take_block_low: "take_block fl mx n = Some (p, fl') \<Longrightarrow> m < n \<Longrightarrow> fl' m = fl m"
proof (induction fl mx n arbitrary: p fl' rule: take_block.induct)
  case (1 fl mx n)
  from "1.prems" show ?case
    using "1.IH" by (auto simp: take_block.simps [of fl mx n] split: if_splits list.splits option.splits)
qed

lemma take_block_Some:
  "buddies_ok t fl \<Longrightarrow> take_block fl mx n = Some (p, fl') \<Longrightarrow>
     buddies_ok t fl' \<and> in_zone t n p \<and> block n p \<subseteq> pages fl \<and> pages fl' = pages fl - block n p"
proof (induction fl mx n arbitrary: p fl' rule: take_block.induct)
  case (1 fl mx n)
  from "1.prems"(2) have n: "n \<le> mx" by (auto simp: take_block.simps [of fl mx n] split: if_splits)
  show ?case
  proof (cases "fl n")
    case (Cons q qs)
    with "1.prems"(2) n have "p = q" "fl' = fl(n := remove1 q (fl n))" by (auto simp: take_block.simps [of fl mx n])
    with Cons buddies_ok_remove [OF "1.prems"(1), of q n] buddies_ok_block [OF "1.prems"(1), of q n] show ?thesis
      by (simp add: fun_upd_def)
  next
    case Nil
    with "1.prems"(2) n obtain q fl1 where q: "take_block fl mx (n + 1) = Some (q, fl1)" "p = q + 2 ^ n" "fl' = fl1(n := [q])"
      by (auto simp: take_block.simps [of fl mx n] split: option.splits)
    with "1.IH" [of q fl1] Nil n "1.prems"(1) have ih: "buddies_ok t fl1" "in_zone t (n + 1) q"
        "block (n + 1) q \<subseteq> pages fl" "pages fl1 = pages fl - block (n + 1) q" by auto
    have low: "fl1 n = []" using take_block_low [OF q(1), of n] Nil by simp
    note half = in_zone_halves [of t n q, unfolded Suc_eq_plus1, OF ih(2), folded q(2)]
    note zq = half(1) and zp = half(2) and two = half(3,4)
    have "block n q \<inter> pages fl1 = {}" using ih(4) two by blast
    from buddies_ok_insert [OF ih(1) zq this] low have "buddies_ok t fl'" "pages fl' = pages fl1 \<union> block n q"
      by (auto simp: q(3))
    with zp ih two show ?thesis by blast
  qed
qed

lemma take_block_None: "take_block fl mx n = None \<longleftrightarrow> (\<forall>m. n \<le> m \<and> m \<le> mx \<longrightarrow> fl m = [])"
proof (induction fl mx n rule: take_block.induct)
  case (1 fl mx n)
  show ?case
  proof (cases "n > mx")
    case False
    have split: "(\<forall>m. n \<le> m \<and> m \<le> mx \<longrightarrow> fl m = []) \<longleftrightarrow> fl n = [] \<and> (\<forall>m. n + 1 \<le> m \<and> m \<le> mx \<longrightarrow> fl m = [])"
      using False by (metis Suc_eq_plus1 Suc_leD leI le_antisym not_less_eq_eq)
    with False 1 show ?thesis
      by (auto simp: take_block.simps [of fl mx n] split: list.splits option.splits)
  qed (auto simp: take_block.simps [of fl mx n])
qed

text \<open>Free buddies are always merged, so an aligned run of free pages lies inside one free block.\<close>

lemma coalesced:
  assumes ok: "buddies_ok t fl" and "in_zone t n p" "block n p \<subseteq> pages fl"
  shows "\<exists>m q. n \<le> m \<and> q \<in> set (fl m) \<and> block n p \<subseteq> block m q"
  using assms(2,3)
proof (induction n arbitrary: p)
  case 0
  then have "p \<in> pages fl" by auto
  then obtain m q where "q \<in> set (fl m)" "p \<in> block m q" by (auto simp: pages_def)
  then show ?case by (intro exI [of _ m] exI [of _ q]) (auto simp: block_def)
next
  case (Suc n)
  note half = in_zone_halves [OF Suc.prems(1)]
  have inside: "\<exists>m q. Suc n \<le> m \<and> q \<in> set (fl m) \<and> block (Suc n) p \<subseteq> block m q"
    if "n < m" "q \<in> set (fl m)" "x \<in> block m q" "x \<in> block (Suc n) p" for m q x
    using that block_nested [of "Suc n" m p q x] buddies_ok_block(1) [OF ok that(2)] Suc.prems(1)
    by (auto simp: in_zone_def Suc_le_eq)
  obtain m q where q: "n \<le> m" "q \<in> set (fl m)" "block n p \<subseteq> block m q"
    using Suc.IH [OF half(1)] Suc.prems(2) half(3) by blast
  obtain m' q' where q': "n \<le> m'" "q' \<in> set (fl m')" "block n (p + 2 ^ n) \<subseteq> block m' q'"
    using Suc.IH [OF half(2)] Suc.prems(2) half(3) by blast
  have "m \<noteq> n \<or> m' \<noteq> n"
  proof (rule ccontr)
    assume "\<not> ?thesis"
    then have "m = n" "m' = n" by simp_all
    with q q' have "p = q" "p + 2 ^ n = q'" by (auto dest: block_subset_eq)
    with q(2) q'(2) \<open>m = n\<close> \<open>m' = n\<close> half(5) buddies_ok_block(2) [OF ok q(2)] show False by simp
  qed
  with q q' inside [of m q p] inside [of m' q' "p + 2 ^ n"] half(3) show ?case
    by (metis Un_iff block_nonempty(1) le_neq_implies_less subsetD)
qed

lemma merge_in_zone:
  assumes ok: "buddies_ok t fl" and p: "in_zone t n p" "block n p \<inter> pages fl = {}" and bud: "buddy n p \<in> set (fl n)"
  shows "in_zone t (n + 1) (pair_base n p)"
    "block (n + 1) (pair_base n p) \<inter> pages (fl(n := remove1 (buddy n p) (fl n))) = {}"
    "pages (fl(n := remove1 (buddy n p) (fl n))) \<union> block (n + 1) (pair_base n p) = pages fl \<union> block n p"
proof -
  have al: "2 ^ n dvd p" using p(1) by (simp add: in_zone_def)
  note rm = buddies_ok_remove [OF ok bud] and bp = buddy_props [OF al]
  have zb: "in_zone t n (buddy n p)" by (rule buddies_ok_block(1) [OF ok bud])
  have "block (n + 1) (pair_base n p) \<subseteq> {..<2 ^ t}"
    unfolding bp(5) using in_zone_block [OF zb] in_zone_block [OF p(1)] by blast
  then have "pair_base n p + 2 ^ (n + 1) \<le> 2 ^ t"
    unfolding block_def lessThan_atLeast0 by (auto dest: atLeastLessThan_subset_iff)
  then show "in_zone t (n + 1) (pair_base n p)" unfolding in_zone_def by (intro conjI pair_base_dvd)
  show "block (n + 1) (pair_base n p) \<inter> pages (fl(n := remove1 (buddy n p) (fl n))) = {}"
    unfolding bp(5) rm(2) using p(2) by blast
  show "pages (fl(n := remove1 (buddy n p) (fl n))) \<union> block (n + 1) (pair_base n p) = pages fl \<union> block n p"
    unfolding bp(5) rm(2) using buddies_ok_block(3) [OF ok bud] by blast
qed

lemma give_block_ok:
  "buddies_ok t fl \<Longrightarrow> t \<le> mx \<Longrightarrow> in_zone t n p \<Longrightarrow> block n p \<inter> pages fl = {} \<Longrightarrow>
     buddies_ok t (give_block fl mx p n) \<and> pages (give_block fl mx p n) = pages fl \<union> block n p"
proof (induction fl mx p n rule: give_block.induct)
  case (1 fl mx p n)
  have n: "n \<le> mx" using in_zone_le [OF "1.prems"(3)] "1.prems"(2) by simp
  show ?case
  proof (cases "buddy n p \<in> set (fl n)")
    case True
    note m = merge_in_zone [OF "1.prems"(1,3,4) True]
    from "1.IH" [OF _ buddies_ok_remove(1) [OF "1.prems"(1) True] "1.prems"(2) m(1,2)] True n m(3) show ?thesis
      by (simp add: give_block.simps [of fl mx p n] fun_upd_def)
  next
    case False
    then show ?thesis
      using buddies_ok_insert [OF "1.prems"(1,3,4)] by (simp add: give_block.simps [of fl mx p n] fun_upd_def)
  qed
qed

end
