(* ===== verification/Physical_Zone_Facts.thy ===== *)
theory Physical_Zone_Facts
  imports Physical_Zone Buddy Block_Allocator
begin

text \<open>
  The physical zone against the abstract buddy system. First the doubly linked lists through the page
  entries, then the relation \<^verbatim>\<open>zone_rel z t fl\<close> between a zone of \<open>2 ^ t\<close> pages and the lists of its free
  blocks, and the simulation: allocation and deallocation never fail a check and do to the lists what
  \<^verbatim>\<open>take_block\<close> and \<^verbatim>\<open>give_block\<close> do.
\<close>

section \<open>Page entries\<close>

lemma page_of_chunk [simp]: "nat (2 * int p) * ZONE_CHUNK_SIZE div PAGE_SIZE = p"
  by (simp add: ZONE_CHUNK_SIZE_def)

lemma chunk_not_nil [simp]: "2 * int p \<noteq> -1" "-1 \<noteq> 2 * int p"
  by presburger+

lemma get_entry_page [simp]:
  "p < length (m_entries z) \<Longrightarrow> get_freelist_entry z (2 * int p) = Inr (m_entries z ! p)"
  by (simp add: get_freelist_entry_def)

lemma modify_entry_page [simp]:
  "p < length (m_entries z) \<Longrightarrow>
     modify_freelist_entry z (2 * int p) f = Inr (z\<lparr>m_entries := (m_entries z)[p := f (m_entries z ! p)]\<rparr>)"
  by (simp add: modify_freelist_entry_def)

section \<open>Doubly linked lists\<close>

text \<open>\<^verbatim>\<open>dseg E a h ps b n\<close>: from head \<open>h\<close>, whose predecessor is \<open>a\<close>, the entries link the pages \<open>ps\<close>; the
  last of them is \<open>b\<close> and its successor is \<open>n\<close>.\<close>

fun dseg :: "freelist_entry list \<Rightarrow> int \<Rightarrow> int \<Rightarrow> nat list \<Rightarrow> int \<Rightarrow> int \<Rightarrow> bool" where
  "dseg E a h [] b n \<longleftrightarrow> a = b \<and> h = n"
| "dseg E a h (p # ps) b n \<longleftrightarrow>
     h = 2 * int p \<and> p < length E \<and> prev_index (E ! p) = a \<and> dseg E (2 * int p) (next_index (E ! p)) ps b n"

definition dll :: "freelist_entry list \<Rightarrow> int \<Rightarrow> nat list \<Rightarrow> bool" where
  "dll E h ps \<longleftrightarrow> (\<exists>b. dseg E (-1) h ps b (-1))"

lemma dseg_append: "dseg E a h (ps @ qs) b n \<longleftrightarrow> (\<exists>c m. dseg E a h ps c m \<and> dseg E c m qs b n)"
  by (induction ps arbitrary: a h) auto

lemma dseg_cong:
  "(\<And>p. p \<in> set ps \<Longrightarrow> E' ! p = E ! p) \<Longrightarrow> length E' = length E \<Longrightarrow> dseg E' a h ps b n = dseg E a h ps b n"
  by (induction ps arbitrary: a h) auto

lemma dseg_pages: "dseg E a h ps b n \<Longrightarrow> p \<in> set ps \<Longrightarrow> p < length E"
  by (induction ps arbitrary: a h) auto

lemma dseg_set_next:
  assumes "dseg E a h (ps @ [q]) b n" "distinct (ps @ [q])"
  shows "dseg (E[q := (E ! q)\<lparr>next_index := m\<rparr>]) a h (ps @ [q]) b m"
proof -
  let ?E = "E[q := (E ! q)\<lparr>next_index := m\<rparr>]"
  have "dseg ?E a h ps c k = dseg E a h ps c k" for c k
    using assms(2) by (intro dseg_cong nth_list_update_neq) auto
  with assms(1) show ?thesis by (auto simp: dseg_append)
qed

lemma dseg_set_prev:
  assumes "dseg E a h (q # ps) b n" "distinct (q # ps)"
  shows "dseg (E[q := (E ! q)\<lparr>prev_index := c\<rparr>]) c h (q # ps) b n"
proof -
  let ?E = "E[q := (E ! q)\<lparr>prev_index := c\<rparr>]"
  have "dseg ?E d k ps b n = dseg E d k ps b n" for d k
    using assms(2) by (intro dseg_cong nth_list_update_neq) auto
  with assms(1) show ?thesis by simp
qed

lemma dseg_head: "dseg E a h ps b n \<Longrightarrow> h = (if ps = [] then n else 2 * int (hd ps))"
  by (cases ps) auto

lemma dseg_last: "dseg E a h ps b n \<Longrightarrow> b = (if ps = [] then a else 2 * int (last ps))"
  by (induction ps arbitrary: a h) auto

lemma dll_Nil [simp]: "dll E h [] \<longleftrightarrow> h = -1"
  by (auto simp: dll_def)

lemma dll_empty_iff: "dll E h ps \<Longrightarrow> h = -1 \<longleftrightarrow> ps = []"
  by (cases ps) (auto simp: dll_def)

lemma dll_cong:
  "(\<And>p. p \<in> set ps \<Longrightarrow> E' ! p = E ! p) \<Longrightarrow> length E' = length E \<Longrightarrow> dll E' h ps = dll E h ps"
  unfolding dll_def by (intro ex_cong1 dseg_cong)

lemma dll_pages: "dll E h ps \<Longrightarrow> p \<in> set ps \<Longrightarrow> p < length E"
  by (auto simp: dll_def dest: dseg_pages)

text \<open>Pushing, popping and unlinking, as the code does them.\<close>

lemma dll_push:
  assumes "dll E h ps" "distinct (p # ps)" "p < length E"
  defines "E1 \<equiv> (if h \<noteq> -1 then E[hd ps := (E ! hd ps)\<lparr>prev_index := 2 * int p\<rparr>] else E)"
  shows "dll (E1[p := e\<lparr>next_index := h, prev_index := -1\<rparr>]) (2 * int p) (p # ps)"
proof (cases ps)
  case Nil
  with assms show ?thesis by (auto simp: dll_def)
next
  case (Cons q qs)
  with assms(1) have h: "h = 2 * int q" by (auto simp: dll_def)
  from assms(1) obtain b where "dseg E (-1) h (q # qs) b (-1)" by (auto simp: dll_def Cons)
  then have "dseg E1 (2 * int p) h (q # qs) b (-1)"
    using dseg_set_prev assms(2) h unfolding E1_def Cons by simp
  then have "dseg (E1[p := e\<lparr>next_index := h, prev_index := -1\<rparr>]) (2 * int p) h (q # qs) b (-1)"
    using assms(2) by (subst dseg_cong [where E = E1]) (auto simp: Cons intro!: nth_list_update_neq)
  moreover have "length E1 = length E" by (simp add: E1_def)
  ultimately show ?thesis using assms(3) by (auto simp: dll_def Cons)
qed

lemma dll_pop:
  assumes "dll E h (p # ps)" "distinct (p # ps)"
  shows "h = 2 * int p" "p < length E" "next_index (E ! p) = (if ps = [] then -1 else 2 * int (hd ps))"
    "dll (if ps = [] then E else E[hd ps := (E ! hd ps)\<lparr>prev_index := -1\<rparr>]) (next_index (E ! p)) ps"
proof -
  from assms(1) obtain b where b: "h = 2 * int p" "p < length E" "dseg E (2 * int p) (next_index (E ! p)) ps b (-1)"
    by (auto simp: dll_def)
  show "h = 2 * int p" "p < length E" by fact+
  show "next_index (E ! p) = (if ps = [] then -1 else 2 * int (hd ps))" using dseg_head [OF b(3)] .
  show "dll (if ps = [] then E else E[hd ps := (E ! hd ps)\<lparr>prev_index := -1\<rparr>]) (next_index (E ! p)) ps"
  proof (cases ps)
    case (Cons q qs)
    then show ?thesis using dseg_set_prev [of E "2 * int p" _ q qs b "-1" "-1"] b(3) assms(2) by (auto simp: dll_def)
  qed (use b(3) in simp)
qed

lemma dseg_unlink:
  assumes d: "dseg E (-1) h xs a (2 * int p)" "dseg E (2 * int p) n ys b (-1)"
    and dist: "distinct (xs @ p # ys)"
  defines "E1 \<equiv> (if xs = [] then E else E[last xs := (E ! last xs)\<lparr>next_index := n\<rparr>])"
  defines "E2 \<equiv> (if ys = [] then E1 else E1[hd ys := (E1 ! hd ys)\<lparr>prev_index := a\<rparr>])"
  shows "dll E2 (if xs = [] then n else h) (xs @ ys)"
proof -
  have len: "length E1 = length E" "length E2 = length E" by (auto simp: E1_def E2_def)
  have out: "xs \<noteq> [] \<Longrightarrow> last xs \<notin> set ys" "ys \<noteq> [] \<Longrightarrow> hd ys \<notin> set xs"
    using dist last_in_set [of xs] list.set_sel(1) [of ys] by (auto simp: disjoint_iff)
  have d1: "dseg E1 (-1) (if xs = [] then n else h) xs a n"
  proof (cases xs rule: rev_cases)
    case (snoc zs q)
    then show ?thesis using dseg_set_next [of E "-1" h zs q a "2 * int p" n] d(1) dist by (simp add: E1_def)
  qed (use d(1) in \<open>simp add: E1_def\<close>)
  have e1: "E1 ! r = E ! r" if "r \<in> set ys" for r
    using that out by (auto simp: E1_def intro!: nth_list_update_neq)
  have d2: "dseg E1 (2 * int p) n ys b (-1)"
    using d(2) dseg_cong [of ys E1 E] e1 len by blast
  have d3: "\<exists>b. dseg E2 a n ys b (-1)"
  proof (cases ys)
    case (Cons q zs)
    then show ?thesis using dseg_set_prev [of E1 "2 * int p" n q zs b "-1" a] d2 dist by (auto simp: E2_def)
  qed (use d2 in \<open>auto simp: E2_def\<close>)
  have "dseg E2 (-1) (if xs = [] then n else h) xs a n = dseg E1 (-1) (if xs = [] then n else h) xs a n"
    using out len by (intro dseg_cong) (auto simp: E2_def intro!: nth_list_update_neq)
  with d1 d3 show ?thesis unfolding dll_def dseg_append by blast
qed

lemma remove_from_freelist_ok:
  assumes d: "dll (m_entries z) (freelist b) ps" and dist: "distinct ps" and p: "p \<in> set ps"
  obtains E h where "remove_from_freelist z b (2 * int p) = Inr (b\<lparr>freelist := h\<rparr>, z\<lparr>m_entries := E\<rparr>)"
    "dll E h (remove1 p ps)" "length E = length (m_entries z)" "\<And>r. r \<notin> set ps \<Longrightarrow> E ! r = m_entries z ! r"
proof -
  let ?E = "m_entries z" and ?h = "freelist b"
  from p obtain xs ys where ps: "ps = xs @ p # ys" and new: "p \<notin> set xs" by (metis split_list_first)
  with dist have new': "p \<notin> set ys" and dd: "distinct (xs @ p # ys)" by simp_all
  from d obtain a n e where seg: "dseg ?E (-1) ?h xs a (2 * int p)" "dseg ?E (2 * int p) n ys e (-1)"
    and pl: "p < length ?E" "prev_index (?E ! p) = a" "next_index (?E ! p) = n"
    by (auto simp: dll_def ps dseg_append)
  define E1 where "E1 = (if xs = [] then ?E else ?E[last xs := (?E ! last xs)\<lparr>next_index := n\<rparr>])"
  define E2 where "E2 = (if ys = [] then E1 else E1[hd ys := (E1 ! hd ys)\<lparr>prev_index := a\<rparr>])"
  define E3 where "E3 = E2[p := (E2 ! p)\<lparr>next_index := -1, prev_index := -1\<rparr>]"
  let ?h' = "if xs = [] then n else ?h"
  have a: "a = (if xs = [] then -1 else 2 * int (last xs))" using dseg_last [OF seg(1)] .
  have n: "n = (if ys = [] then -1 else 2 * int (hd ys))" using dseg_head [OF seg(2)] .
  have h: "?h = (if xs = [] then 2 * int p else 2 * int (hd xs))" using dseg_head [OF seg(1)] by simp
  have hp: "?h = 2 * int p \<longleftrightarrow> xs = []" using h new by (cases xs) auto
  have len: "length E1 = length ?E" "length E2 = length ?E" by (simp_all add: E1_def E2_def)
  have lx: "xs \<noteq> [] \<Longrightarrow> last xs < length ?E" using dseg_pages [OF seg(1)] by simp
  have ly: "ys \<noteq> [] \<Longrightarrow> hd ys < length ?E" using dseg_pages [OF seg(2)] by simp
  have px: "xs \<noteq> [] \<Longrightarrow> last xs \<noteq> p" "ys \<noteq> [] \<Longrightarrow> hd ys \<noteq> p" using new new' by auto
  have E1p: "E1 ! p = ?E ! p" and E2p: "E2 ! p = ?E ! p" using px by (auto simp: E1_def E2_def)
  have s1: "modify_linked z a (\<lambda>p. p\<lparr>next_index := n\<rparr>) = Inr (z\<lparr>m_entries := E1\<rparr>)"
    using a lx by (simp add: E1_def modify_linked_def)
  have s2: "modify_linked (z\<lparr>m_entries := E1\<rparr>) n (\<lambda>p. p\<lparr>prev_index := a\<rparr>) = Inr (z\<lparr>m_entries := E2\<rparr>)"
    using n ly len by (simp add: E2_def modify_linked_def)
  have "a \<ge> -1" "n \<ge> -1" using a n by simp_all
  then have "remove_from_freelist z b (2 * int p) = Inr (b\<lparr>freelist := ?h'\<rparr>, z\<lparr>m_entries := E3\<rparr>)"
    using pl len s1 s2 hp unfolding remove_from_freelist_def
    by (simp add: E1p E2p E3_def)
  moreover have "dll E3 ?h' (xs @ ys)"
    using dseg_unlink [OF seg dd] new new' len
    by (subst dll_cong [of _ _ E2]) (auto simp: E3_def E2_def E1_def intro!: nth_list_update_neq)
  moreover have "remove1 p ps = xs @ ys" using new by (simp add: ps remove1_append)
  moreover have "E3 ! r = ?E ! r" if "r \<notin> set ps" for r
  proof -
    have "xs \<noteq> [] \<Longrightarrow> r \<noteq> last xs" "ys \<noteq> [] \<Longrightarrow> r \<noteq> hd ys" "r \<noteq> p"
      using that last_in_set [of xs] list.set_sel(1) [of ys] by (auto simp: ps)
    then show ?thesis by (auto simp: E3_def E2_def E1_def)
  qed
  moreover have "length E3 = length ?E" by (simp add: E3_def len)
  ultimately show thesis using that [of ?h' E3] by simp
qed

section \<open>The zone and its free lists\<close>

definition nbits :: "nat \<Rightarrow> nat \<Rightarrow> nat" where
  "nbits t n = (2 ^ (t - n) + 1) div 2"

text \<open>The bit of a pair is set when one of its two blocks is in the free list.\<close>

definition bits_rel :: "nat \<Rightarrow> nat \<Rightarrow> bitmap \<Rightarrow> nat list \<Rightarrow> bool" where
  "bits_rel t n bm ps \<longleftrightarrow> bitmap_wf bm \<and> m_size bm = nbits t n \<and>
     (\<forall>q < nbits t n. tst bm q = (\<exists>p \<in> set ps. p div 2 ^ (n + 1) = q))"

definition bucket_rel :: "freelist_entry list \<Rightarrow> nat \<Rightarrow> nat \<Rightarrow> buddy_bucket \<Rightarrow> nat list \<Rightarrow> bool" where
  "bucket_rel E t n b ps \<longleftrightarrow> order b = n \<and> dll E (freelist b) ps \<and> (n \<le> t \<longrightarrow> bits_rel t n (buddy_bitmap b) ps)"

definition zone_rel :: "zone \<Rightarrow> nat \<Rightarrow> (nat \<Rightarrow> nat list) \<Rightarrow> bool" where
  "zone_rel z t fl \<longleftrightarrow> t \<le> max_order \<and> m_page_count z = 2 ^ t \<and> length (m_entries z) = 2 ^ t \<and>
     length (m_buckets z) = Suc max_order \<and>
     (\<forall>n \<le> max_order. bucket_rel (m_entries z) t n (m_buckets z ! n) (fl n)) \<and> buddies_ok t fl"

definition same_header :: "zone \<Rightarrow> zone \<Rightarrow> bool" where
  "same_header z z' \<longleftrightarrow> m_base_address z' = m_base_address z \<and> m_page_count z' = m_page_count z \<and>
     m_used_chunks z' = m_used_chunks z"

lemma same_header_refl [simp]: "same_header z z"
  and same_header_put [simp]: "same_header z (put_bucket z' n b) = same_header z z'"
  and same_header_entries [simp]: "same_header z (z'\<lparr>m_entries := E\<rparr>) = same_header z z'"
  by (simp_all add: same_header_def put_bucket_def)

lemma get_bucket_entries [simp]: "get_bucket (z\<lparr>m_entries := E\<rparr>) n = get_bucket z n"
  by (simp add: get_bucket_def)

lemma same_header_trans: "same_header a b \<Longrightarrow> same_header b c \<Longrightarrow> same_header a c"
  by (simp add: same_header_def)

text \<open>Where the bit of a block is.\<close>

lemma pair_in_bits:
  assumes "in_zone t n p"
  shows "p div 2 ^ (n + 1) < nbits t n"
proof -
  obtain k where k: "p = 2 ^ n * k" using assms by (auto simp: in_zone_def)
  have "2 ^ n * (k + 1) \<le> 2 ^ n * 2 ^ (t - n)"
    using assms in_zone_le [OF assms] by (simp add: in_zone_def k flip: power_add)
  then have "k + 1 \<le> 2 ^ (t - n)" by (subst (asm) mult_le_cancel1) simp
  then have "k div 2 < nbits t n" by (auto simp: nbits_def)
  then show ?thesis by (simp add: k div_mult2_eq mult.commute [of 2])
qed

lemma in_zone_less: "in_zone t n p \<Longrightarrow> p < 2 ^ t"
  using in_zone_block [of t n p] block_nonempty(1) [of p n] by blast

lemma in_zone_small: "in_zone t n p \<Longrightarrow> t \<le> max_order \<Longrightarrow> p < 4096"
proof -
  assume "in_zone t n p" "t \<le> max_order"
  then have "p < 2 ^ t" by (simp add: in_zone_less)
  also have "(2::nat) ^ t \<le> 2 ^ 12" using \<open>t \<le> max_order\<close> by (intro power_increasing) (simp_all add: max_order_def)
  finally show ?thesis by simp
qed

lemma buddy_bit_index_page: "p < 4096 \<Longrightarrow> buddy_bit_index b (2 * int p) = p div 2 ^ (order b + 1)"
proof -
  assume p: "p < 4096"
  have "2 * int p div 2 div 2 ^ (1 + order b) = int (p div 2 ^ (order b + 1))" by (simp add: zdiv_int)
  moreover have "p div 2 ^ (order b + 1) < 2 ^ 64" by (rule le_less_trans [OF div_le_dividend]) (use p in simp)
  ultimately show ?thesis unfolding buddy_bit_index_def by (simp add: zmod_int [symmetric] flip: of_nat_mod)
qed

lemma same_pair:
  assumes "2 ^ n dvd p" "2 ^ n dvd q" "q div 2 ^ (n + 1) = p div 2 ^ (n + 1)"
  shows "q = p \<or> q = buddy n p"
proof -
  have "pair_base n q = pair_base n p" using assms(3) by (simp add: pair_base_def)
  with aligned_cases [OF assms(1)] aligned_cases [OF assms(2)] show ?thesis by (auto simp: buddy_def)
qed

lemma buddy_pair: "2 ^ n dvd p \<Longrightarrow> buddy n p div 2 ^ (n + 1) = p div 2 ^ (n + 1)"
  using buddy_props(4) [of n p] by (simp add: pair_base_def)

lemma zone_rel_bucket:
  assumes "zone_rel z t fl" "in_zone t n p"
  shows "n \<le> max_order" "n \<le> t" "get_bucket z n = Inr (m_buckets z ! n)" "order (m_buckets z ! n) = n"
    "dll (m_entries z) (freelist (m_buckets z ! n)) (fl n)"
    "bits_rel t n (buddy_bitmap (m_buckets z ! n)) (fl n)" "p < length (m_entries z)" "p < 4096"
proof -
  show nt: "n \<le> t" using in_zone_le [OF assms(2)] .
  then show mo: "n \<le> max_order" using assms(1) by (simp add: zone_rel_def)
  with assms(1) nt show "get_bucket z n = Inr (m_buckets z ! n)" "order (m_buckets z ! n) = n"
    "dll (m_entries z) (freelist (m_buckets z ! n)) (fl n)" "bits_rel t n (buddy_bitmap (m_buckets z ! n)) (fl n)"
    by (auto simp: zone_rel_def get_bucket_def bucket_rel_def)
  show "p < length (m_entries z)" using assms(1) in_zone_less [OF assms(2)] by (simp add: zone_rel_def)
  show "p < 4096" using in_zone_small [OF assms(2)] assms(1) by (simp add: zone_rel_def)
qed

lemma get_bit_rel:
  assumes "bits_rel t n (buddy_bitmap b) ps" "order b = n" "in_zone t n p" "p < 4096"
  shows "get_buddy_bit b (2 * int p) = Inr (\<exists>q \<in> set ps. q div 2 ^ (n + 1) = p div 2 ^ (n + 1))"
  using assms pair_in_bits [OF assms(3)] get_eq [of "buddy_bitmap b" "p div 2 ^ (n + 1)"]
  by (simp add: get_buddy_bit_def buddy_bit_index_page bits_rel_def)

lemma set_bit_rel:
  assumes "bits_rel t n (buddy_bitmap b) ps" "order b = n" "in_zone t n p" "p < 4096"
    and new: "\<And>q. (\<exists>r \<in> set ps'. r div 2 ^ (n + 1) = q) \<longleftrightarrow>
      (if q = p div 2 ^ (n + 1) then v else \<exists>r \<in> set ps. r div 2 ^ (n + 1) = q)"
  obtains bm where "set_buddy_bit b (2 * int p) v = Inr (b\<lparr>buddy_bitmap := bm\<rparr>)" "bits_rel t n bm ps'"
proof -
  have "p div 2 ^ (n + 1) < m_size (buddy_bitmap b)" "bitmap_wf (buddy_bitmap b)"
    using assms pair_in_bits [OF assms(3)] by (simp_all add: bits_rel_def)
  then obtain bm where bm: "set_bit_to (buddy_bitmap b) (p div 2 ^ (n + 1)) v = Inr bm" "bitmap_wf bm"
      "m_size bm = m_size (buddy_bitmap b)" "\<And>j. tst bm j = (if j = p div 2 ^ (n + 1) then v else tst (buddy_bitmap b) j)"
    by (metis set_bit_to_spec)
  show thesis
  proof (rule that)
    show "set_buddy_bit b (2 * int p) v = Inr (b\<lparr>buddy_bitmap := bm\<rparr>)"
      using bm(1) assms(2,4) by (simp add: set_buddy_bit_def buddy_bit_index_page)
    show "bits_rel t n bm ps'"
      using assms(1) bm(2-4) unfolding bits_rel_def new by simp
  qed
qed

text \<open>Replacing one bucket and entries no other list uses.\<close>

lemma zone_rel_update:
  assumes rel: "zone_rel z t fl" and n: "n \<le> max_order" and b: "bucket_rel E t n b ps"
    and E: "length E = length (m_entries z)" "\<And>m r. m \<noteq> n \<Longrightarrow> r \<in> set (fl m) \<Longrightarrow> E ! r = m_entries z ! r"
    and ok: "buddies_ok t (fl(n := ps))"
  shows "zone_rel (put_bucket (z\<lparr>m_entries := E\<rparr>) n b) t (fl(n := ps))"
proof -
  have "bucket_rel E t m (m_buckets z ! m) (fl m)" if "m \<le> max_order" "m \<noteq> n" for m
    using rel that dll_cong [of "fl m" E "m_entries z"] E by (auto simp: zone_rel_def bucket_rel_def)
  with rel n b E(1) ok show ?thesis
    by (auto simp: zone_rel_def put_bucket_def nth_list_update)
qed

lemma other_list:
  assumes "buddies_ok t fl" "m \<noteq> n" "r \<in> set (fl m)"
  shows "r \<notin> set (fl n)" "block n p \<inter> pages fl = {} \<Longrightarrow> r \<noteq> p"
proof -
  show "r \<notin> set (fl n)" using buddies_ok_overlap [OF assms(1,3), of r n r] assms(2) by auto
  show "r \<noteq> p" if "block n p \<inter> pages fl = {}"
    using that buddies_ok_block(3) [OF assms(1,3)] block_nonempty(1) [of p n] block_nonempty(1) [of r m] by blast
qed

section \<open>Pushing a block\<close>

lemma zone_push:
  assumes rel: "zone_rel z t fl" and p: "in_zone t n p" "block n p \<inter> pages fl = {}" "buddy n p \<notin> set (fl n)"
  defines "b \<equiv> m_buckets z ! n"
  obtains z' where
    "tryE (modify_linked z (freelist b) (\<lambda>e. e\<lparr>prev_index := 2 * int p\<rparr>)) (\<lambda>z.
     tryE (modify_freelist_entry z (2 * int p) (\<lambda>e. e\<lparr>next_index := freelist b, prev_index := -1\<rparr>)) (\<lambda>z.
     tryE (set_buddy_bit (b\<lparr>freelist := 2 * int p\<rparr>) (2 * int p) True) (\<lambda>b. Inr (put_bucket z n b)))) = Inr z'"
    "zone_rel z' t (fl(n := p # fl n))" "same_header z z'"
proof -
  note bu = zone_rel_bucket [OF rel p(1), folded b_def]
  have ok: "buddies_ok t fl" using rel by (simp add: zone_rel_def)
  have fresh: "p \<notin> set (fl n)" using buddies_ok_block(3) [OF ok, of p n] p(2) block_nonempty(1) [of p n] by blast
  have dist: "distinct (p # fl n)" using ok fresh by (simp add: buddies_ok_def)
  let ?E = "m_entries z" and ?h = "freelist b"
  define E1 where "E1 = (if ?h \<noteq> -1 then ?E[hd (fl n) := (?E ! hd (fl n))\<lparr>prev_index := 2 * int p\<rparr>] else ?E)"
  define E2 where "E2 = E1[p := (E1 ! p)\<lparr>next_index := ?h, prev_index := -1\<rparr>]"
  have hd: "?h \<noteq> -1 \<Longrightarrow> ?h = 2 * int (hd (fl n)) \<and> hd (fl n) \<in> set (fl n) \<and> hd (fl n) < length ?E"
    using bu(5) dll_empty_iff [OF bu(5)] dll_pages [OF bu(5)] by (cases "fl n") (auto simp: dll_def)
  have len: "length E1 = length ?E" "length E2 = length ?E" by (simp_all add: E1_def E2_def)
  have s1: "modify_linked z ?h (\<lambda>e. e\<lparr>prev_index := 2 * int p\<rparr>) = Inr (z\<lparr>m_entries := E1\<rparr>)"
    using hd by (cases "?h = -1") (simp_all add: modify_linked_def E1_def)
  have dl: "dll E2 (2 * int p) (p # fl n)"
    unfolding E2_def E1_def by (rule dll_push [OF bu(5) dist bu(7)])
  obtain bm where bm: "set_buddy_bit (b\<lparr>freelist := 2 * int p\<rparr>) (2 * int p) True =
      Inr (b\<lparr>freelist := 2 * int p, buddy_bitmap := bm\<rparr>)" "bits_rel t n bm (p # fl n)"
    by (rule set_bit_rel [of t n "b\<lparr>freelist := 2 * int p\<rparr>" "fl n" p "p # fl n" True]) (use bu p(1) in auto)
  let ?b = "b\<lparr>freelist := 2 * int p, buddy_bitmap := bm\<rparr>"
  have "bucket_rel E2 t n ?b (p # fl n)" using dl bm(2) bu(4) by (simp add: bucket_rel_def)
  moreover have "E2 ! r = ?E ! r" if "m \<noteq> n" "r \<in> set (fl m)" for m r
  proof -
    have "r \<noteq> p" "?h \<noteq> -1 \<Longrightarrow> r \<noteq> hd (fl n)"
      using other_list(2) [OF ok that p(2)] other_list(1) [OF ok that] hd by auto
    then show ?thesis by (auto simp: E2_def E1_def)
  qed
  ultimately have "zone_rel (put_bucket (z\<lparr>m_entries := E2\<rparr>) n ?b) t (fl(n := p # fl n))"
    using len buddies_ok_insert(1) [OF ok p] bu(1) by (intro zone_rel_update [OF rel]) auto
  with s1 bm(1) bu(7) len show thesis by (intro that) (auto simp: E2_def)
qed

section \<open>Taking a block off its list\<close>

text \<open>When a block leaves the list, no block of its pair remains there.\<close>

lemma pair_without:
  assumes "buddies_ok t fl" "p \<in> set (fl n)"
  shows "(\<exists>r \<in> set (remove1 p (fl n)). r div 2 ^ (n + 1) = q) \<longleftrightarrow>
    (if q = p div 2 ^ (n + 1) then False else \<exists>r \<in> set (fl n). r div 2 ^ (n + 1) = q)"
proof -
  have dist: "distinct (fl n)" using assms(1) by (simp add: buddies_ok_def)
  have "r = p" if "r \<in> set (fl n)" "r div 2 ^ (n + 1) = p div 2 ^ (n + 1)" for r
    using same_pair [of n p r] buddies_ok_block [OF assms] buddies_ok_block(1) [OF assms(1) that(1)] that
    by (auto simp: in_zone_def)
  then show ?thesis using dist by (auto simp: set_remove1_eq)
qed

lemma zone_remove:
  assumes rel: "zone_rel z t fl" and p: "p \<in> set (fl n)"
    and b: "b = (m_buckets z ! n)\<lparr>freelist := h\<rparr>" and E: "dll E h (remove1 p (fl n))" "length E = length (m_entries z)"
      "\<And>r. r \<notin> set (fl n) \<Longrightarrow> E ! r = m_entries z ! r"
    and q: "in_zone t n q" "q div 2 ^ (n + 1) = p div 2 ^ (n + 1)"
  obtains bm where "set_buddy_bit b (2 * int q) False = Inr (b\<lparr>buddy_bitmap := bm\<rparr>)"
    "zone_rel (put_bucket (z\<lparr>m_entries := E\<rparr>) n (b\<lparr>buddy_bitmap := bm\<rparr>)) t (fl(n := remove1 p (fl n)))"
proof -
  have ok: "buddies_ok t fl" using rel by (simp add: zone_rel_def)
  note bu = zone_rel_bucket [OF rel q(1)]
  obtain bm where bm: "set_buddy_bit b (2 * int q) False = Inr (b\<lparr>buddy_bitmap := bm\<rparr>)" "bits_rel t n bm (remove1 p (fl n))"
    by (rule set_bit_rel [of t n b "fl n" q "remove1 p (fl n)" False])
      (use bu q pair_without [OF ok p] in \<open>auto simp: b\<close>)
  have "bucket_rel E t n (b\<lparr>buddy_bitmap := bm\<rparr>) (remove1 p (fl n))"
    using E(1) bm(2) bu(4) by (simp add: bucket_rel_def b)
  moreover have "E ! r = m_entries z ! r" if "m \<noteq> n" "r \<in> set (fl m)" for m r
    using E(3) other_list(1) [OF ok that] by simp
  ultimately have "zone_rel (put_bucket (z\<lparr>m_entries := E\<rparr>) n (b\<lparr>buddy_bitmap := bm\<rparr>)) t (fl(n := remove1 p (fl n)))"
    using E(2) buddies_ok_remove(1) [OF ok p] bu(1) by (intro zone_rel_update [OF rel]) auto
  with bm(1) that show thesis by blast
qed

section \<open>Allocation\<close>

lemma chunk_index_small: "0 \<le> x \<Longrightarrow> x < 2 ^ 15 \<Longrightarrow> chunk_index x = x"
  by (simp add: chunk_index_def)

lemma allocate_block_impl_pop:
  assumes rel: "zone_rel z t fl" and n: "n \<le> max_order" and fl: "fl n = p # ps"
  shows "\<exists>z'. allocate_block_impl z n = Inr (Some (2 * int p), z') \<and> zone_rel z' t (fl(n := ps)) \<and> same_header z z'"
proof -
  have ok: "buddies_ok t fl" using rel by (simp add: zone_rel_def)
  have p: "p \<in> set (fl n)" using fl by simp
  have zp: "in_zone t n p" by (rule buddies_ok_block(1) [OF ok p])
  note bu = zone_rel_bucket [OF rel zp]
  let ?b = "m_buckets z ! n" and ?E = "m_entries z"
  have dist: "distinct (p # ps)" using ok fl by (metis buddies_ok_def)
  note pop = dll_pop [OF bu(5) [unfolded fl] dist]
  let ?h = "next_index (?E ! p)"
  define E1 where "E1 = (if ps = [] then ?E else ?E[hd ps := (?E ! hd ps)\<lparr>prev_index := -1\<rparr>])"
  have lk: "modify_linked z ?h (\<lambda>e. e\<lparr>prev_index := -1\<rparr>) = Inr (z\<lparr>m_entries := E1\<rparr>)"
    using pop(3) dll_pages [OF bu(5), of "hd ps"] fl by (simp add: modify_linked_def E1_def)
  have rm: "remove1 p (fl n) = ps" by (simp add: fl)
  have E1: "dll E1 ?h (remove1 p (fl n))" "length E1 = length ?E" "\<And>r. r \<notin> set (fl n) \<Longrightarrow> E1 ! r = ?E ! r"
    using pop(4) fl by (auto simp: rm E1_def intro!: nth_list_update_neq)
  obtain bm where bm: "set_buddy_bit (?b\<lparr>freelist := ?h\<rparr>) (2 * int p) False = Inr (?b\<lparr>freelist := ?h, buddy_bitmap := bm\<rparr>)"
      "zone_rel (put_bucket (z\<lparr>m_entries := E1\<rparr>) n (?b\<lparr>freelist := ?h, buddy_bitmap := bm\<rparr>)) t (fl(n := ps))"
    using zone_remove [OF rel p refl E1 zp refl] rm by auto
  have bit: "get_buddy_bit (?b\<lparr>freelist := ?h\<rparr>) (2 * int p) = Inr True"
    using get_bit_rel [of t n "?b\<lparr>freelist := ?h\<rparr>" "fl n" p] bu zp fl by auto
  have "allocate_block_impl z n = Inr (Some (2 * int p), put_bucket (z\<lparr>m_entries := E1\<rparr>) n (?b\<lparr>freelist := ?h, buddy_bitmap := bm\<rparr>))"
    using n bu(3,7) pop(1) lk bit bm(1) by (simp add: allocate_block_impl.simps [of z n] Let_def)
  with bm(2) show ?thesis by auto
qed

lemma page_chunk_index: "p < 4096 \<Longrightarrow> chunk_index (2 * int p) = 2 * int p"
  by (rule chunk_index_small) auto

lemma allocate_block_impl_split:
  assumes rel: "zone_rel z t fl" and n: "n \<le> max_order" and fl: "fl n = []"
    and up: "allocate_block_impl z (n + 1) = Inr (Some (2 * int q), z1)" "same_header z z1"
    and rel1: "zone_rel z1 t fl1" and q: "in_zone t (n + 1) q" "block (n + 1) q \<inter> pages fl1 = {}" "fl1 n = []"
  shows "\<exists>z'. allocate_block_impl z n = Inr (Some (2 * int (q + 2 ^ n)), z') \<and> zone_rel z' t (fl1(n := [q])) \<and> same_header z z'"
proof -
  note half = in_zone_halves [of t n q, unfolded Suc_eq_plus1, OF q(1)]
  have zq: "in_zone t n q" "block n q \<inter> pages fl1 = {}" "buddy n q \<notin> set (fl1 n)" using half q by auto
  note bu = zone_rel_bucket [OF rel1 zq(1)] and bu0 = zone_rel_bucket [OF rel zq(1)]
  let ?b = "m_buckets z1 ! n"
  have nil: "freelist (m_buckets z ! n) = -1" "freelist ?b = -1"
    using dll_empty_iff [OF bu0(5)] dll_empty_iff [OF bu(5)] fl q(3) by simp_all
  obtain z' where z': "tryE (modify_linked z1 (freelist ?b) (\<lambda>e. e\<lparr>prev_index := 2 * int q\<rparr>)) (\<lambda>z.
     tryE (modify_freelist_entry z (2 * int q) (\<lambda>e. e\<lparr>next_index := freelist ?b, prev_index := -1\<rparr>)) (\<lambda>z.
     tryE (set_buddy_bit (?b\<lparr>freelist := 2 * int q\<rparr>) (2 * int q) True) (\<lambda>b. Inr (put_bucket z n b)))) = Inr z'"
    "zone_rel z' t (fl1(n := q # fl1 n))" "same_header z1 z'"
    using zone_push [OF rel1 zq] by blast
  have bit: "get_buddy_bit (?b\<lparr>freelist := 2 * int q\<rparr>) (2 * int q) = Inr False"
    using get_bit_rel [of t n "?b\<lparr>freelist := 2 * int q\<rparr>" "fl1 n" q] bu zq(1) q(3) by simp
  have idx: "chunk_index (2 * int q + 2 * 2 ^ n) = 2 * int (q + 2 ^ n)"
    using page_chunk_index [of "q + 2 ^ n"] in_zone_small [OF half(2)] rel by (simp add: zone_rel_def)
  from z'(1) bu(7) nil(2) obtain b' where b': "set_buddy_bit (?b\<lparr>freelist := 2 * int q\<rparr>) (2 * int q) True = Inr b'"
      "z' = put_bucket (z1\<lparr>m_entries := (m_entries z1)[q := (m_entries z1 ! q)\<lparr>next_index := -1, prev_index := -1\<rparr>]\<rparr>) n b'"
    by (auto simp: modify_linked_def tryE_Inr_iff)
  have "allocate_block_impl z n = Inr (Some (2 * int (q + 2 ^ n)), z')"
    using n bu0(3) bu(3,7) nil up(1) bit b' idx by (simp add: allocate_block_impl.simps [of z n] Let_def)
  with z' q(3) same_header_trans [OF up(2)] show ?thesis by auto
qed

lemma allocate_block_impl_sim:
  assumes rel: "zone_rel z t fl"
  shows "case take_block fl max_order n of
      None \<Rightarrow> allocate_block_impl z n = Inr (None, z)
    | Some (p, fl') \<Rightarrow> \<exists>z'. allocate_block_impl z n = Inr (Some (2 * int p), z') \<and> zone_rel z' t fl' \<and> same_header z z'"
proof (induction "Suc max_order - n" arbitrary: n rule: less_induct)
  case less
  have ok: "buddies_ok t fl" using rel by (simp add: zone_rel_def)
  show ?case
  proof (cases "n \<le> max_order")
    case False
    then show ?thesis by (simp add: take_block.simps [of fl max_order n] allocate_block_impl.simps [of z n])
  next
    case n: True
    show ?thesis
    proof (cases "fl n")
      case (Cons p ps)
      with allocate_block_impl_pop [OF rel n] n show ?thesis by (simp add: take_block.simps [of fl max_order n])
    next
      case Nil
      have ih: "case take_block fl max_order (n + 1) of
          None \<Rightarrow> allocate_block_impl z (n + 1) = Inr (None, z)
        | Some (p, fl') \<Rightarrow> \<exists>z'. allocate_block_impl z (n + 1) = Inr (Some (2 * int p), z') \<and> zone_rel z' t fl' \<and> same_header z z'"
        using n by (intro less) simp
      show ?thesis
      proof (cases "take_block fl max_order (n + 1)")
        case None
        have "bucket_rel (m_entries z) t n (m_buckets z ! n) []" "get_bucket z n = Inr (m_buckets z ! n)"
          using rel n Nil by (auto simp: zone_rel_def get_bucket_def)
        with ih None Nil n show ?thesis
          by (simp add: take_block.simps [of fl max_order n] allocate_block_impl.simps [of z n] bucket_rel_def Let_def)
      next
        case (Some r)
        obtain q fl1 where r: "r = (q, fl1)" by fastforce
        note tk = take_block_Some [OF ok Some [unfolded r]]
        from ih Some r obtain z1 where z1: "allocate_block_impl z (n + 1) = Inr (Some (2 * int q), z1)"
            "zone_rel z1 t fl1" "same_header z z1" by auto
        have "fl1 n = []" using take_block_low [OF Some [unfolded r], of n] Nil by simp
        from allocate_block_impl_split [OF rel n Nil z1(1,3,2) _ _ this] tk Some r Nil n show ?thesis
          by (auto simp: take_block.simps [of fl max_order n])
      qed
    qed
  qed
qed

section \<open>Deallocation\<close>

lemma dealloc_bit:
  assumes rel: "zone_rel z t fl" and p: "in_zone t n p" "block n p \<inter> pages fl = {}"
  shows "get_buddy_bit (m_buckets z ! n) (2 * int p) = Inr (buddy n p \<in> set (fl n))"
proof -
  have ok: "buddies_ok t fl" using rel by (simp add: zone_rel_def)
  have al: "2 ^ n dvd p" using p(1) by (simp add: in_zone_def)
  have "p \<notin> set (fl n)" using buddies_ok_block(3) [OF ok, of p n] p(2) block_nonempty(1) [of p n] by blast
  moreover have "q = p \<or> q = buddy n p" if "q \<in> set (fl n)" "q div 2 ^ (n + 1) = p div 2 ^ (n + 1)" for q
    using same_pair [OF al _ that(2)] buddies_ok_block(1) [OF ok that(1)] by (simp add: in_zone_def)
  ultimately have "(\<exists>q \<in> set (fl n). q div 2 ^ (n + 1) = p div 2 ^ (n + 1)) \<longleftrightarrow> buddy n p \<in> set (fl n)"
    using buddy_pair [OF al] by metis
  with get_bit_rel [of t n "m_buckets z ! n" "fl n" p] zone_rel_bucket [OF rel p(1)] p(1) show ?thesis by simp
qed

lemma deallocate_merge:
  assumes rel: "zone_rel z t fl" and p: "in_zone t n p" "block n p \<inter> pages fl = {}" and bud: "buddy n p \<in> set (fl n)"
  obtains z1 where "deallocate_block_impl z (2 * int p) n = deallocate_block_impl z1 (2 * int (pair_base n p)) (n + 1)"
    "zone_rel z1 t (fl(n := remove1 (buddy n p) (fl n)))" "same_header z z1"
proof -
  have ok: "buddies_ok t fl" using rel by (simp add: zone_rel_def)
  have al: "2 ^ n dvd p" using p(1) by (simp add: in_zone_def)
  note bu = zone_rel_bucket [OF rel p(1)] and zb = buddies_ok_block(1) [OF ok bud]
  let ?b = "m_buckets z ! n"
  have dist: "distinct (fl n)" using ok by (simp add: buddies_ok_def)
  obtain E h where rm: "remove_from_freelist z ?b (2 * int (buddy n p)) = Inr (?b\<lparr>freelist := h\<rparr>, z\<lparr>m_entries := E\<rparr>)"
    "dll E h (remove1 (buddy n p) (fl n))" "length E = length (m_entries z)" "\<And>r. r \<notin> set (fl n) \<Longrightarrow> E ! r = m_entries z ! r"
    using remove_from_freelist_ok [OF bu(5) dist bud] by blast
  have pair: "p div 2 ^ (n + 1) = buddy n p div 2 ^ (n + 1)" using buddy_pair [OF al] by simp
  obtain bm where bm: "set_buddy_bit (?b\<lparr>freelist := h\<rparr>) (2 * int p) False = Inr (?b\<lparr>freelist := h, buddy_bitmap := bm\<rparr>)"
    "zone_rel (put_bucket (z\<lparr>m_entries := E\<rparr>) n (?b\<lparr>freelist := h, buddy_bitmap := bm\<rparr>)) t (fl(n := remove1 (buddy n p) (fl n)))"
    by (rule zone_remove [OF rel bud refl rm(2-4) p(1) pair])
  have small: "p < 4096" "buddy n p < 4096" by (rule bu(8), rule zone_rel_bucket(8) [OF rel zb])
  have pb: "pair_base n p < 4096" using small by (auto simp: buddy_def split: if_splits)
  have base: "chunk_index (int (push_bit (1 + n) (push_bit 1 (buddy_bit_index ?b (2 * int p))))) = 2 * int (pair_base n p)"
  proof -
    have "buddy_bit_index ?b (2 * int p) = p div 2 ^ (n + 1)" using buddy_bit_index_page [OF small(1), of ?b] bu(4) by simp
    then have "int (push_bit (1 + n) (push_bit 1 (buddy_bit_index ?b (2 * int p)))) = 2 * int (pair_base n p)"
      by (simp add: push_bit_eq_mult pair_base_def)
    then show ?thesis by (simp only: page_chunk_index [OF pb])
  qed
  have other: "(if 2 * int p = 2 * int (pair_base n p) then chunk_index (2 * int (pair_base n p) + 2 * 2 ^ n)
      else 2 * int (pair_base n p)) = 2 * int (buddy n p)"
  proof -
    define c where "c = pair_base n p"
    have "buddy n p = (if p = c then c + 2 ^ n else c)" by (simp add: buddy_def c_def)
    with page_chunk_index [OF small(2)] show ?thesis unfolding c_def [symmetric] by (auto split: if_splits)
  qed
  have rmv: "(if 2 * int p = 2 * int (pair_base n p)
      then remove_from_freelist z ?b (chunk_index (2 * int (pair_base n p) + 2 * 2 ^ n))
      else remove_from_freelist z ?b (2 * int (pair_base n p))) = Inr (?b\<lparr>freelist := h\<rparr>, z\<lparr>m_entries := E\<rparr>)"
    using other rm(1) by (metis (full_types))
  show thesis
  proof (rule that)
    show "deallocate_block_impl z (2 * int p) n =
        deallocate_block_impl (put_bucket (z\<lparr>m_entries := E\<rparr>) n (?b\<lparr>freelist := h, buddy_bitmap := bm\<rparr>)) (2 * int (pair_base n p)) (n + 1)"
      using bu(1,3) dealloc_bit [OF rel p] bud rmv bm(1)
      by (subst deallocate_block_impl.simps) (simp only: Let_def base tryE_simps if_True if_False not_less [symmetric] prod.case)
  qed (use bm(2) in simp_all)
qed

lemma deallocate_block_impl_sim:
  "zone_rel z t fl \<Longrightarrow> in_zone t n p \<Longrightarrow> block n p \<inter> pages fl = {} \<Longrightarrow>
     \<exists>z'. deallocate_block_impl z (2 * int p) n = Inr z' \<and> zone_rel z' t (give_block fl max_order p n) \<and> same_header z z'"
proof (induction "Suc max_order - n" arbitrary: z fl n p rule: less_induct)
  case less
  have ok: "buddies_ok t fl" and t: "t \<le> max_order" using less.prems(1) by (simp_all add: zone_rel_def)
  have al: "2 ^ n dvd p" using less.prems(2) by (simp add: in_zone_def)
  note bu = zone_rel_bucket [OF less.prems(1,2)]
  show ?case
  proof (cases "buddy n p \<in> set (fl n)")
    case True
    obtain z1 where z1: "deallocate_block_impl z (2 * int p) n = deallocate_block_impl z1 (2 * int (pair_base n p)) (n + 1)"
      "zone_rel z1 t (fl(n := remove1 (buddy n p) (fl n)))" "same_header z z1"
      using deallocate_merge [OF less.prems True] by blast
    have up: "in_zone t (n + 1) (pair_base n p)"
        "block (n + 1) (pair_base n p) \<inter> pages (fl(n := remove1 (buddy n p) (fl n))) = {}"
      using merge_in_zone [OF ok less.prems(2,3) True] by simp_all
    have dec: "Suc max_order - (n + 1) < Suc max_order - n" using bu(1) by simp
    obtain z' where "deallocate_block_impl z1 (2 * int (pair_base n p)) (n + 1) = Inr z'"
        "zone_rel z' t (give_block (fl(n := remove1 (buddy n p) (fl n))) max_order (pair_base n p) (n + 1))" "same_header z1 z'"
      using less.hyps [OF dec z1(2) up] by blast
    with z1 True bu(1) same_header_trans [OF z1(3)] show ?thesis by (simp add: give_block.simps [of fl max_order p n])
  next
    case False
    obtain z' where "tryE (modify_linked z (freelist (m_buckets z ! n)) (\<lambda>e. e\<lparr>prev_index := 2 * int p\<rparr>)) (\<lambda>z'.
     tryE (modify_freelist_entry z' (2 * int p) (\<lambda>e. e\<lparr>next_index := freelist (m_buckets z ! n), prev_index := -1\<rparr>)) (\<lambda>z'.
     tryE (set_buddy_bit ((m_buckets z ! n)\<lparr>freelist := 2 * int p\<rparr>) (2 * int p) True) (\<lambda>b. Inr (put_bucket z' n b)))) = Inr z'"
      "zone_rel z' t (fl(n := p # fl n))" "same_header z z'"
      using zone_push [OF less.prems False] by blast
    with bu(1,3) dealloc_bit [OF less.prems] False show ?thesis
      by (simp add: deallocate_block_impl.simps [of z] Let_def give_block.simps [of fl max_order p n])
  qed
qed

section \<open>A zone and its free pages\<close>

text \<open>\<^verbatim>\<open>zone_free z t F\<close>: the zone has \<open>2 ^ t\<close> pages, its lists and bitmaps are consistent, \<open>F\<close> are the free
  pages, the count of used chunks agrees with them, and its addresses do not wrap.\<close>

definition zone_free :: "zone \<Rightarrow> nat \<Rightarrow> nat set \<Rightarrow> bool" where
  "zone_free z t F \<longleftrightarrow> (\<exists>fl. zone_rel z t fl \<and> pages fl = F) \<and>
     m_used_chunks z = 2 * (2 ^ t - card F) \<and> m_base_address z + 2 ^ t * PAGE_SIZE < 2 ^ 64"

lemma zone_free_in: "zone_free z t F \<Longrightarrow> F \<subseteq> {..<2 ^ t} \<and> t \<le> 12 \<and> m_page_count z = 2 ^ t"
  using pages_in_zone by (auto simp: zone_free_def zone_rel_def max_order_def)

lemma zone_free_finite: "zone_free z t F \<Longrightarrow> finite F \<and> card F \<le> 2 ^ t"
proof -
  assume "zone_free z t F"
  then have F: "F \<subseteq> {..<2 ^ t}" using zone_free_in by blast
  then show ?thesis using card_mono [OF _ F] finite_subset [OF F] by simp
qed

lemma pow_12: "t \<le> 12 \<Longrightarrow> (2::nat) ^ t \<le> 4096"
  using power_increasing [of t 12 "2::nat"] by simp

lemma available_eq:
  assumes "zone_free z t F"
  shows "available z = card F"
proof -
  have "card F \<le> 2 ^ t" "(2::nat) ^ t \<le> 4096" "m_page_count z = 2 ^ t"
    using zone_free_finite [OF assms] zone_free_in [OF assms] pow_12 by auto
  then show ?thesis using assms size_sub_eq [of "2 ^ t - card F" "2 ^ t"]
    by (simp add: available_def zone_free_def)
qed

lemma zone_rel_used [simp]: "zone_rel (z\<lparr>m_used_chunks := u\<rparr>) t fl = zone_rel z t fl"
  by (simp add: zone_rel_def)

lemma allocate_block_ok:
  assumes "zone_free z t F"
  shows "case allocate_block z n of
      Inl e \<Rightarrow> False
    | Inr (None, z') \<Rightarrow> z' = z \<and> \<not> (\<exists>p. in_zone t n p \<and> block n p \<subseteq> F)
    | Inr (Some address, z') \<Rightarrow>
        \<exists>p. address = m_base_address z + p * PAGE_SIZE \<and> in_zone t n p \<and> block n p \<subseteq> F \<and>
            zone_free z' t (F - block n p) \<and> m_base_address z' = m_base_address z"
proof -
  from assms obtain fl where rel: "zone_rel z t fl" and F: "pages fl = F" by (auto simp: zone_free_def)
  have ok: "buddies_ok t fl" and t: "t \<le> max_order" using rel by (simp_all add: zone_rel_def)
  show ?thesis
  proof (cases "take_block fl max_order n")
    case None
    have "allocate_block z n = Inr (None, z)"
      using allocate_block_impl_sim [OF rel, of n] None by (simp add: allocate_block_def)
    moreover have "\<not> (\<exists>p. in_zone t n p \<and> block n p \<subseteq> F)"
    proof
      assume "\<exists>p. in_zone t n p \<and> block n p \<subseteq> F"
      then obtain m q where m: "n \<le> m" "q \<in> set (fl m)" using coalesced [OF ok] F by blast
      then have "m \<le> max_order" using in_zone_le [OF buddies_ok_block(1) [OF ok m(2)]] t by simp
      with m None show False by (auto simp: take_block_None)
    qed
    ultimately show ?thesis by simp
  next
    case (Some r)
    obtain p fl' where r: "r = (p, fl')" by fastforce
    note tk = take_block_Some [OF ok Some [unfolded r]]
    obtain z' where z': "allocate_block_impl z n = Inr (Some (2 * int p), z')" "zone_rel z' t fl'" "same_header z z'"
      using allocate_block_impl_sim [OF rel, of n] Some r by auto
    have zp: "in_zone t n p" and sub: "block n p \<subseteq> F" and F': "pages fl' = F - block n p" using tk F by auto
    have card: "card (F - block n p) + 2 ^ n = card F"
      using sub zone_free_finite [OF assms] card_Diff_subset [OF _ sub] card_mono [OF _ sub] by simp
    have le: "card F \<le> 2 ^ t" "(2::nat) ^ t \<le> 4096" using zone_free_finite [OF assms] zone_free_in [OF assms] pow_12 by auto
    have used: "size_add (m_used_chunks z) (2 * 2 ^ n) = 2 * (2 ^ t - card (F - block n p))"
      using assms card le size_add_eq [of "m_used_chunks z" "2 * 2 ^ n"] by (simp add: zone_free_def)
    have "p < 2 ^ t" by (rule in_zone_less [OF zp])
    then have "m_base_address z + p * PAGE_SIZE < 2 ^ 64" using assms by (simp add: zone_free_def)
    then have addr: "nat ((int (m_base_address z) + 2 * int p * int ZONE_CHUNK_SIZE) mod 2 ^ 64) = m_base_address z + p * PAGE_SIZE"
      by (simp add: ZONE_CHUNK_SIZE_def)
    let ?z = "z'\<lparr>m_used_chunks := size_add (m_used_chunks z) (2 * 2 ^ n)\<rparr>"
    have hd: "m_base_address z' = m_base_address z" "m_used_chunks z' = m_used_chunks z" using z'(3) by (simp_all add: same_header_def)
    have "allocate_block z n = Inr (Some (m_base_address z + p * PAGE_SIZE), ?z)"
      using z'(1) hd addr by (simp add: allocate_block_def Let_def)
    moreover have "zone_free ?z t (F - block n p)"
      using z'(2) F' hd assms used by (auto simp: zone_free_def)
    ultimately show ?thesis using zp sub hd by auto
  qed
qed

lemma deallocate_block_ok:
  assumes "zone_free z t F" and "in_zone t n p" and "block n p \<inter> F = {}"
  shows "\<exists>z'. deallocate_block z (m_base_address z + p * PAGE_SIZE) n = Inr z' \<and>
    zone_free z' t (F \<union> block n p) \<and> m_base_address z' = m_base_address z"
proof -
  from assms obtain fl where rel: "zone_rel z t fl" and F: "pages fl = F" by (auto simp: zone_free_def)
  have ok: "buddies_ok t fl" and t: "t \<le> max_order" using rel by (simp_all add: zone_rel_def)
  have p4: "p < 4096" using in_zone_small [OF assms(2) t] .
  obtain z' where z': "deallocate_block_impl z (2 * int p) n = Inr z'"
      "zone_rel z' t (give_block fl max_order p n)" "same_header z z'"
    using deallocate_block_impl_sim [OF rel assms(2)] assms(3) F by auto
  have F': "pages (give_block fl max_order p n) = F \<union> block n p"
    using give_block_ok [OF ok t assms(2)] assms(3) F by simp
  have "p < 2 ^ t" by (rule in_zone_less [OF assms(2)])
  then have "m_base_address z + p * PAGE_SIZE < 2 ^ 64" using assms by (simp add: zone_free_def)
  then have idx: "chunk_index (int (size_sub (m_base_address z + p * PAGE_SIZE) (m_base_address z) div ZONE_CHUNK_SIZE)) = 2 * int p"
    using page_chunk_index [OF p4] by (simp add: size_sub_eq ZONE_CHUNK_SIZE_def)
  have sub: "F \<union> block n p \<subseteq> {..<2 ^ t}" using zone_free_in [OF assms(1)] in_zone_block [OF assms(2)] by blast
  have card: "card (F \<union> block n p) = card F + 2 ^ n"
    using assms(3) zone_free_finite [OF assms(1)] by (subst card_Un_disjoint) auto
  have le: "card (F \<union> block n p) \<le> 2 ^ t" "(2::nat) ^ t \<le> 4096"
    using card_mono [OF _ sub] zone_free_in [OF assms(1)] pow_12 by auto
  have hd: "m_base_address z' = m_base_address z" "m_used_chunks z' = m_used_chunks z" using z'(3) by (simp_all add: same_header_def)
  have used: "size_sub (m_used_chunks z) (2 * 2 ^ n) = 2 * (2 ^ t - card (F \<union> block n p))"
    using assms(1) card le size_sub_eq [of "2 * 2 ^ n" "m_used_chunks z"] by (simp add: zone_free_def)
  let ?z = "z'\<lparr>m_used_chunks := size_sub (m_used_chunks z) (2 * 2 ^ n)\<rparr>"
  have "deallocate_block z (m_base_address z + p * PAGE_SIZE) n = Inr ?z"
    using z'(1) idx hd by (simp add: deallocate_block_def Let_def)
  moreover have "zone_free ?z t (F \<union> block n p)"
    using z'(2) F' hd assms(1) used by (auto simp: zone_free_def)
  ultimately show ?thesis using hd by auto
qed

section \<open>Construction\<close>

lemma ceil_div_2: "ceil_div n 2 = (n + 1) div 2"
  by (cases "even n") (auto simp: ceil_div_def elim: oddE)

lemma grow_empty:
  assumes "0 < s" "s < 2 ^ 64" "ceil_div s 8 \<le> length junk"
  obtains bm where "grow junk addr \<lparr>m_data = [], m_size = 0, m_addr = 0\<rparr> s False = Inr bm" "bitmap_wf bm"
    "m_size bm = s" "\<And>k. k < s \<Longrightarrow> \<not> tst bm k"
proof -
  let ?b = "\<lparr>m_data = take (ceil_div s 8) junk, m_size = s, m_addr = addr\<rparr>"
  have "bitmap_wf ?b" using assms by (simp add: bitmap_wf_def size_in_bytes_def)
  then obtain bm where "fill ?b False = Inr bm" "bitmap_wf bm" "m_size bm = m_size ?b" "\<And>k. k < m_size ?b \<Longrightarrow> tst bm k = False"
    using fill_spec [where v = False] by blast
  with assms(1) that show thesis by (simp add: grow_def Let_def)
qed

text \<open>What the constructor relies on: \<^verbatim>\<open>kmalloc\<close> returns buffers at least as long as asked for.\<close>

definition buffers_ok :: "nat \<Rightarrow> (nat \<Rightarrow> u8 list \<times> nat) \<Rightarrow> bool" where
  "buffers_ok t alloc \<longleftrightarrow> (\<forall>n \<le> t. ceil_div (nbits t n) 8 \<le> length (fst (alloc n)))"

lemma bits_of_order: "ceil_div (2 ^ t div 2 ^ n) 2 = (if n \<le> t then nbits t n else 0)"
proof -
  have "(2::nat) ^ t div 2 ^ n = (if n \<le> t then 2 ^ (t - n) else 0)"
    by (simp add: power_diff power_strict_increasing not_le)
  then show ?thesis by (simp add: ceil_div_2 nbits_def)
qed

lemma make_bucket_ok:
  assumes "buffers_ok t alloc" "t \<le> max_order"
  obtains b where "make_bucket alloc (2 ^ t * 2) n = Inr b" "bucket_rel E t n b []"
proof (cases "n \<le> t")
  case True
  have pos: "0 < nbits t n" by (simp add: nbits_def div_greater_zero_iff)
  have "nbits t n \<le> 2 ^ t"
  proof -
    have "(2::nat) ^ (t - n) \<le> 2 ^ t" by (intro power_increasing) simp_all
    moreover have "(1::nat) \<le> 2 ^ t" by simp
    ultimately show ?thesis unfolding nbits_def by linarith
  qed
  then have small: "nbits t n < 2 ^ 64" using pow_12 [of t] assms(2) by (simp add: max_order_def)
  obtain bm where "grow (fst (alloc n)) (snd (alloc n)) \<lparr>m_data = [], m_size = 0, m_addr = 0\<rparr> (nbits t n) False = Inr bm"
      "bitmap_wf bm" "m_size bm = nbits t n" "\<And>k. k < nbits t n \<Longrightarrow> \<not> tst bm k"
    using grow_empty [OF pos small] assms(1) True by (metis buffers_ok_def)
  with pos True show thesis
    by (intro that [of "\<lparr>order = n, freelist = -1, buddy_bitmap = bm\<rparr>"])
      (simp_all add: make_bucket_def Let_def bits_of_order bucket_rel_def bits_rel_def)
next
  case False
  then show thesis
    by (intro that [of "\<lparr>order = n, freelist = -1, buddy_bitmap = \<lparr>m_data = [], m_size = 0, m_addr = 0\<rparr>\<rparr>"])
      (simp_all add: make_bucket_def Let_def ceil_div_def bucket_rel_def)
qed

lemma make_buckets_ok:
  assumes "buffers_ok t alloc" "t \<le> max_order"
  shows "\<exists>bs. make_buckets alloc (2 ^ t * 2) k = Inr bs \<and> length bs = k \<and> (\<forall>n < k. bucket_rel E t n (bs ! n) [])"
proof (induction k)
  case (Suc k)
  then obtain bs where bs: "make_buckets alloc (2 ^ t * 2) k = Inr bs" "length bs = k" "\<forall>n < k. bucket_rel E t n (bs ! n) []"
    by blast
  obtain b where b: "make_bucket alloc (2 ^ t * 2) k = Inr b" "bucket_rel E t k b []" using make_bucket_ok [OF assms] by blast
  show ?case using bs b by (intro exI [of _ "bs @ [b]"]) (auto simp: nth_append less_Suc_eq)
qed simp

lemma ctz_power: "t < LENGTH('a) \<Longrightarrow> count_trailing_zeroes (2 ^ t :: 'a::len word) = t"
proof -
  assume t: "t < LENGTH('a)"
  let ?w = "2 ^ t :: 'a word"
  have bit: "bit ?w j \<longleftrightarrow> j = t" for j using t by (auto simp: bit_exp_iff)
  then have nz: "?w \<noteq> 0" by (metis bit_0_eq bot_apply bot_bool_def)
  show ?thesis using count_trailing_zeroes_least(1) [OF nz] bit by blast
qed

lemma set_buddy_bit_freelist:
  "set_buddy_bit (b\<lparr>freelist := h\<rparr>) i v = tryE (set_buddy_bit b i v) (\<lambda>b. Inr (b\<lparr>freelist := h\<rparr>))"
  by (auto simp: set_buddy_bit_def buddy_bit_index_def tryE_def split: sum.splits)

lemma pages_Nil [simp]: "pages (\<lambda>_. []) = {}"
  by (simp add: pages_def)

lemma PhysicalZone_ok:
  assumes "t \<le> 12" and "length entries = 2 ^ t" and "buffers_ok t alloc" and "base + 2 ^ t * PAGE_SIZE < 2 ^ 64"
  shows "\<exists>z. PhysicalZone alloc entries base (2 ^ t) = Inr z \<and> zone_free z t {..<2 ^ t} \<and> m_base_address z = base"
proof -
  have t: "t \<le> max_order" using assms(1) by (simp add: max_order_def)
  obtain bs where bs: "make_buckets alloc (2 ^ t * 2) (Suc max_order) = Inr bs" "length bs = Suc max_order"
      "\<forall>n < Suc max_order. bucket_rel entries t n (bs ! n) []"
    using make_buckets_ok [OF assms(3) t] by blast
  let ?z = "\<lparr>m_buckets = bs, m_base_address = base, m_page_count = 2 ^ t, m_used_chunks = 0, m_entries = entries\<rparr>"
  have rel: "zone_rel ?z t (\<lambda>_. [])"
    using t bs assms(2) by (auto simp: zone_rel_def buddies_ok_def)
  have z0: "in_zone t t 0" by (simp add: in_zone_def)
  obtain z' where z': "tryE (modify_linked ?z (freelist (bs ! t)) (\<lambda>e. e\<lparr>prev_index := 2 * int 0\<rparr>)) (\<lambda>z.
     tryE (modify_freelist_entry z (2 * int 0) (\<lambda>e. e\<lparr>next_index := freelist (bs ! t), prev_index := -1\<rparr>)) (\<lambda>z.
     tryE (set_buddy_bit ((bs ! t)\<lparr>freelist := 2 * int 0\<rparr>) (2 * int 0) True) (\<lambda>b. Inr (put_bucket z t b)))) = Inr z'"
    "zone_rel z' t ((\<lambda>_. [])(t := [0]))" "same_header ?z z'"
    using zone_push [OF rel z0] by auto
  have h: "freelist (bs ! t) = -1" using bs t by (auto simp: bucket_rel_def)
  from z'(1) h assms(2) have add: "tryE (set_buddy_bit (bs ! t) 0 True) (\<lambda>b.
      tryE (modify_freelist_entry ?z 0 (\<lambda>e. e\<lparr>next_index := -1, prev_index := -1\<rparr>)) (\<lambda>z.
      Inr (put_bucket z t (b\<lparr>freelist := 0\<rparr>)))) = Inr z'"
    using modify_entry_page [of 0 ?z] by (auto simp: modify_linked_def set_buddy_bit_freelist tryE_assoc tryE_Inr_iff)
  have "add_initial_blocks ?z t (2 * 2 ^ t) 0 0 1 = Inr z'"
    using add bs(2) t h by (auto simp: get_bucket_def chunk_index_def Let_def tryE_Inr_iff set_buddy_bit_def)
  then have "PhysicalZone alloc entries base (2 ^ t) = Inr z'"
    using bs(1) ctz_power [of t, where 'a = 64] assms(1) by (simp add: PhysicalZone_def Let_def)
  moreover have "pages ((\<lambda>_. [])(t := [0])) = {..<2 ^ t}"
    by (simp add: pages_update block_def lessThan_atLeast0)
  then have "zone_free z' t {..<2 ^ t}" using z'(2,3) assms(4) by (auto simp: zone_free_def same_header_def)
  ultimately show ?thesis using z'(3) by (auto simp: same_header_def)
qed

section \<open>Correctness of the zone\<close>

text \<open>A zone of two pages, for the examples.\<close>

definition unlinked :: freelist_entry where
  "unlinked = \<lparr>next_index = 7, prev_index = 7\<rparr>"

lemma two_page_buffers: "buffers_ok 1 (\<lambda>_. ([0xAA], 0))"
  by (auto simp: buffers_ok_def nbits_def ceil_div_8 le_Suc_eq)

lemma two_page_zone:
  "\<exists>z. PhysicalZone (\<lambda>_. ([0xAA], 0)) (replicate 2 unlinked) 0x100000 2 = Inr z \<and> zone_free z 1 {..<2} \<and>
     m_base_address z = 0x100000"
  using PhysicalZone_ok [of 1 "replicate 2 unlinked" "\<lambda>_. ([0xAA], 0)" "0x100000"] two_page_buffers by auto

text \<open>\<^bold>\<open>C25.\<close> Allocating a block from a consistent zone never fails a check. It returns an address exactly when
  the zone has an aligned run of \<open>2 ^ n\<close> free pages; the block returned is such a run, and afterwards the
  zone is consistent with that block, and nothing else, taken out of the free pages. When it returns
  nothing the zone is unchanged.\<close>

theorem allocate_block_correct:
  assumes "zone_free z t F"
  shows "case allocate_block z n of
      Inl e \<Rightarrow> False
    | Inr (None, z') \<Rightarrow> z' = z \<and> \<not> (\<exists>p. in_zone t n p \<and> block n p \<subseteq> F)
    | Inr (Some address, z') \<Rightarrow>
        \<exists>p. address = m_base_address z + p * PAGE_SIZE \<and> in_zone t n p \<and> block n p \<subseteq> F \<and>
            zone_free z' t (F - block n p) \<and> m_base_address z' = m_base_address z"
  using assms by (rule allocate_block_ok)

theorem allocate_block_witness:
  "\<exists>z p z'. PhysicalZone (\<lambda>_. ([0xAA], 0)) (replicate 2 unlinked) 0x100000 2 = Inr z \<and>
     allocate_block z 0 = Inr (Some (0x100000 + p * PAGE_SIZE), z') \<and> zone_free z' 1 ({..<2} - {p})"
proof -
  obtain z where z: "PhysicalZone (\<lambda>_. ([0xAA], 0)) (replicate 2 unlinked) 0x100000 2 = Inr z" "zone_free z 1 {..<2}"
      "m_base_address z = 0x100000"
    using two_page_zone by blast
  have "in_zone 1 0 0 \<and> block 0 0 \<subseteq> {..<2}" by (simp add: in_zone_def block_def)
  with allocate_block_correct [OF z(2), of 0] z(1,3) show ?thesis
    by (auto simp: block_def split: sum.splits option.splits)
qed

text \<open>\<^bold>\<open>C26.\<close> Giving back an aligned block none of whose pages is free never fails a check, and adds exactly its
  pages to the free pages. The block need not have been allocated as one: a page of a larger block can
  be given back on its own.\<close>

theorem deallocate_block_correct:
  assumes "zone_free z t F" and "in_zone t n p" and "block n p \<inter> F = {}"
  shows "\<exists>z'. deallocate_block z (m_base_address z + p * PAGE_SIZE) n = Inr z' \<and>
    zone_free z' t (F \<union> block n p) \<and> m_base_address z' = m_base_address z"
  using assms by (rule deallocate_block_ok)

theorem deallocate_block_witness:
  "\<exists>z a z1 z2. PhysicalZone (\<lambda>_. ([0xAA], 0)) (replicate 2 unlinked) 0x100000 2 = Inr z \<and>
     allocate_block z 0 = Inr (Some a, z1) \<and> deallocate_block z1 a 0 = Inr z2 \<and> zone_free z2 1 {..<2}"
proof -
  obtain z where z: "PhysicalZone (\<lambda>_. ([0xAA], 0)) (replicate 2 unlinked) 0x100000 2 = Inr z" "zone_free z 1 {..<2}"
    using two_page_zone by blast
  have "in_zone 1 0 0 \<and> block 0 0 \<subseteq> {..<2}" by (simp add: in_zone_def block_def)
  with allocate_block_ok [OF z(2), of 0] obtain p z1 where a: "allocate_block z 0 = Inr (Some (m_base_address z + p * PAGE_SIZE), z1)"
      "in_zone 1 0 p" "block 0 p \<subseteq> {..<2}" "zone_free z1 1 ({..<2} - block 0 p)" "m_base_address z1 = m_base_address z"
    by (auto split: sum.splits option.splits)
  have "block 0 p \<inter> ({..<2} - block 0 p) = {}" "{..<2} - block 0 p \<union> block 0 p = {..<2}" using a(3) by auto
  with deallocate_block_correct [OF a(4,2)] a(1,5) z(1) show ?thesis by auto
qed

text \<open>\<^bold>\<open>C27.\<close> The constructor builds a consistent zone in which every page is free, for every power of two of
  pages up to 4096 and whatever the page entries and the bitmap buffers held before.\<close>

theorem PhysicalZone_correct:
  assumes "t \<le> 12" and "length entries = 2 ^ t" and "buffers_ok t alloc" and "base + 2 ^ t * PAGE_SIZE < 2 ^ 64"
  shows "\<exists>z. PhysicalZone alloc entries base (2 ^ t) = Inr z \<and> zone_free z t {..<2 ^ t} \<and> m_base_address z = base"
  using assms by (rule PhysicalZone_ok)

theorem PhysicalZone_witness:
  "\<exists>z. PhysicalZone (\<lambda>_. ([0xAA], 0)) (replicate 2 unlinked) 0x100000 2 = Inr z \<and> zone_free z 1 {..<2}"
  using PhysicalZone_correct [of 1 "replicate 2 unlinked" "\<lambda>_. ([0xAA], 0)" "0x100000"] two_page_buffers by auto

section \<open>Sequences of requests\<close>

definition zone_block :: "nat \<Rightarrow> nat \<Rightarrow> nat \<Rightarrow> nat set" where
  "zone_block base n address = block n ((address - base) div PAGE_SIZE)"

definition zone_held :: "nat \<Rightarrow> nat \<Rightarrow> nat \<Rightarrow> nat \<Rightarrow> bool" where
  "zone_held t base n address \<longleftrightarrow> (\<exists>p. address = base + p * PAGE_SIZE \<and> in_zone t n p)"

definition zone_inv :: "nat \<Rightarrow> nat \<Rightarrow> zone \<Rightarrow> nat set \<Rightarrow> (nat \<times> nat) list \<Rightarrow> bool" where
  "zone_inv t base z F H \<longleftrightarrow> zone_free z t F \<and> m_base_address z = base \<and> (\<forall>(n, address) \<in> set H. zone_held t base n address)"

interpretation buddy_zone: block_allocator
  "zone_inv t base" "\<lambda>n z. allocate_block z n" "\<lambda>n address z. deallocate_block z address n" "zone_block base" "\<lambda>_. True"
  for t base
proof (unfold_locales, goal_cases)
  case (1 z F H U n)
  then have free: "zone_free z t F" and base: "m_base_address z = base" by (simp_all add: zone_inv_def)
  note ok = allocate_block_ok [OF free, of n]
  obtain h z' where a: "allocate_block z n = Inr (h, z')" using ok by (cases "allocate_block z n") auto
  show ?case
  proof (cases h)
    case None
    with ok a 1 show ?thesis by auto
  next
    case (Some address)
    with ok a base obtain p where p: "address = base + p * PAGE_SIZE" "in_zone t n p" "block n p \<subseteq> F"
        "zone_free z' t (F - block n p)" "m_base_address z' = base" by auto
    then have "zone_block base n address = block n p" "zone_held t base n address"
      by (auto simp: zone_block_def zone_held_def)
    with p a Some 1(1) show ?thesis by (auto simp: zone_inv_def)
  qed
next
  case (2 z F H U i)
  let ?n = "fst (H ! i)" and ?a = "snd (H ! i)"
  have el: "(?n, ?a) \<in> set H" using 2 by simp
  then obtain p where p: "?a = base + p * PAGE_SIZE" "in_zone t ?n p"
    using 2(1) unfolding zone_inv_def zone_held_def by blast
  have "block ?n p \<inter> F = {}" using held_ok_disjoint [OF 2(2) el] p(1) by (simp add: zone_block_def)
  with p deallocate_block_ok [of z t F ?n p] 2(1) obtain z' where "deallocate_block z ?a ?n = Inr z'"
    "zone_free z' t (F \<union> block ?n p)" "m_base_address z' = base" by (auto simp: zone_inv_def)
  moreover have "\<forall>(n, address) \<in> set (take i H @ drop (Suc i) H). zone_held t base n address"
    using 2(1) set_take_subset [of i H] set_drop_subset [of "Suc i" H] by (auto simp: zone_inv_def)
  ultimately show ?case using p(1) by (simp add: zone_inv_def zone_block_def)
qed

text \<open>\<^bold>\<open>C5.\<close> A fresh zone serves any sequence of requests to allocate blocks of any order and to give back
  blocks held, in any order, without failing a check, and never hands out a page twice: the blocks held
  are pairwise disjoint, no page of them is free, and with the free pages they make up the zone.\<close>

theorem zone_requests_safe:
  assumes "t \<le> 12" and "length entries = 2 ^ t" and "buffers_ok t alloc" and "base + 2 ^ t * PAGE_SIZE < 2 ^ 64"
  shows "\<exists>z z' H F. PhysicalZone alloc entries base (2 ^ t) = Inr z \<and>
    serve (\<lambda>n z. allocate_block z n) (\<lambda>n address z. deallocate_block z address n) rs (z, []) = Inr (z', H) \<and>
    zone_free z' t F \<and> F \<union> (\<Union>(n, address) \<in> set H. zone_block base n address) = {..<2 ^ t} \<and>
    (\<forall>i j. i < j \<and> j < length H \<longrightarrow>
       zone_block base (fst (H ! i)) (snd (H ! i)) \<inter> zone_block base (fst (H ! j)) (snd (H ! j)) = {}) \<and>
    (\<forall>(n, address) \<in> set H. zone_block base n address \<inter> F = {})"
proof -
  obtain z where z: "PhysicalZone alloc entries base (2 ^ t) = Inr z" "zone_inv t base z {..<2 ^ t} []"
    using PhysicalZone_ok [OF assms] by (auto simp: zone_inv_def)
  have "\<forall>r. Allocate r \<in> set rs \<longrightarrow> True" by simp
  from buddy_zone.serve_safe [OF z(2) this] obtain z' H F where
    "serve (\<lambda>n z. allocate_block z n) (\<lambda>n address z. deallocate_block z address n) rs (z, []) = Inr (z', H)" "zone_free z' t F"
    "F \<union> (\<Union>(n, address) \<in> set H. zone_block base n address) = {..<2 ^ t}"
    "\<forall>i j. i < j \<and> j < length H \<longrightarrow> zone_block base (fst (H ! i)) (snd (H ! i)) \<inter> zone_block base (fst (H ! j)) (snd (H ! j)) = {}"
    "\<forall>(n, address) \<in> set H. zone_block base n address \<inter> F = {}"
    unfolding zone_inv_def by (elim exE conjE) (rule that)
  with z(1) show ?thesis by (intro exI conjI)
qed

theorem zone_requests_witness:
  "\<exists>z z' H F. PhysicalZone (\<lambda>_. ([0xAA], 0)) (replicate 2 unlinked) 0x100000 2 = Inr z \<and>
    serve (\<lambda>n z. allocate_block z n) (\<lambda>n address z. deallocate_block z address n) [Allocate 0, Allocate 0, Release 1]
      (z, []) = Inr (z', H) \<and>
    zone_free z' 1 F \<and> F \<union> (\<Union>(n, address) \<in> set H. zone_block 0x100000 n address) = {..<2}"
  using zone_requests_safe [of 1 "replicate 2 unlinked" "\<lambda>_. ([0xAA], 0)" "0x100000" "[Allocate 0, Allocate 0, Release 1]"]
    two_page_buffers by auto

end
