(* ===== verification/Physical_Region.thy ===== *)
theory Physical_Region
  imports Physical_Zone_Facts
begin

text \<open>
  \<^verbatim>\<open>Kernel/Memory/PhysicalRegion.{h,cpp}\<close>: a range of physical memory cut into zones of 16 MiB and then of
  1 MiB, with the zones kept on one of two lists, usable and full. A zone is named by its index in
  \<^verbatim>\<open>m_zones\<close>; appending a zone to one of the intrusive lists takes it off the list it was on. The addresses
  of the pages stand for the page objects the code creates.
\<close>

record region =
  m_zones :: "zone list"
  m_large_zones :: nat
  m_usable_zones :: "nat list"
  m_full_zones :: "nat list"
  m_lower :: nat
  m_upper :: nat
  m_pages :: nat

definition large_zone_size :: nat where
  "large_zone_size = 16 * 1024 * 1024"

definition small_zone_size :: nat where
  "small_zone_size = 1024 * 1024"

definition next_power_of_two :: "u32 \<Rightarrow> u32" where
  "next_power_of_two v =
     (let v = v - 1;
          v = v OR drop_bit 1 v;
          v = v OR drop_bit 2 v;
          v = v OR drop_bit 4 v;
          v = v OR drop_bit 8 v;
          v = v OR drop_bit 16 v
      in v + 1)"

definition PhysicalRegion :: "nat \<Rightarrow> nat \<Rightarrow> region" where
  "PhysicalRegion lower upper =
     \<lparr>m_zones = [], m_large_zones = 0, m_usable_zones = [], m_full_zones = [], m_lower = lower, m_upper = upper,
      m_pages = size_sub upper lower div PAGE_SIZE\<rparr>"

definition region_contains :: "region \<Rightarrow> nat \<Rightarrow> bool" where
  "region_contains r paddr \<longleftrightarrow> paddr \<ge> m_lower r \<and> paddr < m_upper r"

section \<open>Zones\<close>

text \<open>\<open>alloc i\<close> gives the bitmap buffers of the \<open>i\<close>-th zone and \<open>entries i n\<close> what the \<open>n\<close> page entries of that
  zone hold before. The code cannot go on when an allocation fails; allocations are taken to succeed.\<close>

function make_zones ::
  "(nat \<Rightarrow> nat \<Rightarrow> u8 list \<times> nat) \<Rightarrow> (nat \<Rightarrow> nat \<Rightarrow> freelist_entry list) \<Rightarrow> nat \<Rightarrow>
   region \<Rightarrow> nat \<Rightarrow> nat \<Rightarrow> nat \<Rightarrow> (region \<times> nat \<times> nat \<times> nat) kresult" where
  "make_zones alloc entries pages_per_zone r base_address remaining_pages zone_count =
     (if pages_per_zone \<noteq> 0 \<and> remaining_pages \<ge> pages_per_zone then
        let i = length (m_zones r) in
        tryE (PhysicalZone (alloc i) (entries i pages_per_zone) base_address pages_per_zone) (\<lambda>z.
        make_zones alloc entries pages_per_zone
          (r\<lparr>m_zones := m_zones r @ [z], m_usable_zones := m_usable_zones r @ [i]\<rparr>)
          (size_add base_address (pages_per_zone * PAGE_SIZE)) (remaining_pages - pages_per_zone) (Suc zone_count))
      else Inr (r, base_address, remaining_pages, zone_count))"
  by pat_completeness auto
termination
  by (relation "measure (\<lambda>(alloc, entries, k, r, base, remaining, n). remaining)") auto

declare make_zones.simps [simp del]

definition initialize_zones ::
  "(nat \<Rightarrow> nat \<Rightarrow> u8 list \<times> nat) \<Rightarrow> (nat \<Rightarrow> nat \<Rightarrow> freelist_entry list) \<Rightarrow> region \<Rightarrow> region kresult" where
  "initialize_zones alloc entries r =
     tryE (make_zones alloc entries (large_zone_size div PAGE_SIZE) r (m_lower r) (m_pages r) 0)
       (\<lambda>(r, base_address, remaining_pages, zone_count).
     let r = r\<lparr>m_large_zones := zone_count\<rparr> in
     tryE (make_zones alloc entries (small_zone_size div PAGE_SIZE) r base_address remaining_pages 0)
       (\<lambda>(r, base_address, remaining_pages, zone_count). Inr r))"

definition try_take_pages_from_beginning :: "region \<Rightarrow> nat \<Rightarrow> (region \<times> region) kresult" where
  "try_take_pages_from_beginning r page_count =
     verifyE (page_count > 0) (verifyE (page_count < m_pages r)
       (let taken_lower = m_lower r;
            taken_upper = size_add taken_lower (page_count * PAGE_SIZE);
            lower = size_add (m_lower r) (page_count * PAGE_SIZE);
            r = r\<lparr>m_lower := lower, m_pages := size_sub (m_upper r) lower div PAGE_SIZE\<rparr>
        in Inr (PhysicalRegion taken_lower taken_upper, r)))"

section \<open>Pages\<close>

text \<open>\<^verbatim>\<open>m_full_zones.append(zone)\<close> and \<^verbatim>\<open>m_usable_zones.append(zone)\<close>.\<close>

definition append_full :: "region \<Rightarrow> nat \<Rightarrow> region" where
  "append_full r i = r\<lparr>m_usable_zones := removeAll i (m_usable_zones r), m_full_zones := removeAll i (m_full_zones r) @ [i]\<rparr>"

definition append_usable :: "region \<Rightarrow> nat \<Rightarrow> region" where
  "append_usable r i = r\<lparr>m_usable_zones := removeAll i (m_usable_zones r) @ [i], m_full_zones := removeAll i (m_full_zones r)\<rparr>"

definition zone_allocate :: "region \<Rightarrow> nat \<Rightarrow> nat \<Rightarrow> (nat option \<times> region) kresult" where
  "zone_allocate r i n =
     (if i < length (m_zones r)
      then tryE (allocate_block (m_zones r ! i) n) (\<lambda>(page, z).
             let r = r\<lparr>m_zones := (m_zones r)[i := z]\<rparr> in
             Inr (page, if page \<noteq> None \<and> is_empty z then append_full r i else r))
      else Inl Out_of_bounds)"

fun allocate_from :: "nat \<Rightarrow> region \<Rightarrow> nat list \<Rightarrow> (nat option \<times> region) kresult" where
  "allocate_from n r [] = Inr (None, r)"
| "allocate_from n r (i # zs) =
     tryE (zone_allocate r i n) (\<lambda>(page_base, r).
       case page_base of Some a \<Rightarrow> Inr (Some a, r) | None \<Rightarrow> allocate_from n r zs)"

definition take_contiguous_free_pages :: "region \<Rightarrow> nat \<Rightarrow> (nat list \<times> region) kresult" where
  "take_contiguous_free_pages r count =
     (let rounded_page_count = next_power_of_two (word_of_nat count);
          n = count_trailing_zeroes rounded_page_count in
      tryE (allocate_from n r (m_usable_zones r)) (\<lambda>(page_base, r).
      case page_base of
        None \<Rightarrow> Inr ([], r)
      | Some a \<Rightarrow> Inr (map (\<lambda>i. size_add a (i * PAGE_SIZE)) [0..<count], r)))"

definition take_free_page :: "region \<Rightarrow> (nat option \<times> region) kresult" where
  "take_free_page r =
     (case m_usable_zones r of
        [] \<Rightarrow> Inr (None, r)
      | i # _ \<Rightarrow> tryE (zone_allocate r i 0) (\<lambda>(page, r). verifyE (page \<noteq> None) (Inr (page, r))))"

definition zone_index_of :: "region \<Rightarrow> nat \<Rightarrow> nat" where
  "zone_index_of r paddr =
     (let large_zone_base = m_lower r;
          small_zone_base = size_add (m_lower r) (m_large_zones r * large_zone_size) in
      if paddr < small_zone_base then size_sub paddr large_zone_base div large_zone_size
      else m_large_zones r + size_sub paddr small_zone_base div small_zone_size)"

definition return_page :: "region \<Rightarrow> nat \<Rightarrow> region kresult" where
  "return_page r paddr =
     (let zone_index = zone_index_of r paddr in
      if zone_index < length (m_zones r) then
        verifyE (contains (m_zones r ! zone_index) paddr)
          (tryE (deallocate_block (m_zones r ! zone_index) paddr 0) (\<lambda>z.
             let r = r\<lparr>m_zones := (m_zones r)[zone_index := z]\<rparr> in
             Inr (if zone_index \<in> set (m_full_zones r) then append_usable r zone_index else r)))
      else Inl Out_of_bounds)"

end
