(* ===== verification/Physical_Region_Facts.thy ===== *)
theory Physical_Region_Facts
  imports Physical_Region
begin

text \<open>
  The physical region against the set of the addresses of its free pages: rounding to a power of two,
  finding the zone of an address, the two lists of zones, taking and returning pages, and the division of
  the region into zones.
\<close>

section \<open>Rounding up\<close>

text \<open>\<^verbatim>\<open>filled m w v\<close>: a bit of \<open>w\<close> is set when \<open>v\<close> has a bit at that position or up to \<open>m - 1\<close> above it.\<close>

definition filled :: "nat \<Rightarrow> u32 \<Rightarrow> u32 \<Rightarrow> bool" where
  "filled m w v \<longleftrightarrow> (\<forall>n. bit w n \<longleftrightarrow> (\<exists>k < m. bit v (n + k)))"

lemma filled_double:
  assumes "filled m w v"
  shows "filled (2 * m) (w OR drop_bit m w) v"
  unfolding filled_def
proof
  fix n
  have "bit (w OR drop_bit m w) n \<longleftrightarrow> bit w n \<or> bit w (m + n)" by (simp add: bit_or_iff bit_drop_bit_eq)
  also have "\<dots> \<longleftrightarrow> (\<exists>k < m. bit v (n + k)) \<or> (\<exists>k < m. bit v (n + (m + k)))"
    using assms by (simp add: filled_def ac_simps)
  also have "\<dots> \<longleftrightarrow> (\<exists>k < 2 * m. bit v (n + k))"
  proof
    assume "\<exists>k < 2 * m. bit v (n + k)"
    then obtain k where k: "k < 2 * m" "bit v (n + k)" by blast
    show "(\<exists>k < m. bit v (n + k)) \<or> (\<exists>k < m. bit v (n + (m + k)))"
    proof (cases "k < m")
      case False
      with k show ?thesis by (intro disjI2 exI [of _ "k - m"]) auto
    qed (use k in blast)
  next
    assume "(\<exists>k < m. bit v (n + k)) \<or> (\<exists>k < m. bit v (n + (m + k)))"
    then obtain k where "k < m" "bit v (n + k) \<or> bit v (n + (m + k))" by blast
    moreover from this have "k < 2 * m" "m + k < 2 * m" by simp_all
    ultimately show "\<exists>k < 2 * m. bit v (n + k)" by blast
  qed
  finally show "bit (w OR drop_bit m w) n \<longleftrightarrow> (\<exists>k < 2 * m. bit v (n + k))" .
qed

lemma filled_up: "\<exists>w. next_power_of_two v = w + 1 \<and> filled 32 w (v - 1)"
proof -
  have "filled 1 x x" for x by (simp add: filled_def)
  then have "filled 2 (x OR drop_bit 1 x) x" for x using filled_double [of 1 x x] by simp
  from filled_double [OF filled_double [OF filled_double [OF filled_double [OF this]]]] show ?thesis
    unfolding next_power_of_two_def Let_def by (intro exI conjI) (rule refl, simp)
qed

lemma bit_range:
  assumes "(2::nat) ^ j \<le> m" "m < 2 ^ Suc j"
  shows "bit m j"
proof -
  have "m div 2 ^ j = 1" using assms by (intro div_nat_eqI) auto
  then show ?thesis by (simp add: bit_iff_odd)
qed

lemma next_power_of_two_spec:
  assumes "0 < unat v" "unat v \<le> 2 ^ 31"
  obtains n where "n \<le> 31" "next_power_of_two v = 2 ^ n" "unat v \<le> 2 ^ n" "2 ^ n < 2 * unat v"
proof -
  let ?x = "unat v - 1"
  have ux: "unat (v - 1) = ?x" using assms(1) by (simp add: unat_minus_one unat_gt_0)
  have bx: "bit ?x m = bit (v - 1) m" for m unfolding ux [symmetric] by (simp add: bit_unsigned_iff)
  define n where "n = (LEAST n. ?x < 2 ^ n)"
  have ex: "?x < 2 ^ 31" using assms by simp
  have lt: "?x < 2 ^ n" unfolding n_def by (rule LeastI [of _ 31]) (rule ex)
  have n31: "n \<le> 31" unfolding n_def by (rule Least_le) (rule ex)
  have ge: "2 ^ (n - 1) \<le> ?x" if "0 < n" using not_less_Least [of "n - 1" "\<lambda>n. ?x < 2 ^ n"] that by (simp add: n_def)
  obtain w where w: "next_power_of_two v = w + 1" "filled 32 w (v - 1)" using filled_up by blast
  have bits: "bit w j \<longleftrightarrow> j < n" for j
  proof
    assume "bit w j"
    then obtain k where "bit (v - 1) (j + k)" using w(2) by (auto simp: filled_def)
    then have "bit ?x (j + k)" by (simp only: bx)
    then have "2 ^ (j + k) \<le> ?x" by (metis bit_iff_odd div_less even_zero leI)
    with lt have "(2::nat) ^ (j + k) < 2 ^ n" by linarith
    then show "j < n" by simp
  next
    assume j: "j < n"
    then have "bit ?x (n - 1)" using ge lt by (intro bit_range) auto
    then have "bit (v - 1) (n - 1)" by (simp only: bx)
    then have "bit (v - 1) (j + (n - 1 - j))" using j by simp
    moreover have "n - 1 - j < 32" using n31 by simp
    ultimately show "bit w j" using w(2) unfolding filled_def by blast
  qed
  have "w = mask n" by (rule bit_word_eqI) (simp add: bits bit_mask_iff)
  then have "next_power_of_two v = 2 ^ n" using w(1) by (simp add: mask_eq_exp_minus_1)
  moreover have "2 ^ n < 2 * unat v"
  proof (cases "n = 0")
    case False
    then obtain m where "n = Suc m" by (cases n) auto
    with ge assms(1) show ?thesis by simp
  qed (use assms in simp)
  ultimately show thesis using that [of n] n31 lt assms(1) by simp
qed

section \<open>The pages of a region\<close>

definition zone_order :: "region \<Rightarrow> nat \<Rightarrow> nat" where
  "zone_order r i = (if i < m_large_zones r then 12 else 8)"

definition page_addr :: "region \<Rightarrow> nat \<Rightarrow> nat \<Rightarrow> nat" where
  "page_addr r i p = m_lower r +
     (if i < m_large_zones r then i * large_zone_size
      else m_large_zones r * large_zone_size + (i - m_large_zones r) * small_zone_size) + p * PAGE_SIZE"

definition region_rel :: "region \<Rightarrow> nat set list \<Rightarrow> bool" where
  "region_rel r Fs \<longleftrightarrow> length Fs = length (m_zones r) \<and> m_large_zones r \<le> length (m_zones r) \<and>
     page_addr r (length (m_zones r)) 0 < 2 ^ 64 \<and>
     (\<forall>i < length (m_zones r). zone_free (m_zones r ! i) (zone_order r i) (Fs ! i) \<and>
        m_base_address (m_zones r ! i) = page_addr r i 0) \<and>
     distinct (m_usable_zones r @ m_full_zones r) \<and>
     set (m_usable_zones r) = {i. i < length (m_zones r) \<and> Fs ! i \<noteq> {}} \<and>
     set (m_full_zones r) = {i. i < length (m_zones r) \<and> Fs ! i = {}}"

definition region_pages :: "region \<Rightarrow> nat set list \<Rightarrow> nat set" where
  "region_pages r Fs = (\<Union>i < length Fs. page_addr r i ` (Fs ! i))"

text \<open>\<^verbatim>\<open>region_free r A\<close>: the zones of the region are consistent and on the right lists, and \<open>A\<close> are the
  addresses of its free pages.\<close>

definition region_free :: "region \<Rightarrow> nat set \<Rightarrow> bool" where
  "region_free r A \<longleftrightarrow> (\<exists>Fs. region_rel r Fs \<and> A = region_pages r Fs)"

lemma zone_pages: "(2::nat) ^ zone_order r i * PAGE_SIZE = (if i < m_large_zones r then large_zone_size else small_zone_size)"
  by (simp add: zone_order_def large_zone_size_def small_zone_size_def)

lemma page_addr_next: "page_addr r i 0 + 2 ^ zone_order r i * PAGE_SIZE = page_addr r (Suc i) 0"
  by (auto simp: page_addr_def zone_pages less_Suc_eq Suc_diff_le not_less dest: le_antisym)

lemma page_addr_mono: "i \<le> j \<Longrightarrow> page_addr r i 0 \<le> page_addr r j 0"
proof (induction j)
  case (Suc j)
  then show ?case using page_addr_next [of r j] by (cases "i = Suc j") auto
qed simp

lemma page_addr_page: "page_addr r i p = page_addr r i 0 + p * PAGE_SIZE"
  by (simp add: page_addr_def)

lemma page_addr_less:
  assumes "region_rel r Fs" "i < length (m_zones r)" "p < 2 ^ zone_order r i"
  shows "page_addr r i p < page_addr r (Suc i) 0" "page_addr r (Suc i) 0 < 2 ^ 64"
proof -
  show "page_addr r i p < page_addr r (Suc i) 0"
    using assms(3) page_addr_next [of r i] page_addr_page [of r i p] by simp
  show "page_addr r (Suc i) 0 < 2 ^ 64"
    using assms(1,2) page_addr_mono [of "Suc i" "length (m_zones r)" r] by (auto simp: region_rel_def)
qed

lemma div_times_add: "c < s \<Longrightarrow> (a * s + c) div s = (a :: nat)"
  by simp

lemma zone_index_of_page:
  assumes rel: "region_rel r Fs" and i: "i < length (m_zones r)" and p: "p < 2 ^ zone_order r i"
  shows "zone_index_of r (page_addr r i p) = i"
proof -
  let ?M = "m_large_zones r" and ?L = "m_lower r"
  have M: "?M \<le> length (m_zones r)" using rel by (simp add: region_rel_def)
  have base: "page_addr r ?M 0 = ?L + ?M * large_zone_size" by (simp add: page_addr_def)
  have "page_addr r ?M 0 < 2 ^ 64"
    using page_addr_mono [OF M, of r] rel by (auto simp: region_rel_def)
  then have sz: "size_add ?L (?M * large_zone_size) = ?L + ?M * large_zone_size" using base by (simp add: size_add_eq)
  have a64: "page_addr r i p < 2 ^ 64" using page_addr_less [OF rel i p] by linarith
  show ?thesis
  proof (cases "i < ?M")
    case True
    then have p': "p < 4096" using p by (simp add: zone_order_def)
    have "page_addr r i p < page_addr r ?M 0"
      using page_addr_less(1) [OF rel i p] page_addr_mono [of "Suc i" ?M r] True by simp
    moreover have "size_sub (page_addr r i p) ?L = i * large_zone_size + p * PAGE_SIZE"
      using a64 True by (simp add: page_addr_def size_sub_eq)
    moreover have "(i * large_zone_size + p * PAGE_SIZE) div large_zone_size = i"
      using p' by (intro div_times_add) (simp add: large_zone_size_def)
    ultimately show ?thesis using sz base by (simp add: zone_index_of_def Let_def)
  next
    case False
    then have p': "p < 256" using p by (simp add: zone_order_def)
    have "\<not> page_addr r i p < ?L + ?M * large_zone_size" using False by (simp add: page_addr_def)
    moreover have "size_sub (page_addr r i p) (?L + ?M * large_zone_size) = (i - ?M) * small_zone_size + p * PAGE_SIZE"
      using a64 False by (simp add: page_addr_def size_sub_eq)
    moreover have "((i - ?M) * small_zone_size + p * PAGE_SIZE) div small_zone_size = i - ?M"
      using p' by (intro div_times_add) (simp add: small_zone_size_def)
    ultimately show ?thesis using sz False by (simp add: zone_index_of_def Let_def)
  qed
qed

lemma page_addr_inject:
  assumes "region_rel r Fs" "i < length (m_zones r)" "p < 2 ^ zone_order r i" "j < length (m_zones r)" "q < 2 ^ zone_order r j"
    "page_addr r i p = page_addr r j q"
  shows "i = j \<and> p = q"
proof -
  have "i = j" using zone_index_of_page [OF assms(1-3)] zone_index_of_page [OF assms(1,4,5)] assms(6) by simp
  moreover have "p = q" if "i = j"
    using assms(6) page_addr_page [of r j p] page_addr_page [of r j q] that by simp
  ultimately show ?thesis by simp
qed

text \<open>Operations on pages keep the layout of the zones.\<close>

definition same_layout :: "region \<Rightarrow> region \<Rightarrow> bool" where
  "same_layout r r' \<longleftrightarrow> m_lower r' = m_lower r \<and> m_large_zones r' = m_large_zones r \<and> length (m_zones r') = length (m_zones r)"

lemma same_layoutD:
  assumes "same_layout r r'"
  shows "page_addr r' = page_addr r" "zone_order r' = zone_order r" "length (m_zones r') = length (m_zones r)"
  using assms by (simp_all add: same_layout_def fun_eq_iff page_addr_def zone_order_def)

lemma same_layout_refl [simp]: "same_layout r r"
  by (simp add: same_layout_def)

lemma same_layout_zones [simp]:
  "same_layout r (r\<lparr>m_zones := (m_zones r)[i := z]\<rparr>)" "same_layout r (append_full r' i) = same_layout r r'"
  "same_layout r (append_usable r' i) = same_layout r r'"
  by (simp_all add: same_layout_def append_full_def append_usable_def)

lemma zone_order_cong [simp]:
  "zone_order (r\<lparr>m_zones := zs\<rparr>) = zone_order r" "zone_order (r\<lparr>m_usable_zones := u\<rparr>) = zone_order r"
  "zone_order (r\<lparr>m_full_zones := f\<rparr>) = zone_order r" "zone_order (append_full r i) = zone_order r"
  "zone_order (append_usable r i) = zone_order r"
  by (simp_all add: fun_eq_iff zone_order_def append_full_def append_usable_def)

lemma page_addr_cong [simp]:
  "page_addr (r\<lparr>m_zones := zs\<rparr>) = page_addr r" "page_addr (r\<lparr>m_usable_zones := u\<rparr>) = page_addr r"
  "page_addr (r\<lparr>m_full_zones := f\<rparr>) = page_addr r" "page_addr (append_full r i) = page_addr r"
  "page_addr (append_usable r i) = page_addr r"
  by (simp_all add: fun_eq_iff page_addr_def append_full_def append_usable_def)

lemma region_rel_zone:
  assumes "region_rel r Fs" "i < length (m_zones r)"
  shows "zone_free (m_zones r ! i) (zone_order r i) (Fs ! i)" "m_base_address (m_zones r ! i) = page_addr r i 0"
    "p \<in> Fs ! i \<Longrightarrow> p < 2 ^ zone_order r i" "length Fs = length (m_zones r)"
  using assms zone_free_in [of "m_zones r ! i" "zone_order r i" "Fs ! i"] by (auto simp: region_rel_def)

lemma region_pages_remove:
  assumes rel: "region_rel r Fs" and i: "i < length (m_zones r)" and B: "B \<subseteq> Fs ! i"
  shows "region_pages r (Fs[i := Fs ! i - B]) = region_pages r Fs - page_addr r i ` B"
proof -
  have len: "length Fs = length (m_zones r)" using region_rel_zone(4) [OF rel i] .
  have inj: "page_addr r j p = page_addr r i q \<longleftrightarrow> j = i \<and> p = q" if "j < length Fs" "p \<in> Fs ! j" "q \<in> B" for j p q
    using page_addr_inject [OF rel, of j p i q] region_rel_zone(3) [OF rel, of j p] region_rel_zone(3) [OF rel i, of q] that len i B
    by auto
  show ?thesis
  proof (intro set_eqI iffI)
    fix a assume "a \<in> region_pages r (Fs[i := Fs ! i - B])"
    then obtain j p where jp: "j < length Fs" "p \<in> Fs[i := Fs ! i - B] ! j" "a = page_addr r j p" by (auto simp: region_pages_def)
    then have "p \<in> Fs ! j" "\<not> (j = i \<and> p \<in> B)" using i len by (auto simp: nth_list_update split: if_splits)
    with jp inj show "a \<in> region_pages r Fs - page_addr r i ` B" by (auto simp: region_pages_def)
  next
    fix a assume "a \<in> region_pages r Fs - page_addr r i ` B"
    then obtain j p where jp: "j < length Fs" "p \<in> Fs ! j" "a = page_addr r j p" "a \<notin> page_addr r i ` B" by (auto simp: region_pages_def)
    then have "p \<in> Fs[i := Fs ! i - B] ! j" using i len by (auto simp: nth_list_update)
    with jp show "a \<in> region_pages r (Fs[i := Fs ! i - B])" by (auto simp: region_pages_def)
  qed
qed

lemma region_pages_add:
  assumes "i < length Fs"
  shows "region_pages r (Fs[i := Fs ! i \<union> B]) = region_pages r Fs \<union> page_addr r i ` B"
proof (intro set_eqI iffI)
  fix a assume "a \<in> region_pages r (Fs[i := Fs ! i \<union> B])"
  then obtain j p where "j < length Fs" "p \<in> Fs[i := Fs ! i \<union> B] ! j" "a = page_addr r j p" by (auto simp: region_pages_def)
  then show "a \<in> region_pages r Fs \<union> page_addr r i ` B"
    by (cases "j = i") (auto simp: region_pages_def nth_list_update)
next
  fix a assume "a \<in> region_pages r Fs \<union> page_addr r i ` B"
  then consider p where "p \<in> B" "a = page_addr r i p" | j p where "j < length Fs" "p \<in> Fs ! j" "a = page_addr r j p"
    by (auto simp: region_pages_def)
  then show "a \<in> region_pages r (Fs[i := Fs ! i \<union> B])"
  proof cases
    case 1
    with assms show ?thesis unfolding region_pages_def by (intro UN_I [of i]) auto
  next
    case 2
    with assms show ?thesis unfolding region_pages_def by (intro UN_I [of j]) (auto simp: nth_list_update)
  qed
qed

lemma region_rel_update:
  assumes rel: "region_rel r Fs" and i: "i < length (m_zones r)"
    and z: "zone_free z (zone_order r i) F" "m_base_address z = page_addr r i 0"
    and lists: "distinct (u @ f)" "set u = {j. j < length (m_zones r) \<and> Fs[i := F] ! j \<noteq> {}}"
      "set f = {j. j < length (m_zones r) \<and> Fs[i := F] ! j = {}}"
  shows "region_rel (r\<lparr>m_zones := (m_zones r)[i := z], m_usable_zones := u, m_full_zones := f\<rparr>) (Fs[i := F])"
  using assms unfolding region_rel_def by (auto simp: nth_list_update)

text \<open>The list a zone belongs on after an allocation and after a page has come back.\<close>

lemma region_lists:
  assumes "region_rel r Fs" "i < length (m_zones r)"
  shows "distinct (m_usable_zones r)" "distinct (m_full_zones r)" "set (m_usable_zones r) \<inter> set (m_full_zones r) = {}"
    "j \<in> set (m_usable_zones r) \<longleftrightarrow> j < length (m_zones r) \<and> Fs ! j \<noteq> {}"
    "j \<in> set (m_full_zones r) \<longleftrightarrow> j < length (m_zones r) \<and> Fs ! j = {}"
    "Fs[i := F] ! j = (if j = i then F else Fs ! j)"
  using assms by (auto simp: region_rel_def nth_list_update)

lemma region_rel_full:
  assumes rel: "region_rel r Fs" and i: "i < length (m_zones r)"
    and z: "zone_free z (zone_order r i) F" "m_base_address z = page_addr r i 0" and F: "F = {}"
  shows "region_rel (append_full (r\<lparr>m_zones := (m_zones r)[i := z]\<rparr>) i) (Fs[i := F])"
proof -
  note l = region_lists [OF rel i]
  have "region_rel (r\<lparr>m_zones := (m_zones r)[i := z], m_usable_zones := removeAll i (m_usable_zones r),
      m_full_zones := removeAll i (m_full_zones r) @ [i]\<rparr>) (Fs[i := F])"
  proof (rule region_rel_update [OF rel i z])
    show "distinct (removeAll i (m_usable_zones r) @ (removeAll i (m_full_zones r) @ [i]))"
      using l(1,2,3) by (auto simp: distinct_removeAll)
  qed (use i F in \<open>auto simp: l(4,5,6)\<close>)
  then show ?thesis by (simp add: append_full_def)
qed

lemma region_rel_usable:
  assumes rel: "region_rel r Fs" and i: "i < length (m_zones r)"
    and z: "zone_free z (zone_order r i) F" "m_base_address z = page_addr r i 0" and F: "F \<noteq> {}"
  shows "region_rel (append_usable (r\<lparr>m_zones := (m_zones r)[i := z]\<rparr>) i) (Fs[i := F])"
proof -
  note l = region_lists [OF rel i]
  have "region_rel (r\<lparr>m_zones := (m_zones r)[i := z], m_usable_zones := removeAll i (m_usable_zones r) @ [i],
      m_full_zones := removeAll i (m_full_zones r)\<rparr>) (Fs[i := F])"
  proof (rule region_rel_update [OF rel i z])
    show "distinct ((removeAll i (m_usable_zones r) @ [i]) @ removeAll i (m_full_zones r))"
      using l(1,2,3) by (auto simp: distinct_removeAll)
  qed (use i F in \<open>auto simp: l(4,5,6)\<close>)
  then show ?thesis by (simp add: append_usable_def)
qed

lemma region_rel_keep:
  assumes rel: "region_rel r Fs" and i: "i < length (m_zones r)"
    and z: "zone_free z (zone_order r i) F" "m_base_address z = page_addr r i 0" and F: "F \<noteq> {}" "Fs ! i \<noteq> {}"
  shows "region_rel (r\<lparr>m_zones := (m_zones r)[i := z]\<rparr>) (Fs[i := F])"
proof -
  note l = region_lists [OF rel i]
  have "region_rel (r\<lparr>m_zones := (m_zones r)[i := z], m_usable_zones := m_usable_zones r,
      m_full_zones := m_full_zones r\<rparr>) (Fs[i := F])"
  proof (rule region_rel_update [OF rel i z])
    show "distinct (m_usable_zones r @ m_full_zones r)" using l(1,2,3) by simp
  qed (use F in \<open>auto simp: l(4,5,6)\<close>)
  then show ?thesis by simp
qed

section \<open>Taking and returning pages\<close>

text \<open>Allocation from one of the usable zones.\<close>

lemma zone_allocate_ok:
  assumes rel: "region_rel r Fs" and i: "i \<in> set (m_usable_zones r)"
  obtains "zone_allocate r i n = Inr (None, r)" "\<And>p. in_zone (zone_order r i) n p \<Longrightarrow> \<not> block n p \<subseteq> Fs ! i"
  | p r' where "zone_allocate r i n = Inr (Some (page_addr r i p), r')" "in_zone (zone_order r i) n p" "block n p \<subseteq> Fs ! i"
      "region_rel r' (Fs[i := Fs ! i - block n p])" "same_layout r r'"
proof -
  have il: "i < length (m_zones r)" and ne: "Fs ! i \<noteq> {}" using rel i by (auto simp: region_rel_def)
  note zf = region_rel_zone [OF rel il]
  let ?z = "m_zones r ! i" and ?F = "Fs ! i"
  note ok = allocate_block_ok [OF zf(1), of n]
  obtain h z' where a: "allocate_block ?z n = Inr (h, z')" using ok by (cases "allocate_block ?z n") auto
  show thesis
  proof (cases h)
    case None
    with ok a have "z' = ?z" "\<not> (\<exists>p. in_zone (zone_order r i) n p \<and> block n p \<subseteq> ?F)" by auto
    with a None il that(1) show thesis by (simp add: zone_allocate_def Let_def)
  next
    case (Some address)
    with ok a zf(2) obtain p where addr: "address = page_addr r i 0 + p * PAGE_SIZE" and p: "in_zone (zone_order r i) n p" "block n p \<subseteq> ?F"
        "zone_free z' (zone_order r i) (?F - block n p)" "m_base_address z' = page_addr r i 0"
      by auto
    from addr have address: "address = page_addr r i p" by (simp only: page_addr_page [of r i p])
    let ?r1 = "r\<lparr>m_zones := (m_zones r)[i := z']\<rparr>"
    have emp: "is_empty z' \<longleftrightarrow> ?F - block n p = {}"
      using available_eq [OF p(3)] zone_free_finite [OF p(3)] by (auto simp: is_empty_def)
    have "region_rel (if is_empty z' then append_full ?r1 i else ?r1) (Fs[i := ?F - block n p])"
    proof (cases "is_empty z'")
      case True
      with emp have e: "?F - block n p = {}" by blast
      show ?thesis unfolding if_P [OF True] by (rule region_rel_full [OF rel il p(3,4) e])
    next
      case False
      with emp have e: "?F - block n p \<noteq> {}" by blast
      show ?thesis unfolding if_not_P [OF False] by (rule region_rel_keep [OF rel il p(3,4) e ne])
    qed
    with a Some il p address that(2) show thesis by (simp add: zone_allocate_def Let_def split: if_splits)
  qed
qed

lemma allocate_from_ok:
  assumes rel: "region_rel r Fs" and zs: "set zs \<subseteq> set (m_usable_zones r)"
  obtains "allocate_from n r zs = Inr (None, r)" "\<And>i p. i \<in> set zs \<Longrightarrow> in_zone (zone_order r i) n p \<Longrightarrow> \<not> block n p \<subseteq> Fs ! i"
  | i p r' where "allocate_from n r zs = Inr (Some (page_addr r i p), r')" "i \<in> set zs" "in_zone (zone_order r i) n p"
      "block n p \<subseteq> Fs ! i" "region_rel r' (Fs[i := Fs ! i - block n p])" "same_layout r r'"
  using zs
proof (induction zs arbitrary: thesis)
  case Nil
  then show ?case by simp
next
  case (Cons i zs)
  have iu: "i \<in> set (m_usable_zones r)" and sub: "set zs \<subseteq> set (m_usable_zones r)" using Cons.prems(3) by simp_all
  show ?case
  proof (rule zone_allocate_ok [OF rel iu, of n])
    assume none: "zone_allocate r i n = Inr (None, r)" "\<And>p. in_zone (zone_order r i) n p \<Longrightarrow> \<not> block n p \<subseteq> Fs ! i"
    show thesis
    proof (rule Cons.IH [OF _ _ sub])
      assume "allocate_from n r zs = Inr (None, r)"
        "\<And>i p. i \<in> set zs \<Longrightarrow> in_zone (zone_order r i) n p \<Longrightarrow> \<not> block n p \<subseteq> Fs ! i"
      with none Cons.prems(1) show thesis by auto
    next
      fix j p r'
      assume "allocate_from n r zs = Inr (Some (page_addr r j p), r')" "j \<in> set zs" "in_zone (zone_order r j) n p"
        "block n p \<subseteq> Fs ! j" "region_rel r' (Fs[j := Fs ! j - block n p])" "same_layout r r'"
      with none Cons.prems(2) [of j p r'] show thesis by simp
    qed
  next
    fix p r'
    assume "zone_allocate r i n = Inr (Some (page_addr r i p), r')" "in_zone (zone_order r i) n p" "block n p \<subseteq> Fs ! i"
        "region_rel r' (Fs[i := Fs ! i - block n p])" "same_layout r r'"
    with Cons.prems(2) [of i p r'] show thesis by simp
  qed
qed

lemma region_pages_cong: "same_layout r r' \<Longrightarrow> region_pages r' Fs = region_pages r Fs"
  by (simp add: region_pages_def same_layoutD)

lemma region_free_remove:
  assumes "region_rel r Fs" "i < length (m_zones r)" "B \<subseteq> Fs ! i" "region_rel r' (Fs[i := Fs ! i - B])" "same_layout r r'"
  shows "region_free r' (region_pages r Fs - page_addr r i ` B)"
  using assms region_pages_remove [OF assms(1-3)] unfolding region_free_def
  by (metis region_pages_cong)

lemma take_free_page_ok:
  assumes "region_free r A"
  shows "case take_free_page r of
      Inl e \<Rightarrow> False
    | Inr (None, r') \<Rightarrow> r' = r \<and> A = {}
    | Inr (Some a, r') \<Rightarrow> a \<in> A \<and> region_free r' (A - {a}) \<and> same_layout r r'"
proof -
  from assms obtain Fs where rel: "region_rel r Fs" and A: "A = region_pages r Fs" by (auto simp: region_free_def)
  show ?thesis
  proof (cases "m_usable_zones r")
    case Nil
    then have "A = {}" using rel by (auto simp: A region_pages_def region_rel_def)
    with Nil show ?thesis by (simp add: take_free_page_def)
  next
    case (Cons i zs)
    then have iu: "i \<in> set (m_usable_zones r)" by simp
    have il: "i < length (m_zones r)" and ne: "Fs ! i \<noteq> {}" using rel iu by (auto simp: region_rel_def)
    then obtain q where q: "q \<in> Fs ! i" by blast
    have "in_zone (zone_order r i) 0 q" "block 0 q \<subseteq> Fs ! i"
      using region_rel_zone(3) [OF rel il q] q by (simp_all add: in_zone_def block_def)
    then show ?thesis
    proof (rule_tac zone_allocate_ok [OF rel iu, of 0], goal_cases)
      case (2 p r')
      have b: "block 0 p = {p}" by (simp add: block_def)
      have "page_addr r i p \<in> A" using 2(5) il region_rel_zone(4) [OF rel il] by (auto simp: A region_pages_def b)
      with region_free_remove [OF rel il 2(5,6,7)] 2(3,7) Cons show ?case by (simp add: take_free_page_def A b)
    qed blast
  qed
qed

lemma return_page_ok:
  assumes "region_free r A" and "i < length (m_zones r)" and "p < 2 ^ zone_order r i" and "page_addr r i p \<notin> A"
  shows "\<exists>r'. return_page r (page_addr r i p) = Inr r' \<and> region_free r' (insert (page_addr r i p) A) \<and> same_layout r r'"
proof -
  from assms(1) obtain Fs where rel: "region_rel r Fs" and A: "A = region_pages r Fs" by (auto simp: region_free_def)
  note il = assms(2)
  note zf = region_rel_zone [OF rel il]
  let ?a = "page_addr r i p" and ?z = "m_zones r ! i"
  have b: "block 0 p = {p}" by (simp add: block_def)
  have notin: "p \<notin> Fs ! i" using assms(4) il zf(4) by (auto simp: A region_pages_def)
  have inz: "in_zone (zone_order r i) 0 p" using assms(3) by (simp add: in_zone_def)
  have addr: "?a = m_base_address ?z + p * PAGE_SIZE" unfolding zf(2) by (rule page_addr_page)
  have disj: "block 0 p \<inter> Fs ! i = {}" using notin b by simp
  obtain z' where z': "deallocate_block ?z ?a 0 = Inr z'" "zone_free z' (zone_order r i) (Fs ! i \<union> {p})"
      "m_base_address z' = page_addr r i 0"
    using deallocate_block_ok [OF zf(1) inz disj] addr zf(2) b by auto
  have "page_addr r i 0 + 2 ^ zone_order r i * PAGE_SIZE < 2 ^ 64"
    using page_addr_less(2) [OF rel il assms(3)] page_addr_next [of r i] by simp
  then have "contains ?z ?a"
    using zone_free_in [OF zf(1)] zf(2) assms(3) page_addr_less(1) [OF rel il assms(3)] page_addr_next [of r i] addr
    by (simp add: contains_def size_add_eq)
  let ?r1 = "r\<lparr>m_zones := (m_zones r)[i := z']\<rparr>"
  let ?r' = "if i \<in> set (m_full_zones r) then append_usable ?r1 i else ?r1"
  have ret: "return_page r ?a = Inr ?r'"
    using \<open>contains ?z ?a\<close> z'(1) il zone_index_of_page [OF rel il assms(3)] by (simp add: return_page_def Let_def)
  have "region_rel ?r' (Fs[i := Fs ! i \<union> {p}])"
  proof (cases "i \<in> set (m_full_zones r)")
    case True
    have "region_rel (append_usable ?r1 i) (Fs[i := Fs ! i \<union> {p}])" by (rule region_rel_usable [OF rel il z'(2,3)]) simp
    with True show ?thesis by simp
  next
    case False
    then have "Fs ! i \<noteq> {}" using region_lists(5) [OF rel il] il by blast
    then have "region_rel ?r1 (Fs[i := Fs ! i \<union> {p}])" by (intro region_rel_keep [OF rel il z'(2,3)]) simp_all
    with False show ?thesis by simp
  qed
  moreover have "region_pages ?r' (Fs[i := Fs ! i \<union> {p}]) = insert ?a A"
    using region_pages_add [of i Fs r "{p}"] il zf(4) by (simp add: A region_pages_def)
  ultimately have "region_free ?r' (insert ?a A)" unfolding region_free_def by metis
  moreover have "same_layout r ?r'" by simp
  ultimately show ?thesis using ret by blast
qed

lemma take_contiguous_ok:
  assumes "region_free r A" and "0 < count" and "count \<le> 2 ^ 31"
  shows "\<exists>n pages r'. count \<le> 2 ^ n \<and> 2 ^ n < 2 * count \<and> take_contiguous_free_pages r count = Inr (pages, r') \<and>
    (if pages = []
     then r' = r \<and> (\<forall>i p. i < length (m_zones r) \<and> in_zone (zone_order r i) n p \<longrightarrow> \<not> page_addr r i ` block n p \<subseteq> A)
     else \<exists>i p. pages = map (\<lambda>k. page_addr r i p + k * PAGE_SIZE) [0..<count] \<and>
       page_addr r i ` block n p \<subseteq> A \<and> region_free r' (A - page_addr r i ` block n p) \<and>
       i < length (m_zones r) \<and> in_zone (zone_order r i) n p \<and> same_layout r r')"
proof -
  from assms(1) obtain Fs where rel: "region_rel r Fs" and A: "A = region_pages r Fs" by (auto simp: region_free_def)
  have uc: "unat (word_of_nat count :: u32) = count" using assms(3) by (simp add: unat_of_nat take_bit_nat_eq_self)
  obtain n where n: "n \<le> 31" "next_power_of_two (word_of_nat count) = 2 ^ n" "count \<le> 2 ^ n" "2 ^ n < 2 * count"
    using next_power_of_two_spec [of "word_of_nat count"] assms(2,3) unfolding uc by blast
  have ctz: "count_trailing_zeroes (2 ^ n :: u32) = n" using n(1) by (intro ctz_power) simp
  show ?thesis
  proof (rule allocate_from_ok [OF rel order_refl, of n])
    assume none: "allocate_from n r (m_usable_zones r) = Inr (None, r)"
      "\<And>i p. i \<in> set (m_usable_zones r) \<Longrightarrow> in_zone (zone_order r i) n p \<Longrightarrow> \<not> block n p \<subseteq> Fs ! i"
    have "\<not> page_addr r i ` block n p \<subseteq> A" if i: "i < length (m_zones r)" and p: "in_zone (zone_order r i) n p" for i p
    proof
      assume sub: "page_addr r i ` block n p \<subseteq> A"
      have "q \<in> Fs ! i" if q: "q \<in> block n p" for q
      proof -
        have "page_addr r i q \<in> region_pages r Fs" using sub q by (auto simp: A)
        then obtain j q' where j: "j < length Fs" "q' \<in> Fs ! j" "page_addr r i q = page_addr r j q'" by (auto simp: region_pages_def)
        have "q < 2 ^ zone_order r i" using in_zone_block [OF p] q by auto
        with page_addr_inject [OF rel i _ _ _ j(3)] j region_rel_zone(3) [OF rel, of j q'] region_rel_zone(4) [OF rel i] show ?thesis by auto
      qed
      then have "block n p \<subseteq> Fs ! i" by blast
      moreover have "i \<in> set (m_usable_zones r)"
        using region_lists(4) [OF rel i] i \<open>block n p \<subseteq> Fs ! i\<close> by fastforce
      ultimately show False using none(2) p by blast
    qed
    with none n ctz show ?thesis by (auto simp: take_contiguous_free_pages_def)
  next
    fix i p r'
    assume a: "allocate_from n r (m_usable_zones r) = Inr (Some (page_addr r i p), r')" "i \<in> set (m_usable_zones r)"
      "in_zone (zone_order r i) n p" "block n p \<subseteq> Fs ! i" "region_rel r' (Fs[i := Fs ! i - block n p])" "same_layout r r'"
    have il: "i < length (m_zones r)" using region_lists(4) [OF rel] a(2) rel by (auto simp: region_rel_def)
    have sub: "page_addr r i ` block n p \<subseteq> A" using a(4) il region_rel_zone(4) [OF rel il] by (auto simp: A region_pages_def)
    have small: "page_addr r i p + k * PAGE_SIZE < 2 ^ 64" if "k < count" for k
    proof -
      have "p + k \<in> block n p" using that n(3) by (simp add: block_def)
      then have "p + k < 2 ^ zone_order r i" using in_zone_block [OF a(3)] by auto
      from page_addr_less [OF rel il this] page_addr_page [of r i "p + k"] page_addr_page [of r i p] show ?thesis by simp
    qed
    let ?pages = "map (\<lambda>k. page_addr r i p + k * PAGE_SIZE) [0..<count]"
    have "map (\<lambda>k. size_add (page_addr r i p) (k * PAGE_SIZE)) [0..<count] = ?pages"
      using small by (auto simp: size_add_eq)
    then have "take_contiguous_free_pages r count = Inr (?pages, r')"
      using a(1) n(2) ctz by (simp add: take_contiguous_free_pages_def)
    moreover have "?pages \<noteq> []" using assms(2) by simp
    ultimately show ?thesis
      using n(3,4) sub region_free_remove [OF rel il a(4,5,6)] il a(3,6) unfolding A by (intro exI conjI) auto
  qed
qed

section \<open>Cutting a region into zones\<close>

definition free_zones :: "region \<Rightarrow> nat set list" where
  "free_zones r = map (\<lambda>i. {..<2 ^ zone_order r i}) [0..<length (m_zones r)]"

text \<open>\<^verbatim>\<open>fresh r\<close>: every page of every zone is free. \<^verbatim>\<open>with_zone r z large\<close> is the region with one zone more.\<close>

definition fresh :: "region \<Rightarrow> bool" where
  "fresh r \<longleftrightarrow> region_rel r (free_zones r)"

definition with_zone :: "region \<Rightarrow> zone \<Rightarrow> nat \<Rightarrow> region" where
  "with_zone r z large = r\<lparr>m_zones := m_zones r @ [z], m_usable_zones := m_usable_zones r @ [length (m_zones r)],
     m_large_zones := large\<rparr>"

lemma pages_nonempty [simp]: "{..<(2::nat) ^ k} \<noteq> {}"
proof -
  have "0 \<in> {..<(2::nat) ^ k}" by simp
  then show ?thesis by blast
qed

lemma fresh_with_zone:
  assumes r: "fresh r" and large: "large = m_large_zones r \<or> large = Suc (length (m_zones r)) \<and> m_large_zones r = length (m_zones r)"
    and z: "zone_free z (zone_order (with_zone r z large) (length (m_zones r))) {..<2 ^ zone_order (with_zone r z large) (length (m_zones r))}"
      "m_base_address z = page_addr r (length (m_zones r)) 0"
    and top: "page_addr (with_zone r z large) (Suc (length (m_zones r))) 0 < 2 ^ 64"
  shows "fresh (with_zone r z large)"
proof -
  let ?r = "with_zone r z large" and ?n = "length (m_zones r)"
  have rel: "region_rel r (free_zones r)" using r by (simp add: fresh_def)
  have ord: "zone_order ?r i = zone_order r i" if "i < ?n" for i
    using large that by (auto simp: zone_order_def with_zone_def)
  have addr: "page_addr ?r i 0 = page_addr r i 0" if "i \<le> ?n" for i
    using large that by (auto simp: page_addr_def with_zone_def)
  have Fs: "free_zones ?r = free_zones r @ [{..<2 ^ zone_order ?r ?n}]"
    using ord by (simp add: free_zones_def with_zone_def)
  have nth: "free_zones r ! i = {..<2 ^ zone_order r i}" if "i < ?n" for i using that by (simp add: free_zones_def)
  have len: "length (free_zones r) = ?n" by (simp add: free_zones_def)
  have us: "set (m_usable_zones r) = {..<?n}" "set (m_full_zones r) = {}" "distinct (m_usable_zones r)"
    using rel nth pages_nonempty unfolding region_rel_def by (auto simp del: lessThan_empty_iff)
  have zones: "zone_free (m_zones ?r ! i) (zone_order ?r i) (free_zones ?r ! i) \<and> m_base_address (m_zones ?r ! i) = page_addr ?r i 0"
    if "i < Suc ?n" for i
  proof (cases "i < ?n")
    case True
    with rel ord [OF True] addr [of i] len show ?thesis
      unfolding Fs by (auto simp: region_rel_def with_zone_def nth_append)
  next
    case False
    with that have "i = ?n" by simp
    with z addr [of ?n] len show ?thesis unfolding Fs by (simp add: with_zone_def nth_append)
  qed
  have ne: "free_zones ?r ! i \<noteq> {}" if "i < Suc ?n" for i
    using that by (simp add: free_zones_def with_zone_def del: upt_Suc lessThan_empty_iff)
  show ?thesis
    unfolding fresh_def region_rel_def
  proof (intro conjI)
    show "m_large_zones ?r \<le> length (m_zones ?r)" using large rel by (auto simp: with_zone_def region_rel_def)
    show "set (m_usable_zones ?r) = {i. i < length (m_zones ?r) \<and> free_zones ?r ! i \<noteq> {}}"
      using us(1) ne by (auto simp: with_zone_def less_Suc_eq)
    show "set (m_full_zones ?r) = {i. i < length (m_zones ?r) \<and> free_zones ?r ! i = {}}"
      using us(2) ne by (auto simp: with_zone_def)
  qed (use us zones top in \<open>auto simp: with_zone_def free_zones_def\<close>)
qed

text \<open>The loop that makes zones, for the large zones and then for the small ones.\<close>

definition zone_sources_ok :: "(nat \<Rightarrow> nat \<Rightarrow> u8 list \<times> nat) \<Rightarrow> (nat \<Rightarrow> nat \<Rightarrow> freelist_entry list) \<Rightarrow> bool" where
  "zone_sources_ok alloc entries \<longleftrightarrow>
     (\<forall>i. buffers_ok 12 (alloc i) \<and> buffers_ok 8 (alloc i)) \<and> (\<forall>i n. length (entries i n) = n)"

lemma make_large_zones:
  assumes src: "zone_sources_ok alloc entries" and "fresh (r\<lparr>m_large_zones := length (m_zones r)\<rparr>)"
    and "base = page_addr (r\<lparr>m_large_zones := length (m_zones r)\<rparr>) (length (m_zones r)) 0"
    and "base + left * PAGE_SIZE < 2 ^ 64"
  shows "\<exists>r' base' left'. make_zones alloc entries 4096 r base left k = Inr (r', base', left', k + left div 4096) \<and>
    fresh (r'\<lparr>m_large_zones := length (m_zones r')\<rparr>) \<and> length (m_zones r') = length (m_zones r) + left div 4096 \<and>
    base' = page_addr (r'\<lparr>m_large_zones := length (m_zones r')\<rparr>) (length (m_zones r')) 0 \<and>
    base' + left' * PAGE_SIZE < 2 ^ 64 \<and> left' = left mod 4096 \<and> m_lower r' = m_lower r"
  using assms(2-)
proof (induction left arbitrary: r base k rule: less_induct)
  case (less left)
  show ?case
  proof (cases "4096 \<le> left")
    case False
    with less.prems show ?thesis by (simp add: make_zones.simps [of alloc entries 4096])
  next
    case True
    let ?n = "length (m_zones r)" let ?rl = "r\<lparr>m_large_zones := ?n\<rparr>"
    have top: "base + 2 ^ 12 * PAGE_SIZE < 2 ^ 64" using less.prems(3) True by simp
    obtain z where z: "PhysicalZone (alloc ?n) (entries ?n 4096) base 4096 = Inr z" "zone_free z 12 {..<2 ^ 12}" "m_base_address z = base"
      using PhysicalZone_ok [of 12 "entries ?n 4096" "alloc ?n" base] top src by (auto simp: zone_sources_ok_def)
    let ?r1 = "r\<lparr>m_zones := m_zones r @ [z], m_usable_zones := m_usable_zones r @ [?n]\<rparr>"
    have eq: "with_zone ?rl z (Suc ?n) = ?r1\<lparr>m_large_zones := Suc ?n\<rparr>" by (simp add: with_zone_def)
    have nxt: "page_addr (with_zone ?rl z (Suc ?n)) (Suc ?n) 0 = base + 4096 * PAGE_SIZE"
      unfolding less.prems(2) by (simp add: page_addr_def with_zone_def large_zone_size_def)
    have "fresh (with_zone ?rl z (Suc ?n))"
      using less.prems(1,2) z top nxt by (intro fresh_with_zone) (simp_all add: zone_order_def with_zone_def)
    then have fr: "fresh (?r1\<lparr>m_large_zones := length (m_zones ?r1)\<rparr>)" by (simp add: eq)
    have sz: "size_add base (4096 * PAGE_SIZE) = base + 4096 * PAGE_SIZE" using top by (simp add: size_add_eq)
    have b1: "base + 4096 * PAGE_SIZE = page_addr (?r1\<lparr>m_large_zones := length (m_zones ?r1)\<rparr>) (length (m_zones ?r1)) 0"
      using nxt eq by simp
    have l1: "base + 4096 * PAGE_SIZE + (left - 4096) * PAGE_SIZE < 2 ^ 64" using less.prems(3) True by (simp add: algebra_simps)
    have d: "left div 4096 = Suc ((left - 4096) div 4096)" "left mod 4096 = (left - 4096) mod 4096"
      using True by (simp_all add: le_div_geq le_mod_geq)
    from less.IH [OF _ fr b1 l1, of "Suc k"] True z(1) sz show ?thesis
      by (simp add: make_zones.simps [of alloc entries 4096 r base left] Let_def d)
  qed
qed

lemma make_small_zones:
  assumes src: "zone_sources_ok alloc entries" and "fresh r" and "base = page_addr r (length (m_zones r)) 0"
    and "base + left * PAGE_SIZE < 2 ^ 64"
  shows "\<exists>r' base' left'. make_zones alloc entries 256 r base left k = Inr (r', base', left', k + left div 256) \<and>
    fresh r' \<and> length (m_zones r') = length (m_zones r) + left div 256 \<and>
    m_lower r' = m_lower r \<and> m_large_zones r' = m_large_zones r"
  using assms(2-)
proof (induction left arbitrary: r base k rule: less_induct)
  case (less left)
  show ?case
  proof (cases "256 \<le> left")
    case False
    with less.prems show ?thesis by (simp add: make_zones.simps [of alloc entries 256])
  next
    case True
    let ?n = "length (m_zones r)"
    have M: "m_large_zones r \<le> ?n" using less.prems(1) by (simp add: fresh_def region_rel_def)
    have top: "base + 2 ^ 8 * PAGE_SIZE < 2 ^ 64" using less.prems(3) True by simp
    obtain z where z: "PhysicalZone (alloc ?n) (entries ?n 256) base 256 = Inr z" "zone_free z 8 {..<2 ^ 8}" "m_base_address z = base"
      using PhysicalZone_ok [of 8 "entries ?n 256" "alloc ?n" base] top src by (auto simp: zone_sources_ok_def)
    let ?r1 = "r\<lparr>m_zones := m_zones r @ [z], m_usable_zones := m_usable_zones r @ [?n]\<rparr>"
    have eq: "with_zone r z (m_large_zones r) = ?r1" by (simp add: with_zone_def)
    have nxt: "page_addr ?r1 (Suc ?n) 0 = base + 256 * PAGE_SIZE"
      unfolding less.prems(2) using M by (simp add: page_addr_def small_zone_size_def Suc_diff_le)
    have "fresh (with_zone r z (m_large_zones r))"
      using less.prems(1,2) z top nxt M by (intro fresh_with_zone) (simp_all add: zone_order_def with_zone_def)
    then have fr: "fresh ?r1" by (simp add: eq)
    have sz: "size_add base (256 * PAGE_SIZE) = base + 256 * PAGE_SIZE" using top by (simp add: size_add_eq)
    have b1: "base + 256 * PAGE_SIZE = page_addr ?r1 (length (m_zones ?r1)) 0" using nxt by simp
    have l1: "base + 256 * PAGE_SIZE + (left - 256) * PAGE_SIZE < 2 ^ 64" using less.prems(3) True by (simp add: algebra_simps)
    have d: "left div 256 = Suc ((left - 256) div 256)" using True by (simp add: le_div_geq)
    from less.IH [OF _ fr b1 l1, of "Suc k"] True z(1) sz show ?thesis
      by (simp add: make_zones.simps [of alloc entries 256 r base left] Let_def d)
  qed
qed

lemma page_addr_multiple: "\<exists>m. page_addr r n 0 = m_lower r + m * PAGE_SIZE"
proof (induction n)
  case (Suc n)
  then obtain m where "page_addr r n 0 = m_lower r + m * PAGE_SIZE" by blast
  then have "page_addr r (Suc n) 0 = m_lower r + (m + 2 ^ zone_order r n) * PAGE_SIZE"
    using page_addr_next [of r n] by (simp add: algebra_simps)
  then show ?case by blast
qed (simp add: page_addr_def)

lemma pages_upto: "(\<Union>i < n. page_addr r i ` {..<2 ^ zone_order r i}) = {m_lower r + k * PAGE_SIZE |k. m_lower r + k * PAGE_SIZE < page_addr r n 0}"
proof (induction n)
  case 0
  show ?case by (auto simp: page_addr_def)
next
  case (Suc n)
  obtain m where m: "page_addr r n 0 = m_lower r + m * PAGE_SIZE" using page_addr_multiple by blast
  have nx: "page_addr r (Suc n) 0 = m_lower r + (m + 2 ^ zone_order r n) * PAGE_SIZE"
    using page_addr_next [of r n] m by (simp add: algebra_simps)
  have "page_addr r n ` {..<2 ^ zone_order r n} = {m_lower r + k * PAGE_SIZE |k. m \<le> k \<and> k < m + 2 ^ zone_order r n}"
  proof (intro set_eqI iffI)
    fix a assume "a \<in> {m_lower r + k * PAGE_SIZE |k. m \<le> k \<and> k < m + 2 ^ zone_order r n}"
    then obtain k where "a = m_lower r + k * PAGE_SIZE" "m \<le> k" "k < m + 2 ^ zone_order r n" by blast
    then show "a \<in> page_addr r n ` {..<2 ^ zone_order r n}"
      using page_addr_page [of r n "k - m"] m by (intro image_eqI [of _ _ "k - m"]) (auto simp: algebra_simps)
  next
    fix a assume "a \<in> page_addr r n ` {..<2 ^ zone_order r n}"
    then obtain p where p: "p < 2 ^ zone_order r n" "a = page_addr r n p" by auto
    then have "a = m_lower r + (m + p) * PAGE_SIZE" using page_addr_page [of r n p] m by (simp add: algebra_simps)
    with p(1) show "a \<in> {m_lower r + k * PAGE_SIZE |k. m \<le> k \<and> k < m + 2 ^ zone_order r n}"
      by (intro CollectI exI [of _ "m + p"]) simp
  qed
  then have "(\<Union>i < Suc n. page_addr r i ` {..<2 ^ zone_order r i}) =
      {m_lower r + k * PAGE_SIZE |k. k < m} \<union> {m_lower r + k * PAGE_SIZE |k. m \<le> k \<and> k < m + 2 ^ zone_order r n}"
    using Suc m by (auto simp: lessThan_Suc)
  also have "\<dots> = {m_lower r + k * PAGE_SIZE |k. k < m + 2 ^ zone_order r n}" by fastforce
  finally have *: "(\<Union>i < Suc n. page_addr r i ` {..<2 ^ zone_order r i}) = {m_lower r + k * PAGE_SIZE |k. k < m + 2 ^ zone_order r n}" .
  have "m_lower r + k * PAGE_SIZE < m_lower r + M * PAGE_SIZE \<longleftrightarrow> k < M" for k M by simp
  then show ?case unfolding nx * by blast
qed

lemma fresh_pages: "fresh r \<Longrightarrow> region_free r {m_lower r + k * PAGE_SIZE |k. m_lower r + k * PAGE_SIZE < page_addr r (length (m_zones r)) 0}"
proof -
  assume r: "fresh r"
  have "region_pages r (free_zones r) = (\<Union>i < length (m_zones r). page_addr r i ` {..<2 ^ zone_order r i})"
    unfolding region_pages_def by (auto simp: free_zones_def)
  with r pages_upto show ?thesis unfolding region_free_def fresh_def by metis
qed

lemma fresh_empty: "lower < 2 ^ 64 \<Longrightarrow> fresh ((PhysicalRegion lower upper)\<lparr>m_large_zones := 0\<rparr>)"
  by (simp add: fresh_def region_rel_def free_zones_def PhysicalRegion_def page_addr_def)

lemma initialize_zones_ok:
  assumes src: "zone_sources_ok alloc entries" and "lower \<le> upper" "upper < 2 ^ 64"
  shows "\<exists>r. initialize_zones alloc entries (PhysicalRegion lower upper) = Inr r \<and>
    region_free r {lower + k * PAGE_SIZE |k. k < (upper - lower) div PAGE_SIZE div 256 * 256} \<and>
    length (m_zones r) = (upper - lower) div PAGE_SIZE div 4096 + (upper - lower) div PAGE_SIZE mod 4096 div 256 \<and>
    m_large_zones r = (upper - lower) div PAGE_SIZE div 4096 \<and> m_lower r = lower"
proof -
  let ?r = "PhysicalRegion lower upper" and ?P = "(upper - lower) div PAGE_SIZE"
  have P: "m_pages ?r = ?P" "m_zones ?r = []" "m_lower ?r = lower"
    using assms by (simp_all add: PhysicalRegion_def size_sub_eq)
  have "lower + ?P * PAGE_SIZE \<le> upper" using assms(2) div_times_less_eq_dividend [of "upper - lower" PAGE_SIZE] by linarith
  then have top: "lower + ?P * PAGE_SIZE < 2 ^ 64" using assms(3) by linarith
  have f0: "fresh (?r\<lparr>m_large_zones := length (m_zones ?r)\<rparr>)" using fresh_empty [of lower upper] assms by (simp add: P)
  have b0: "lower = page_addr (?r\<lparr>m_large_zones := length (m_zones ?r)\<rparr>) (length (m_zones ?r)) 0" by (simp add: P page_addr_def)
  obtain r1 b1 l1 where *: "make_zones alloc entries 4096 ?r lower ?P 0 = Inr (r1, b1, l1, 0 + ?P div 4096)"
      "fresh (r1\<lparr>m_large_zones := length (m_zones r1)\<rparr>)" "length (m_zones r1) = length (m_zones ?r) + ?P div 4096"
      "b1 = page_addr (r1\<lparr>m_large_zones := length (m_zones r1)\<rparr>) (length (m_zones r1)) 0"
      "b1 + l1 * PAGE_SIZE < 2 ^ 64" "l1 = ?P mod 4096" "m_lower r1 = m_lower ?r"
    using make_large_zones [OF src f0 b0 top, of 0] by (elim exE conjE)
  then have len1: "length (m_zones r1) = ?P div 4096" by (simp add: P)
  note r1 = * [unfolded len1 P add_0]
  let ?r1 = "r1\<lparr>m_large_zones := ?P div 4096\<rparr>"
  obtain r2 b2 l2 where r2: "make_zones alloc entries 256 ?r1 b1 l1 0 = Inr (r2, b2, l2, l1 div 256)" "fresh r2"
      "length (m_zones r2) = ?P div 4096 + l1 div 256" "m_lower r2 = lower" "m_large_zones r2 = ?P div 4096"
    using make_small_zones [OF src r1(2), of b1 l1 0] r1(4,5,7) len1 by auto
  have init: "initialize_zones alloc entries ?r = Inr r2"
    using r1(1) r2(1) P by (simp add: initialize_zones_def large_zone_size_def small_zone_size_def Let_def)
  have "page_addr r2 (length (m_zones r2)) 0 = lower + ?P div 256 * 256 * PAGE_SIZE"
  proof -
    define a c where "a = ?P div 4096" and "c = ?P mod 4096"
    then have "?P = 256 * (16 * a) + c" by simp
    then have P256: "?P div 256 = 16 * a + c div 256" by simp
    have "page_addr r2 (a + c div 256) 0 = lower + (a * large_zone_size + c div 256 * small_zone_size)"
      using r2(4,5) by (simp add: page_addr_def a_def)
    moreover have "length (m_zones r2) = a + c div 256" using r2(3) r1(6) by (simp add: a_def c_def)
    ultimately show ?thesis unfolding P256 by (simp add: large_zone_size_def small_zone_size_def)
  qed
  then have free2: "region_free r2 {lower + k * PAGE_SIZE |k. lower + k * PAGE_SIZE < lower + ?P div 256 * 256 * PAGE_SIZE}"
    using fresh_pages [OF r2(2)] r2(4) by simp
  have "lower + k * PAGE_SIZE < lower + M * PAGE_SIZE \<longleftrightarrow> k < M" for k M by simp
  with free2 have "region_free r2 {lower + k * PAGE_SIZE |k. k < ?P div 256 * 256}" by (simp only:)
  with init r2(3-5) r1(6) show ?thesis by blast
qed

section \<open>Correctness of the region\<close>

text \<open>A region of one megabyte, for the examples.\<close>

definition small_sources :: "(nat \<Rightarrow> nat \<Rightarrow> u8 list \<times> nat) \<times> (nat \<Rightarrow> nat \<Rightarrow> freelist_entry list)" where
  "small_sources = (\<lambda>i n. (replicate 256 0xAA, 0), \<lambda>i n. replicate n unlinked)"

lemma small_sources_ok: "zone_sources_ok (fst small_sources) (snd small_sources)"
proof -
  have "ceil_div (nbits t n) 8 \<le> 256" if "t \<le> 12" for t n
  proof -
    have "(2::nat) ^ (t - n) \<le> 2 ^ 12" using that by (intro power_increasing) auto
    then have "nbits t n \<le> 2048" by (simp add: nbits_def)
    then show ?thesis by (simp add: ceil_div_8)
  qed
  then show ?thesis by (simp add: zone_sources_ok_def small_sources_def buffers_ok_def)
qed

lemma small_region:
  "\<exists>r. initialize_zones (fst small_sources) (snd small_sources) (PhysicalRegion 0x100000 0x200000) = Inr r \<and>
     region_free r {0x100000 + k * PAGE_SIZE |k. k < 256} \<and> length (m_zones r) = 1 \<and> m_large_zones r = 0 \<and> m_lower r = 0x100000"
  using initialize_zones_ok [OF small_sources_ok, of "0x100000" "0x200000"] by simp

text \<open>Cutting a region into zones succeeds and makes every page of the region free, up to the last
  incomplete megabyte, whatever the page entries and bitmap buffers held before.\<close>

theorem initialize_zones_correct:
  assumes "zone_sources_ok alloc entries" and "lower \<le> upper" and "upper < 2 ^ 64"
  shows "\<exists>r. initialize_zones alloc entries (PhysicalRegion lower upper) = Inr r \<and>
    region_free r {lower + k * PAGE_SIZE |k. k < (upper - lower) div PAGE_SIZE div 256 * 256}"
  using initialize_zones_ok [OF assms] by blast

theorem initialize_zones_witness:
  "\<exists>r. initialize_zones (fst small_sources) (snd small_sources) (PhysicalRegion 0x100000 0x200000) = Inr r \<and>
     region_free r {0x100000 + k * PAGE_SIZE |k. k < 256}"
  using initialize_zones_correct [OF small_sources_ok, of "0x100000" "0x200000"] by simp

text \<open>\<^bold>\<open>C28.\<close> Taking a free page never fails a check; it returns nothing only when no page is free, and otherwise
  a free page, which is the only one it removes.\<close>

theorem take_free_page_correct:
  assumes "region_free r A"
  shows "case take_free_page r of
      Inl e \<Rightarrow> False
    | Inr (None, r') \<Rightarrow> r' = r \<and> A = {}
    | Inr (Some a, r') \<Rightarrow> a \<in> A \<and> region_free r' (A - {a})"
  using take_free_page_ok [OF assms] by (auto split: sum.splits prod.splits option.splits)

theorem take_free_page_witness:
  "\<exists>r a r'. initialize_zones (fst small_sources) (snd small_sources) (PhysicalRegion 0x100000 0x200000) = Inr r \<and>
     take_free_page r = Inr (Some a, r') \<and> a \<in> {0x100000 + k * PAGE_SIZE |k. k < 256} \<and>
     region_free r' ({0x100000 + k * PAGE_SIZE |k. k < 256} - {a})"
proof -
  obtain r where r: "initialize_zones (fst small_sources) (snd small_sources) (PhysicalRegion 0x100000 0x200000) = Inr r"
      "region_free r {0x100000 + k * PAGE_SIZE |k. k < 256}" using small_region by blast
  have "0x100000 + 0 * PAGE_SIZE \<in> {0x100000 + k * PAGE_SIZE |k. k < 256}" by (intro CollectI exI [of _ 0]) simp
  then have ne: "{0x100000 + k * PAGE_SIZE |k. k < 256} \<noteq> {}" by blast
  show ?thesis
    using take_free_page_correct [OF r(2)] ne r(1)
    by (cases "take_free_page r") (auto split: prod.splits option.splits)
qed

text \<open>\<^bold>\<open>C29.\<close> Returning a page of one of the region's zones that is not free never fails a check, finds the right
  zone, and makes exactly that page free.\<close>

theorem return_page_correct:
  assumes "region_free r A" and "i < length (m_zones r)" and "p < 2 ^ zone_order r i" and "page_addr r i p \<notin> A"
  shows "\<exists>r'. return_page r (page_addr r i p) = Inr r' \<and> region_free r' (insert (page_addr r i p) A)"
  using return_page_ok [OF assms] by blast

theorem return_page_witness:
  "\<exists>r a r1 r2. initialize_zones (fst small_sources) (snd small_sources) (PhysicalRegion 0x100000 0x200000) = Inr r \<and>
     take_free_page r = Inr (Some a, r1) \<and> return_page r1 a = Inr r2 \<and> region_free r2 {0x100000 + k * PAGE_SIZE |k. k < 256}"
proof -
  let ?A = "{0x100000 + k * PAGE_SIZE |k. k < 256}"
  obtain r where r: "initialize_zones (fst small_sources) (snd small_sources) (PhysicalRegion 0x100000 0x200000) = Inr r"
      "region_free r ?A" "length (m_zones r) = 1" "m_large_zones r = 0" "m_lower r = 0x100000" using small_region by blast
  have "0x100000 + 0 * PAGE_SIZE \<in> ?A" by (intro CollectI exI [of _ 0]) simp
  then have ne: "?A \<noteq> {}" by blast
  obtain a r1 where a: "take_free_page r = Inr (Some a, r1)" "a \<in> ?A" "region_free r1 (?A - {a})" "same_layout r r1"
    using take_free_page_ok [OF r(2)] ne by (cases "take_free_page r") (auto split: prod.splits option.splits)
  then obtain k where k: "a = 0x100000 + k * PAGE_SIZE" "k < 256" by blast
  have addr: "page_addr r1 0 k = a" "zone_order r1 0 = 8" "length (m_zones r1) = 1"
    using same_layoutD [OF a(4)] r k by (simp_all add: page_addr_def zone_order_def)
  have "insert a (?A - {a}) = ?A" using a(2) by blast
  with return_page_correct [OF a(3), of 0 k] addr k(2) r(1) a(1) show ?thesis by auto
qed

text \<open>The caller gives the pages back one by one.\<close>

fun return_pages :: "region \<Rightarrow> nat list \<Rightarrow> region kresult" where
  "return_pages r [] = Inr r"
| "return_pages r (a # as) = tryE (return_page r a) (\<lambda>r. return_pages r as)"

lemma return_run:
  "region_free r A \<Longrightarrow> i < length (m_zones r) \<Longrightarrow> p + c \<le> 2 ^ zone_order r i \<Longrightarrow>
     (\<And>k. k < c \<Longrightarrow> page_addr r i (p + k) \<notin> A) \<Longrightarrow> inj_on (page_addr r i) {..<2 ^ zone_order r i} \<Longrightarrow>
     \<exists>r'. return_pages r (map (\<lambda>k. page_addr r i (p + k)) [0..<c]) = Inr r' \<and>
       region_free r' (A \<union> page_addr r i ` {p..<p + c})"
proof (induction c arbitrary: r A p)
  case (Suc c)
  have p: "p < 2 ^ zone_order r i" using Suc.prems(3) by simp
  obtain r1 where r1: "return_page r (page_addr r i p) = Inr r1" "region_free r1 (insert (page_addr r i p) A)" "same_layout r r1"
    using return_page_ok [OF Suc.prems(1,2) p] Suc.prems(4) [of 0] by auto
  note lay = same_layoutD [OF r1(3)]
  have new: "page_addr r i (Suc p + k) \<notin> insert (page_addr r i p) A" if "k < c" for k
    using Suc.prems(4) [of "Suc k"] that inj_onD [OF Suc.prems(5), of "Suc p + k" p] Suc.prems(3) by auto
  have up: "[0..<Suc c] = 0 # map Suc [0..<c]" by (simp add: upt_conv_Cons map_Suc_upt del: upt_Suc)
  obtain r2 where "return_pages r1 (map (\<lambda>k. page_addr r i (Suc p + k)) [0..<c]) = Inr r2"
      "region_free r2 (insert (page_addr r i p) A \<union> page_addr r i ` {Suc p..<Suc p + c})"
    using Suc.IH [OF r1(2), of "Suc p"] Suc.prems(2,3,5) new unfolding lay by auto
  moreover have "insert (page_addr r i p) A \<union> page_addr r i ` {Suc p..<Suc p + c} = A \<union> page_addr r i ` {p..<p + Suc c}"
  proof -
    have "{p..<p + Suc c} = insert p {Suc p..<Suc p + c}" by auto
    then show ?thesis by simp
  qed
  ultimately show ?case using r1(1) unfolding up by (simp add: comp_def)
qed simp

text \<open>\<^bold>\<open>C31.\<close> Contiguous pages leak unless their number is a power of two: after the caller has returned every
  page it got, the pages between their number and the next power of two are still not free.\<close>

theorem contiguous_pages_leak:
  assumes "region_free r A" and "0 < count" and "count \<le> 2 ^ 31"
    and "take_contiguous_free_pages r count = Inr (got, r')" and "got \<noteq> []"
  shows "\<exists>n r'' B. count \<le> 2 ^ n \<and> 2 ^ n < 2 * count \<and> return_pages r' got = Inr r'' \<and> region_free r'' (A - B) \<and>
    B \<subseteq> A \<and> card B = 2 ^ n - count"
proof -
  obtain n i p where n: "count \<le> 2 ^ n" "2 ^ n < 2 * count" and got: "got = map (\<lambda>k. page_addr r i p + k * PAGE_SIZE) [0..<count]"
      and sub: "page_addr r i ` block n p \<subseteq> A" and free: "region_free r' (A - page_addr r i ` block n p)"
      and il: "i < length (m_zones r)" and z: "in_zone (zone_order r i) n p" and lay: "same_layout r r'"
    using take_contiguous_ok [OF assms(1-3)] assms(4,5) by auto
  have inj: "inj_on (page_addr r i) UNIV"
  proof (rule inj_onI)
    fix x y assume "page_addr r i x = page_addr r i y"
    then show "x = y" using page_addr_page [of r i x] page_addr_page [of r i y] by simp
  qed
  have pg: "got = map (\<lambda>k. page_addr r i (p + k)) [0..<count]"
    unfolding got by (simp add: page_addr_def algebra_simps)
  have blk: "block n p = {p..<p + count} \<union> {p + count..<p + 2 ^ n}" using n(1) by (auto simp: block_def)
  have top: "p + count \<le> 2 ^ zone_order r i" using z n(1) by (simp add: in_zone_def)
  obtain r'' where r'': "return_pages r' got = Inr r''"
      "region_free r'' ((A - page_addr r i ` block n p) \<union> page_addr r i ` {p..<p + count})"
    using return_run [OF free, of i p count] il top inj_on_subset [OF inj] unfolding same_layoutD [OF lay] pg blk by auto
  let ?B = "page_addr r i ` {p + count..<p + 2 ^ n}"
  have "(A - page_addr r i ` block n p) \<union> page_addr r i ` {p..<p + count} = A - ?B"
    using sub unfolding blk by (auto simp: image_Un inj_eq [OF inj])
  moreover have "card ?B = 2 ^ n - count" using card_image [OF inj_on_subset [OF inj]] by simp
  moreover have "?B \<subseteq> A" using sub blk by auto
  ultimately show ?thesis using n r'' by metis
qed

theorem contiguous_pages_leak_witness:
  "\<exists>r got r' r'' B. initialize_zones (fst small_sources) (snd small_sources) (PhysicalRegion 0x100000 0x200000) = Inr r \<and>
     take_contiguous_free_pages r 3 = Inr (got, r') \<and> return_pages r' got = Inr r'' \<and>
     region_free r'' ({0x100000 + k * PAGE_SIZE |k. k < 256} - B) \<and> card B = 1"
proof -
  let ?A = "{0x100000 + k * PAGE_SIZE |k. k < 256}"
  obtain r where r: "initialize_zones (fst small_sources) (snd small_sources) (PhysicalRegion 0x100000 0x200000) = Inr r"
      "region_free r ?A" "length (m_zones r) = 1" "m_large_zones r = 0" "m_lower r = 0x100000" using small_region by blast
  obtain n got r' where n: "3 \<le> (2::nat) ^ n" "(2::nat) ^ n < 2 * 3" "take_contiguous_free_pages r 3 = Inr (got, r')"
      "got = [] \<Longrightarrow> \<forall>i p. i < length (m_zones r) \<and> in_zone (zone_order r i) n p \<longrightarrow> \<not> page_addr r i ` block n p \<subseteq> ?A"
    using take_contiguous_ok [OF r(2), of 3] by auto
  have two: "m = 2" if "3 \<le> (2::nat) ^ m" "(2::nat) ^ m < 2 * 3" for m
  proof -
    have "m < 3" using that power_increasing [of 3 m "2::nat"] by (cases "m < 3") auto
    then consider "m = 0" | "m = 1" | "m = 2" by linarith
    then show ?thesis using that by cases simp_all
  qed
  have n2: "n = 2" by (rule two [OF n(1,2)])
  have "page_addr r 0 ` block 2 0 \<subseteq> ?A" using r by (auto simp: page_addr_def block_def)
  moreover have "in_zone (zone_order r 0) 2 0" using r by (simp add: in_zone_def zone_order_def)
  ultimately have "got \<noteq> []" using n(4) r(3) n2 by auto
  from contiguous_pages_leak [OF r(2) _ _ n(3) this] r(1) n(3) two show ?thesis by fastforce
qed

text \<open>\<^bold>\<open>C30.\<close> Taking \<open>count\<close> contiguous pages never fails a check. It returns nothing only when no zone has an
  aligned run of free pages of the size rounded up to the next power of two; otherwise it returns \<open>count\<close>
  consecutive free pages, and the pages that stop being free are the whole rounded run.\<close>

theorem take_contiguous_correct:
  assumes "region_free r A" and "0 < count" and "count \<le> 2 ^ 31"
  shows "\<exists>n got r'. count \<le> 2 ^ n \<and> 2 ^ n < 2 * count \<and> take_contiguous_free_pages r count = Inr (got, r') \<and>
    (if got = []
     then r' = r \<and> (\<forall>i p. i < length (m_zones r) \<and> in_zone (zone_order r i) n p \<longrightarrow> \<not> page_addr r i ` block n p \<subseteq> A)
     else \<exists>i p. got = map (\<lambda>k. page_addr r i p + k * PAGE_SIZE) [0..<count] \<and>
       page_addr r i ` block n p \<subseteq> A \<and> region_free r' (A - page_addr r i ` block n p) \<and>
       i < length (m_zones r) \<and> in_zone (zone_order r i) n p \<and> same_layout r r')"
  using assms by (rule take_contiguous_ok)

theorem take_contiguous_witness:
  "\<exists>r n got r'. initialize_zones (fst small_sources) (snd small_sources) (PhysicalRegion 0x100000 0x200000) = Inr r \<and>
     take_contiguous_free_pages r 4 = Inr (got, r') \<and> 4 \<le> (2::nat) ^ n"
proof -
  obtain r where r: "initialize_zones (fst small_sources) (snd small_sources) (PhysicalRegion 0x100000 0x200000) = Inr r"
      "region_free r {0x100000 + k * PAGE_SIZE |k. k < 256}" using small_region by blast
  from take_contiguous_correct [OF r(2), of 4] r(1) show ?thesis by fastforce
qed

end
