(* ===== verification/Checked_Integer.thy ===== *)
theory Checked_Integer
  imports Prelude
begin

text \<open>
  \<^verbatim>\<open>AK/Checked.h\<close>: integers that remember whether an operation overflowed. The integer type \<^verbatim>\<open>T\<close> is a pair of
  its signedness and its width, values are mathematical integers inside its range, and what the compiler's
  overflow builtins compute is written out: the result wrapped into the range, and whether the exact result
  was outside it.
\<close>

section \<open>Integer types\<close>

record int_type =
  is_signed :: bool
  width :: nat

definition size_t :: int_type where
  "size_t = \<lparr>is_signed = False, width = 64\<rparr>"

definition i64_t :: int_type where
  "i64_t = \<lparr>is_signed = True, width = 64\<rparr>"

definition min_of :: "int_type \<Rightarrow> int" where
  "min_of T = (if is_signed T then - (2 ^ (width T - 1)) else 0)"

definition max_of :: "int_type \<Rightarrow> int" where
  "max_of T = (if is_signed T then 2 ^ (width T - 1) - 1 else 2 ^ width T - 1)"

definition in_range :: "int_type \<Rightarrow> int \<Rightarrow> bool" where
  "in_range T x \<longleftrightarrow> min_of T \<le> x \<and> x \<le> max_of T"

definition wrap_to :: "int_type \<Rightarrow> int \<Rightarrow> int" where
  "wrap_to T x = (x - min_of T) mod 2 ^ width T + min_of T"

text \<open>Division in C++ rounds towards zero.\<close>

definition trunc_div :: "int \<Rightarrow> int \<Rightarrow> int" where
  "trunc_div a b = sgn a * sgn b * (\<bar>a\<bar> div \<bar>b\<bar>)"

section \<open>Checked integers\<close>

record checked =
  c_value :: int
  c_overflow :: bool

definition Checked :: "int_type \<Rightarrow> int \<Rightarrow> checked" where
  "Checked T x = \<lparr>c_value = wrap_to T x, c_overflow = \<not> in_range T x\<rparr>"

definition has_overflow :: "checked \<Rightarrow> bool" where
  "has_overflow c = c_overflow c"

definition checked_value :: "checked \<Rightarrow> int kresult" where
  "checked_value c = verifyE (\<not> c_overflow c) (Inr (c_value c))"

definition checked_exact :: "int_type \<Rightarrow> checked \<Rightarrow> int \<Rightarrow> checked" where
  "checked_exact T c r = c\<lparr>c_value := wrap_to T r, c_overflow := c_overflow c \<or> \<not> in_range T r\<rparr>"

definition checked_add :: "int_type \<Rightarrow> checked \<Rightarrow> int \<Rightarrow> checked" where
  "checked_add T c other = checked_exact T c (c_value c + other)"

definition checked_sub :: "int_type \<Rightarrow> checked \<Rightarrow> int \<Rightarrow> checked" where
  "checked_sub T c other = checked_exact T c (c_value c - other)"

definition checked_mul :: "int_type \<Rightarrow> checked \<Rightarrow> int \<Rightarrow> checked" where
  "checked_mul T c other = checked_exact T c (c_value c * other)"

definition checked_div :: "int_type \<Rightarrow> checked \<Rightarrow> int \<Rightarrow> checked" where
  "checked_div T c other =
     (if is_signed T \<and> other = -1 \<and> c_value c = min_of T then c\<lparr>c_overflow := True\<rparr>
      else if other = 0 then c\<lparr>c_overflow := True\<rparr>
      else c\<lparr>c_value := trunc_div (c_value c) other\<rparr>)"

definition checked_mod :: "int_type \<Rightarrow> checked \<Rightarrow> int \<Rightarrow> checked" where
  "checked_mod T c other =
     (let initial = c_value c;
          c = checked_div T c other
      in c\<lparr>c_value := wrap_to T (initial - wrap_to T (c_value c * other))\<rparr>)"

definition checked_saturating_sub :: "int_type \<Rightarrow> checked \<Rightarrow> int \<Rightarrow> checked" where
  "checked_saturating_sub T c other =
     (let c = checked_sub T c other
      in (if c_overflow c \<and> other \<le> 0 then c\<lparr>c_value := max_of T\<rparr>
          else if c_overflow c then c\<lparr>c_value := min_of T\<rparr> else c)\<lparr>c_overflow := False\<rparr>)"

definition checked_saturating_add :: "int_type \<Rightarrow> checked \<Rightarrow> int \<Rightarrow> checked" where
  "checked_saturating_add T c other =
     (let c = checked_add T c other
      in (if c_overflow c \<and> other \<ge> 0 then c\<lparr>c_value := max_of T\<rparr>
          else if c_overflow c then c\<lparr>c_value := min_of T\<rparr> else c)\<lparr>c_overflow := False\<rparr>)"

definition checked_saturating_mul :: "int_type \<Rightarrow> checked \<Rightarrow> int \<Rightarrow> checked" where
  "checked_saturating_mul T c other =
     (let either_is_zero = c_value c = 0 \<or> other = 0;
          result_is_positive = (c_value c > 0) = (other > 0);
          c = checked_mul T c other
      in (if c_overflow c
          then if either_is_zero then c\<lparr>c_value := 0\<rparr>
               else if result_is_positive then c\<lparr>c_value := max_of T\<rparr> else c\<lparr>c_value := min_of T\<rparr>
          else c)\<lparr>c_overflow := False\<rparr>)"

text \<open>The operators on two checked integers ask the right one for its value, which verifies that it has not
  overflowed.\<close>

definition checked_op :: "(int_type \<Rightarrow> checked \<Rightarrow> int \<Rightarrow> checked) \<Rightarrow> int_type \<Rightarrow> checked \<Rightarrow> checked \<Rightarrow> checked kresult" where
  "checked_op f T c other =
     (let c = c\<lparr>c_overflow := c_overflow c \<or> c_overflow other\<rparr>
      in tryE (checked_value other) (\<lambda>x. Inr (f T c x)))"

definition checked_greater :: "checked \<Rightarrow> int \<Rightarrow> bool kresult" where
  "checked_greater c x = tryE (checked_value c) (\<lambda>v. Inr (v > x))"

definition addition_would_overflow :: "int_type \<Rightarrow> int \<Rightarrow> int \<Rightarrow> bool" where
  "addition_would_overflow T u v \<longleftrightarrow> \<not> in_range T (u + v)"

definition subtraction_would_overflow :: "int_type \<Rightarrow> int \<Rightarrow> int \<Rightarrow> bool" where
  "subtraction_would_overflow T u v \<longleftrightarrow> \<not> in_range T (u - v)"

definition multiplication_would_overflow :: "int_type \<Rightarrow> int \<Rightarrow> int \<Rightarrow> bool" where
  "multiplication_would_overflow T u v \<longleftrightarrow> \<not> in_range T (u * v)"

definition saturating_add :: "int_type \<Rightarrow> int \<Rightarrow> int \<Rightarrow> int kresult" where
  "saturating_add T a b = checked_value (checked_saturating_add T (Checked T a) b)"

definition saturating_sub :: "int_type \<Rightarrow> int \<Rightarrow> int \<Rightarrow> int kresult" where
  "saturating_sub T a b = checked_value (checked_saturating_sub T (Checked T a) b)"

definition saturating_mul :: "int_type \<Rightarrow> int \<Rightarrow> int \<Rightarrow> int kresult" where
  "saturating_mul T a b = checked_value (checked_saturating_mul T (Checked T a) b)"

section \<open>Wrapping\<close>

definition type_ok :: "int_type \<Rightarrow> bool" where
  "type_ok T \<longleftrightarrow> 0 < width T"

lemma max_min: "type_ok T \<Longrightarrow> max_of T = min_of T + 2 ^ width T - 1"
  by (cases "width T") (auto simp: max_of_def min_of_def type_ok_def)

lemma min_le_0: "min_of T \<le> 0" and max_ge_0: "0 \<le> max_of T"
  by (simp_all add: min_of_def max_of_def)

lemma wrap_in_range: "type_ok T \<Longrightarrow> in_range T (wrap_to T x)"
  by (simp add: in_range_def wrap_to_def max_min)

lemma wrap_id: "type_ok T \<Longrightarrow> in_range T x \<Longrightarrow> wrap_to T x = x"
  by (simp add: in_range_def wrap_to_def max_min)

lemma types_ok [simp]: "type_ok size_t" "type_ok i64_t"
  by (simp_all add: type_ok_def size_t_def i64_t_def)

lemma in_range_size_t: "in_range size_t (int n) \<longleftrightarrow> n < 2 ^ 64"
  by (simp add: in_range_def size_t_def min_of_def max_of_def) linarith

lemma in_range_i64: "in_range i64_t x \<longleftrightarrow> - (2 ^ 63) \<le> x \<and> x < 2 ^ 63"
  by (simp add: in_range_def i64_t_def min_of_def max_of_def) linarith

lemma trunc_div_in_range:
  assumes "in_range T x" "y \<noteq> 0" "\<not> (is_signed T \<and> y = -1 \<and> x = min_of T)" "is_signed T \<or> 0 < y"
  shows "in_range T (trunc_div x y)"
proof -
  have le: "\<bar>x\<bar> div \<bar>y\<bar> \<le> \<bar>x\<bar>" using zdiv_mono2 [of "\<bar>x\<bar>" 1 "\<bar>y\<bar>"] assms(2) by simp
  have nn: "\<bar>\<bar>x\<bar> div \<bar>y\<bar>\<bar> = \<bar>x\<bar> div \<bar>y\<bar>" by (simp add: div_int_pos_iff)
  show ?thesis
  proof (cases "is_signed T")
    case False
    with assms have "0 \<le> x" "0 < y" by (auto simp: in_range_def min_of_def)
    moreover from this have "0 \<le> trunc_div x y" "trunc_div x y \<le> x"
      using le by (auto simp: trunc_div_def pos_imp_zdiv_nonneg_iff sgn_if)
    ultimately show ?thesis using assms(1) min_le_0 [of T] by (auto simp: in_range_def min_of_def False)
  next
    case True
    let ?M = "2 ^ (width T - 1) :: int"
    have x: "- ?M \<le> x" "x < ?M" using assms(1) True by (auto simp: in_range_def min_of_def max_of_def)
    have q: "\<bar>trunc_div x y\<bar> \<le> \<bar>x\<bar>" using le nn by (auto simp: trunc_div_def abs_mult abs_sgn_eq)
    have "trunc_div x y < ?M"
    proof (cases "x = - ?M")
      case True': True
      show ?thesis
      proof (cases "y = 1 \<or> y = -1")
        case True
        with assms(3) True' \<open>is_signed T\<close> have "y = 1" by (auto simp: min_of_def)
        then show ?thesis using x True' by (simp add: trunc_div_def sgn_if)
      next
        case False
        then have "2 \<le> \<bar>y\<bar>" using assms(2) by linarith
        then have "\<bar>x\<bar> div \<bar>y\<bar> \<le> \<bar>x\<bar> div 2" by (intro zdiv_mono2) auto
        also have "\<dots> < \<bar>x\<bar>" using True' by (intro int_div_less_self) auto
        finally have "\<bar>trunc_div x y\<bar> < \<bar>x\<bar>" using True' nn by (auto simp: trunc_div_def abs_mult abs_sgn_eq)
        with True' show ?thesis by simp
      qed
    next
      case False
      with x q show ?thesis by linarith
    qed
    moreover have "- ?M \<le> trunc_div x y" using x q by linarith
    ultimately show ?thesis using True by (auto simp: in_range_def min_of_def max_of_def)
  qed
qed

section \<open>Chains of operations\<close>

text \<open>The exact result of a chain, and whether every intermediate result of it exists and is in range. Dividing
  the lowest value of a signed type by \<open>-1\<close> leaves the range; the remainder of that division counts as
  undefined too.\<close>

datatype chain_step = Add int | Sub int | Mul int | Div int | Mod int

fun checked_step :: "int_type \<Rightarrow> checked \<Rightarrow> chain_step \<Rightarrow> checked" where
  "checked_step T c (Add x) = checked_add T c x"
| "checked_step T c (Sub x) = checked_sub T c x"
| "checked_step T c (Mul x) = checked_mul T c x"
| "checked_step T c (Div x) = checked_div T c x"
| "checked_step T c (Mod x) = checked_mod T c x"

fun exact_step :: "int_type \<Rightarrow> int \<Rightarrow> chain_step \<Rightarrow> int option" where
  "exact_step T a (Add x) = Some (a + x)"
| "exact_step T a (Sub x) = Some (a - x)"
| "exact_step T a (Mul x) = Some (a * x)"
| "exact_step T a (Div x) = (if x = 0 then None else Some (trunc_div a x))"
| "exact_step T a (Mod x) =
     (if x = 0 \<or> is_signed T \<and> x = -1 \<and> a = min_of T then None else Some (a - trunc_div a x * x))"

fun exact_chain :: "int_type \<Rightarrow> int \<Rightarrow> chain_step list \<Rightarrow> int option" where
  "exact_chain T a [] = Some a"
| "exact_chain T a (s # ss) =
     (case exact_step T a s of None \<Rightarrow> None | Some r \<Rightarrow> if in_range T r then exact_chain T r ss else None)"

text \<open>The operands are values of the type.\<close>

definition step_ok :: "int_type \<Rightarrow> chain_step \<Rightarrow> bool" where
  "step_ok T s = (case s of Add x \<Rightarrow> in_range T x | Sub x \<Rightarrow> in_range T x | Mul x \<Rightarrow> in_range T x | Div x \<Rightarrow> in_range T x
     | Mod x \<Rightarrow> in_range T x)"

lemma checked_div_exact:
  assumes "type_ok T" "in_range T x" "in_range T (c_value c)" "\<not> c_overflow c"
  shows "case if x = 0 then None else Some (trunc_div (c_value c) x) of
      None \<Rightarrow> c_overflow (checked_div T c x)
    | Some r \<Rightarrow> if in_range T r then checked_div T c x = c\<lparr>c_value := r\<rparr> else c_overflow (checked_div T c x)"
proof (cases "x = 0 \<or> (is_signed T \<and> x = -1 \<and> c_value c = min_of T)")
  case True
  have "\<not> in_range T (trunc_div (min_of T) (-1))" if "is_signed T"
    using that by (simp add: trunc_div_def min_of_def in_range_def max_of_def sgn_if)
  with True show ?thesis by (auto simp: checked_div_def)
next
  case False
  have "is_signed T \<or> 0 < x" using assms(2) False by (cases "is_signed T") (auto simp: in_range_def min_of_def)
  with False have "in_range T (trunc_div (c_value c) x)" by (intro trunc_div_in_range [OF assms(3)]) auto
  with False show ?thesis by (auto simp: checked_div_def)
qed

lemma trunc_mod_range:
  assumes "in_range T a" "in_range T x" "x \<noteq> 0"
  shows "in_range T (trunc_div a x * x)" "in_range T (a - trunc_div a x * x)"
proof -
  define q where "q = \<bar>a\<bar> div \<bar>x\<bar> * \<bar>x\<bar>"
  have "q + \<bar>a\<bar> mod \<bar>x\<bar> = \<bar>a\<bar>" "0 \<le> \<bar>a\<bar> mod \<bar>x\<bar>" using assms(3) by (simp_all add: q_def)
  moreover have "0 \<le> q" using assms(3) by (simp add: q_def pos_imp_zdiv_nonneg_iff)
  ultimately have q: "0 \<le> q" "q \<le> \<bar>a\<bar>" by linarith+
  have t: "trunc_div a x * x = sgn a * q"
    by (simp add: trunc_div_def q_def abs_sgn [of x] mult.commute mult.left_commute)
  show "in_range T (trunc_div a x * x)" "in_range T (a - trunc_div a x * x)"
    unfolding t using assms(1) q min_le_0 [of T] max_ge_0 [of T]
    by (cases "0 \<le> a"; cases "a = 0"; auto simp: in_range_def sgn_if)+
qed

lemma checked_step_exact:
  assumes T: "type_ok T" and s: "step_ok T s" and c: "in_range T (c_value c)" "\<not> c_overflow c"
  shows "case exact_step T (c_value c) s of
      None \<Rightarrow> c_overflow (checked_step T c s)
    | Some r \<Rightarrow> if in_range T r then checked_step T c s = c\<lparr>c_value := r\<rparr> else c_overflow (checked_step T c s)"
proof (cases s)
  case (Div x)
  with s have "in_range T x" by (simp add: step_ok_def)
  from checked_div_exact [OF T this c] Div show ?thesis by (cases "x = 0") simp_all
next
  case (Mod x)
  with s have x: "in_range T x" by (simp add: step_ok_def)
  show ?thesis
  proof (cases "x = 0 \<or> is_signed T \<and> x = -1 \<and> c_value c = min_of T")
    case True
    with Mod show ?thesis by (auto simp: checked_mod_def checked_div_def)
  next
    case False
    then have "x \<noteq> 0" by simp
    from trunc_mod_range [OF c(1) x this] False Mod T show ?thesis
      by (auto simp: checked_mod_def checked_div_def wrap_id)
  qed
qed (use assms in \<open>auto simp: checked_add_def checked_sub_def checked_mul_def checked_exact_def wrap_id\<close>)

lemma checked_step_overflow: "c_overflow c \<Longrightarrow> c_overflow (checked_step T c s)"
  by (cases s) (auto simp: checked_add_def checked_sub_def checked_mul_def checked_div_def checked_mod_def checked_exact_def Let_def)

lemma checked_chain_overflow: "c_overflow c \<Longrightarrow> c_overflow (foldl (checked_step T) c ss)"
  by (induction ss arbitrary: c) (simp_all add: checked_step_overflow)

lemma checked_chain_ok:
  assumes "type_ok T"
  shows "in_range T (c_value c) \<Longrightarrow> \<not> c_overflow c \<Longrightarrow> \<forall>s \<in> set ss. step_ok T s \<Longrightarrow>
    (case exact_chain T (c_value c) ss of
       None \<Rightarrow> c_overflow (foldl (checked_step T) c ss)
     | Some r \<Rightarrow> foldl (checked_step T) c ss = c\<lparr>c_value := r\<rparr>)"
proof (induction ss arbitrary: c)
  case (Cons s ss)
  from Cons.prems have s: "step_ok T s" by simp
  note st = checked_step_exact [OF assms s Cons.prems(1,2)]
  show ?case
  proof (cases "exact_step T (c_value c) s")
    case None
    with st show ?thesis by (simp add: checked_chain_overflow)
  next
    case (Some r)
    show ?thesis
    proof (cases "in_range T r")
      case True
      with st Some have eq: "checked_step T c s = c\<lparr>c_value := r\<rparr>" by simp
      from Cons.IH [of "c\<lparr>c_value := r\<rparr>"] True Some eq Cons.prems show ?thesis by (simp split: option.splits)
    next
      case False
      with st Some show ?thesis by (simp add: checked_chain_overflow)
    qed
  qed
qed simp

text \<open>\<^bold>\<open>C35.\<close> A chain of checked operations reports an overflow exactly when some exact intermediate result is
  outside the type or undefined, whatever the wrapped values in between are, and otherwise its value is
  the exact result.\<close>

theorem checked_chain_exact:
  assumes "type_ok T" and "in_range T x" and "\<forall>s \<in> set ss. step_ok T s"
  shows "checked_value (foldl (checked_step T) (Checked T x) ss) =
    (case exact_chain T x ss of None \<Rightarrow> Inl Verification_failed | Some r \<Rightarrow> Inr r)"
proof -
  have "c_value (Checked T x) = x" "\<not> c_overflow (Checked T x)" using assms(1,2) by (simp_all add: Checked_def wrap_id)
  then show ?thesis using checked_chain_ok [OF assms(1), of "Checked T x" ss] assms(2,3)
    by (auto simp: checked_value_def split: option.splits)
qed

theorem checked_chain_witness:
  "checked_value (foldl (checked_step size_t) (Checked size_t 5) [Mul 3, Sub 16, Add 20]) = Inl Verification_failed \<and>
   checked_value (foldl (checked_step size_t) (Checked size_t 5) [Mul 4, Sub 16, Add 20]) = Inr 24"
proof -
  have r: "exact_chain size_t 5 [Mul 3, Sub 16, Add 20] = None" "exact_chain size_t 5 [Mul 4, Sub 16, Add 20] = Some 24"
    by (simp_all add: in_range_def size_t_def min_of_def max_of_def)
  have ok: "in_range size_t 5" "\<forall>s \<in> set [Mul 3, Sub 16, Add 20]. step_ok size_t s" "\<forall>s \<in> set [Mul 4, Sub 16, Add 20]. step_ok size_t s"
    by (simp_all add: step_ok_def in_range_def size_t_def min_of_def max_of_def)
  show ?thesis using checked_chain_exact [of size_t 5, OF _ ok(1,2)] checked_chain_exact [of size_t 5, OF _ ok(1,3)] r by simp
qed

text \<open>The saturating operations are the exact ones clamped to the range of the type.\<close>

theorem saturating_clamps:
  assumes "type_ok T" and "in_range T a" and "in_range T b"
  shows "saturating_add T a b = Inr (max (min_of T) (min (max_of T) (a + b))) \<and>
    saturating_sub T a b = Inr (max (min_of T) (min (max_of T) (a - b))) \<and>
    saturating_mul T a b = Inr (max (min_of T) (min (max_of T) (a * b)))"
proof (intro conjI)
  have c: "c_value (Checked T a) = a" "c_overflow (Checked T a) = False" using assms(1,2) by (simp_all add: Checked_def wrap_id)
  note mm = min_le_0 [of T] max_ge_0 [of T]
  show "saturating_add T a b = Inr (max (min_of T) (min (max_of T) (a + b)))"
    using assms mm by (auto simp: saturating_add_def checked_saturating_add_def checked_add_def checked_exact_def c
      checked_value_def Let_def in_range_def wrap_id)
  show "saturating_sub T a b = Inr (max (min_of T) (min (max_of T) (a - b)))"
    using assms mm by (auto simp: saturating_sub_def checked_saturating_sub_def checked_sub_def checked_exact_def c
      checked_value_def Let_def in_range_def wrap_id)
  have "0 < a * b \<longleftrightarrow> a \<noteq> 0 \<and> b \<noteq> 0 \<and> (a > 0) = (b > 0)" by (auto simp: zero_less_mult_iff)
  then show "saturating_mul T a b = Inr (max (min_of T) (min (max_of T) (a * b)))"
    using assms mm by (auto simp: saturating_mul_def checked_saturating_mul_def checked_mul_def checked_exact_def c
      checked_value_def Let_def in_range_def wrap_id)
qed

theorem saturating_witness: "saturating_mul i64_t (2 ^ 62) (- 4) = Inr (- (2 ^ 63))"
  using saturating_clamps [of i64_t "2 ^ 62" "- 4"] by (simp add: in_range_i64) (simp add: min_of_def max_of_def i64_t_def)

end
