(* ===== verification/Elf.thy ===== *)
theory Elf
  imports Checked_Integer
begin

text \<open>
  \<^verbatim>\<open>LibELF/Validation.cpp\<close> and the parts of \<^verbatim>\<open>LibELF/Image.cpp\<close> the kernel uses: the structures of an ELF file
  read from its bytes, the two validators every executable passes through, and the image whose accessors
  check their indices with \<^verbatim>\<open>VERIFY\<close>. A file is the list of its bytes. The unsigned fields are natural numbers,
  below the bound of their width when read from bytes; sums of two 64-bit fields use \<^verbatim>\<open>Checked\<close> or wrap, as in
  the code. Reading outside the bytes is \<^verbatim>\<open>Out_of_bounds\<close>. Debug output is left out.
\<close>

section \<open>Structures in the file\<close>

definition le_nat :: "u8 list \<Rightarrow> nat" where
  "le_nat bs = foldr (\<lambda>b acc. unat b + 256 * acc) bs 0"

definition field :: "u8 list \<Rightarrow> nat \<Rightarrow> nat \<Rightarrow> nat" where
  "field bs off n = le_nat (take n (drop off bs))"

record Elf_Ehdr =
  e_ident :: "u8 list"
  e_type :: nat
  e_machine :: nat
  e_version :: nat
  e_entry :: nat
  e_phoff :: nat
  e_shoff :: nat
  e_flags :: nat
  e_ehsize :: nat
  e_phentsize :: nat
  e_phnum :: nat
  e_shentsize :: nat
  e_shnum :: nat
  e_shstrndx :: nat

record Elf_Phdr =
  p_type :: nat
  p_flags :: nat
  p_offset :: nat
  p_vaddr :: nat
  p_paddr :: nat
  p_filesz :: nat
  p_memsz :: nat
  p_align :: nat

record Elf_Shdr =
  sh_name :: nat
  sh_type :: nat
  sh_offset :: nat
  sh_size :: nat

abbreviation sizeof_Ehdr :: nat where
  "sizeof_Ehdr \<equiv> 64"

abbreviation sizeof_Phdr :: nat where
  "sizeof_Phdr \<equiv> 56"

abbreviation sizeof_Shdr :: nat where
  "sizeof_Shdr \<equiv> 64"

definition Ehdr_at :: "u8 list \<Rightarrow> Elf_Ehdr" where
  "Ehdr_at bs =
     \<lparr>e_ident = take 16 bs, e_type = field bs 16 2, e_machine = field bs 18 2, e_version = field bs 20 4,
      e_entry = field bs 24 8, e_phoff = field bs 32 8, e_shoff = field bs 40 8, e_flags = field bs 48 4,
      e_ehsize = field bs 52 2, e_phentsize = field bs 54 2, e_phnum = field bs 56 2, e_shentsize = field bs 58 2,
      e_shnum = field bs 60 2, e_shstrndx = field bs 62 2\<rparr>"

definition read_Ehdr :: "u8 list \<Rightarrow> Elf_Ehdr kresult" where
  "read_Ehdr bs = (if sizeof_Ehdr \<le> length bs then Inr (Ehdr_at bs) else Inl Out_of_bounds)"

definition Phdr_at :: "u8 list \<Rightarrow> nat \<Rightarrow> Elf_Phdr" where
  "Phdr_at bs off =
     \<lparr>p_type = field bs off 4, p_flags = field bs (off + 4) 4, p_offset = field bs (off + 8) 8,
      p_vaddr = field bs (off + 16) 8, p_paddr = field bs (off + 24) 8, p_filesz = field bs (off + 32) 8,
      p_memsz = field bs (off + 40) 8, p_align = field bs (off + 48) 8\<rparr>"

definition read_Phdr :: "u8 list \<Rightarrow> nat \<Rightarrow> Elf_Phdr kresult" where
  "read_Phdr bs off = (if off + sizeof_Phdr \<le> length bs then Inr (Phdr_at bs off) else Inl Out_of_bounds)"

definition Shdr_at :: "u8 list \<Rightarrow> nat \<Rightarrow> Elf_Shdr" where
  "Shdr_at bs off =
     \<lparr>sh_name = field bs off 4, sh_type = field bs (off + 4) 4, sh_offset = field bs (off + 24) 8, sh_size = field bs (off + 32) 8\<rparr>"

definition read_Shdr :: "u8 list \<Rightarrow> nat \<Rightarrow> Elf_Shdr kresult" where
  "read_Shdr bs off = (if off + sizeof_Shdr \<le> length bs then Inr (Shdr_at bs off) else Inl Out_of_bounds)"

section \<open>Constants\<close>

abbreviation (input) ET_REL :: nat where "ET_REL \<equiv> 1"
abbreviation (input) ET_EXEC :: nat where "ET_EXEC \<equiv> 2"
abbreviation (input) ET_DYN :: nat where "ET_DYN \<equiv> 3"
abbreviation (input) ET_CORE :: nat where "ET_CORE \<equiv> 4"
abbreviation (input) EM_X86_64 :: nat where "EM_X86_64 \<equiv> 62"
abbreviation (input) EM_AARCH64 :: nat where "EM_AARCH64 \<equiv> 183"
abbreviation (input) EM_RISCV :: nat where "EM_RISCV \<equiv> 243"
abbreviation (input) SHN_UNDEF :: nat where "SHN_UNDEF \<equiv> 0"
abbreviation (input) EF_RISCV_FLOAT_ABI :: nat where "EF_RISCV_FLOAT_ABI \<equiv> 6"
abbreviation (input) EF_RISCV_FLOAT_ABI_DOUBLE :: nat where "EF_RISCV_FLOAT_ABI_DOUBLE \<equiv> 4"
abbreviation (input) PT_LOAD :: nat where "PT_LOAD \<equiv> 1"
abbreviation (input) PT_DYNAMIC :: nat where "PT_DYNAMIC \<equiv> 2"
abbreviation (input) PT_INTERP :: nat where "PT_INTERP \<equiv> 3"
abbreviation (input) PT_NOTE :: nat where "PT_NOTE \<equiv> 4"
abbreviation (input) PT_PHDR :: nat where "PT_PHDR \<equiv> 6"
abbreviation (input) PT_TLS :: nat where "PT_TLS \<equiv> 7"
abbreviation (input) PT_RISCV_ATTRIBUTES :: nat where "PT_RISCV_ATTRIBUTES \<equiv> 0x70000003"
abbreviation (input) PT_GNU_EH_FRAME :: nat where "PT_GNU_EH_FRAME \<equiv> 0x6474e550"
abbreviation (input) PT_GNU_STACK :: nat where "PT_GNU_STACK \<equiv> 0x6474e551"
abbreviation (input) PT_GNU_RELRO :: nat where "PT_GNU_RELRO \<equiv> 0x6474e552"
abbreviation (input) PTHREAD_STACK_MAX :: nat where "PTHREAD_STACK_MAX \<equiv> 32 * 1024 * 1024"
abbreviation (input) SHT_SYMTAB :: nat where "SHT_SYMTAB \<equiv> 2"
abbreviation (input) SHT_STRTAB :: nat where "SHT_STRTAB \<equiv> 3"

definition PF_X :: "Elf_Phdr \<Rightarrow> bool" where
  "PF_X ph \<longleftrightarrow> p_flags ph AND 1 \<noteq> 0"

definition PF_W :: "Elf_Phdr \<Rightarrow> bool" where
  "PF_W ph \<longleftrightarrow> p_flags ph AND 2 \<noteq> 0"

definition PF_R :: "Elf_Phdr \<Rightarrow> bool" where
  "PF_R ph \<longleftrightarrow> p_flags ph AND 4 \<noteq> 0"

definition IS_ELF :: "Elf_Ehdr \<Rightarrow> bool" where
  "IS_ELF h \<longleftrightarrow> e_ident h ! 0 = 0x7f \<and> e_ident h ! 1 = 0x45 \<and> e_ident h ! 2 = 0x4c \<and> e_ident h ! 3 = 0x46"

section \<open>Validation of the ELF header\<close>

text \<open>The end of a table of headers, as both validators compute it.\<close>

definition end_of_table :: "nat \<Rightarrow> nat \<Rightarrow> nat \<Rightarrow> checked kresult" where
  "end_of_table offset count entry_size =
     (let total_size = checked_mul size_t (Checked size_t (int count)) (int entry_size)
      in checked_op checked_add size_t (Checked size_t (int offset)) total_size)"

definition validate_elf_header :: "Elf_Ehdr \<Rightarrow> nat \<Rightarrow> bool kresult" where
  "validate_elf_header h file_size =
     (if \<not> IS_ELF h then Inr False
      else if e_ident h ! 4 \<noteq> 2 then Inr False
      else if e_ident h ! 5 \<noteq> 1 then Inr False
      else if e_ident h ! 6 \<noteq> 1 then Inr False
      else if e_ident h ! 7 \<noteq> 0 \<and> e_ident h ! 7 \<noteq> 3 then Inr False
      else if e_ident h ! 8 \<noteq> 0 then Inr False
      else if e_machine h \<notin> {EM_X86_64, EM_AARCH64, EM_RISCV} then Inr False
      else if e_type h \<noteq> ET_EXEC \<and> e_type h \<noteq> ET_DYN \<and> e_type h \<noteq> ET_REL \<and> e_type h \<noteq> ET_CORE then Inr False
      else if e_version h \<noteq> 1 then Inr False
      else if e_ehsize h \<noteq> sizeof_Ehdr then Inr False
      else if e_phnum h \<noteq> 0 \<and> e_phoff h < e_ehsize h \<or> e_shnum h \<noteq> SHN_UNDEF \<and> e_shoff h < e_ehsize h then Inr False
      else if e_phoff h > file_size \<or> e_shoff h > file_size then Inr False
      else if e_phnum h = 0 \<and> e_phoff h \<noteq> 0 then Inr False
      else if e_phnum h \<noteq> 0 \<and> e_phoff h \<noteq> e_ehsize h then Inr False
      else if e_flags h \<noteq> 0 \<and>
          (if e_machine h = EM_RISCV then e_flags h AND EF_RISCV_FLOAT_ABI \<noteq> EF_RISCV_FLOAT_ABI_DOUBLE else True) then Inr False
      else if e_phnum h \<noteq> 0 \<and> e_phentsize h \<noteq> sizeof_Phdr then Inr False
      else if e_shentsize h \<noteq> sizeof_Shdr then Inr False
      else
        tryE (end_of_table (e_phoff h) (e_phnum h) (e_phentsize h)) (\<lambda>end_of_last_program_header.
        if has_overflow end_of_last_program_header then Inr False
        else
          tryE (checked_greater end_of_last_program_header (int file_size)) (\<lambda>past_end.
          if past_end then Inr False
          else
            tryE (checked_value end_of_last_program_header) (\<lambda>end_of_program_headers.
            if e_shoff h \<noteq> SHN_UNDEF \<and> int (e_shoff h) < end_of_program_headers then Inr False
            else
              tryE (end_of_table (e_shoff h) (e_shnum h) (e_shentsize h)) (\<lambda>end_of_last_section_header.
              if has_overflow end_of_last_section_header then Inr False
              else
                tryE (checked_greater end_of_last_section_header (int file_size)) (\<lambda>past_end.
                if past_end then Inr False
                else if e_shstrndx h \<noteq> SHN_UNDEF \<and> e_shstrndx h \<ge> e_shnum h then Inr False
                else Inr True))))))"

section \<open>Validation of the program headers\<close>

text \<open>What one program header comes to: the validation fails, goes on, goes on with the interpreter set, or
  goes on with the stack size set. Whether \<^verbatim>\<open>PTHREAD_STACK_MIN\<close> is defined depends on the build, hence the
  optional bound.\<close>

datatype header_check = Reject | Accept | Interpreter | Stack_size nat

definition check_segment :: "nat \<Rightarrow> nat option \<Rightarrow> Elf_Phdr \<Rightarrow> header_check" where
  "check_segment file_size stack_min ph =
     (if p_type ph = PT_INTERP then
        if addition_would_overflow size_t (int (p_offset ph)) (int (p_filesz ph)) then Reject
        else if p_offset ph + p_filesz ph > file_size then Reject
        else if p_filesz ph \<le> 1 then Reject
        else Interpreter
      else if p_type ph \<in> {PT_LOAD, PT_DYNAMIC, PT_GNU_EH_FRAME, PT_NOTE, PT_PHDR, PT_TLS} then
        if addition_would_overflow size_t (int (p_offset ph)) (int (p_filesz ph)) then Reject
        else if p_offset ph + p_filesz ph > file_size then Reject
        else if PF_X ph \<and> PF_W ph then Reject
        else Accept
      else if p_type ph = PT_GNU_STACK then
        if p_memsz ph \<noteq> 0 then
          if (case stack_min of None \<Rightarrow> False | Some m \<Rightarrow> p_memsz ph < m) \<or> p_memsz ph > PTHREAD_STACK_MAX then Reject
          else if p_memsz ph mod PAGE_SIZE \<noteq> 0 then Reject
          else Stack_size (p_memsz ph)
        else Accept
      else if p_type ph = PT_GNU_RELRO then
        if PF_X ph \<and> PF_W ph then Reject else Accept
      else Reject)"

definition check_program_header :: "Elf_Ehdr \<Rightarrow> nat \<Rightarrow> nat option \<Rightarrow> Elf_Phdr \<Rightarrow> header_check" where
  "check_program_header h file_size stack_min ph =
     (if e_machine h = EM_RISCV \<and> p_type ph = PT_RISCV_ATTRIBUTES then Accept
      else if p_filesz ph > p_memsz ph then Reject
      else if e_type h \<noteq> ET_CORE \<and> p_type ph = PT_LOAD \<and> p_align ph = 0 then Reject
      else if e_type h \<noteq> ET_CORE \<and> p_type ph = PT_LOAD \<and> p_align ph mod PAGE_SIZE \<noteq> 0 then Reject
      else if e_type h \<noteq> ET_CORE \<and> p_type ph = PT_LOAD \<and> p_vaddr ph mod p_align ph \<noteq> p_offset ph mod p_align ph then Reject
      else check_segment file_size stack_min ph)"

fun check_program_headers ::
  "Elf_Ehdr \<Rightarrow> nat \<Rightarrow> nat option \<Rightarrow> u8 list \<Rightarrow> nat list \<Rightarrow> Elf_Phdr option \<times> nat option \<Rightarrow>
   (bool \<times> Elf_Phdr option \<times> nat option) kresult" where
  "check_program_headers h file_size stack_min buffer [] out = Inr (True, out)"
| "check_program_headers h file_size stack_min buffer (header_index # rest) (interpreter, stack_size) =
     tryE (read_Phdr buffer (e_phoff h + header_index * sizeof_Phdr)) (\<lambda>ph.
       case check_program_header h file_size stack_min ph of
         Reject \<Rightarrow> Inr (False, interpreter, stack_size)
       | Accept \<Rightarrow> check_program_headers h file_size stack_min buffer rest (interpreter, stack_size)
       | Interpreter \<Rightarrow> check_program_headers h file_size stack_min buffer rest (Some ph, stack_size)
       | Stack_size n \<Rightarrow> check_program_headers h file_size stack_min buffer rest (interpreter, Some n))"

definition validate_program_headers ::
  "Elf_Ehdr \<Rightarrow> nat \<Rightarrow> nat option \<Rightarrow> u8 list \<Rightarrow> (bool \<times> Elf_Phdr option \<times> nat option) kresult" where
  "validate_program_headers h file_size stack_min buffer =
     tryE (end_of_table (e_phoff h) (e_phnum h) (e_phentsize h)) (\<lambda>end_of_last_program_header.
     if has_overflow end_of_last_program_header then Inr (False, None, None)
     else
       tryE (checked_greater end_of_last_program_header (int (length buffer))) (\<lambda>too_small.
       if too_small then Inr (False, None, None)
       else verifyE (\<not> file_size < length buffer)
              (check_program_headers h file_size stack_min buffer [0..<e_phnum h] (None, None))))"

section \<open>Images\<close>

text \<open>\<^verbatim>\<open>ELF::Image\<close>. The index arguments are 32-bit: an offset is truncated on its way into \<^verbatim>\<open>raw_data\<close>.\<close>

record image =
  m_buffer :: "u8 list"
  m_valid :: bool
  m_symbol_table_section_index :: nat
  m_string_table_section_index :: nat

definition raw_data :: "image \<Rightarrow> nat \<Rightarrow> nat kresult" where
  "raw_data img offset = (let offset = offset mod 2 ^ 32 in verifyE (offset < length (m_buffer img)) (Inr offset))"

definition image_header :: "image \<Rightarrow> Elf_Ehdr kresult" where
  "image_header img = verifyE (length (m_buffer img) \<ge> sizeof_Ehdr) (tryE (raw_data img 0) (\<lambda>_. read_Ehdr (m_buffer img)))"

definition program_header_internal :: "image \<Rightarrow> nat \<Rightarrow> Elf_Phdr kresult" where
  "program_header_internal img index =
     verifyE (m_valid img) (tryE (image_header img) (\<lambda>h. verifyE (index < e_phnum h)
       (tryE (raw_data img (e_phoff h + index * sizeof_Phdr)) (\<lambda>offset. read_Phdr (m_buffer img) offset))))"

definition program_header_count :: "image \<Rightarrow> nat kresult" where
  "program_header_count img = verifyE (m_valid img) (tryE (image_header img) (\<lambda>h. Inr (e_phnum h)))"

definition section_count :: "image \<Rightarrow> nat kresult" where
  "section_count img = verifyE (m_valid img) (tryE (image_header img) (\<lambda>h. Inr (e_shnum h)))"

definition section_header :: "image \<Rightarrow> nat \<Rightarrow> Elf_Shdr kresult" where
  "section_header img index =
     verifyE (m_valid img) (tryE (image_header img) (\<lambda>h. verifyE (index < e_shnum h)
       (tryE (raw_data img (e_shoff h + index * e_shentsize h)) (\<lambda>offset. read_Shdr (m_buffer img) offset))))"

definition table_string :: "image \<Rightarrow> nat \<Rightarrow> nat \<Rightarrow> u8 list kresult" where
  "table_string img table_index offset =
     verifyE (m_valid img) (tryE (section_header img table_index) (\<lambda>sh.
       if sh_type sh \<noteq> SHT_STRTAB then Inr []
       else
         let computed_offset = size_add (sh_offset sh) offset
         in if computed_offset \<ge> length (m_buffer img) then Inr []
            else
              let max_length = min (length (m_buffer img) - computed_offset) PAGE_SIZE
              in tryE (raw_data img computed_offset) (\<lambda>start.
                 Inr (takeWhile (\<lambda>b. b \<noteq> 0) (take max_length (drop start (m_buffer img)))))))"

definition section_header_table_string :: "image \<Rightarrow> nat \<Rightarrow> u8 list kresult" where
  "section_header_table_string img offset =
     verifyE (m_valid img) (tryE (image_header img) (\<lambda>h. table_string img (e_shstrndx h) offset))"

definition is_within_image :: "image \<Rightarrow> nat \<Rightarrow> nat \<Rightarrow> bool" where
  "is_within_image img start n \<longleftrightarrow> start + n \<le> length (m_buffer img)"

definition ELF_STRTAB :: "u8 list" where
  "ELF_STRTAB = [0x2e, 0x73, 0x74, 0x72, 0x74, 0x61, 0x62]"

fun locate_tables :: "image \<Rightarrow> nat \<Rightarrow> nat list \<Rightarrow> image kresult" where
  "locate_tables img shstrndx [] = Inr img"
| "locate_tables img shstrndx (i # rest) =
     tryE (section_header img i) (\<lambda>sh.
       if sh_type sh = SHT_SYMTAB \<and> m_symbol_table_section_index img \<noteq> 0 \<and> m_symbol_table_section_index img \<noteq> i
       then Inr (img\<lparr>m_valid := False\<rparr>)
       else
         let img = (if sh_type sh = SHT_SYMTAB then img\<lparr>m_symbol_table_section_index := i\<rparr> else img)
         in if sh_type sh = SHT_STRTAB \<and> i \<noteq> shstrndx
            then tryE (section_header_table_string img (sh_name sh)) (\<lambda>name.
                   locate_tables (if name = ELF_STRTAB then img\<lparr>m_string_table_section_index := i\<rparr> else img) shstrndx rest)
            else locate_tables img shstrndx rest)"

definition Image_parse :: "nat option \<Rightarrow> u8 list \<Rightarrow> image kresult" where
  "Image_parse stack_min buffer =
     (let img = \<lparr>m_buffer = buffer, m_valid = False, m_symbol_table_section_index = 0, m_string_table_section_index = 0\<rparr>
      in if length buffer < sizeof_Ehdr then Inr img
         else
           tryE (image_header img) (\<lambda>h.
           tryE (validate_elf_header h (length buffer)) (\<lambda>valid.
           if \<not> valid then Inr img
           else
             tryE (validate_program_headers h (length buffer) stack_min buffer) (\<lambda>(valid, _).
             if \<not> valid then Inr img
             else
               let img = img\<lparr>m_valid := True\<rparr>
               in tryE (section_count img) (\<lambda>n. locate_tables img (e_shstrndx h) [0..<n])))))"

definition image_program_headers :: "image \<Rightarrow> Elf_Phdr list kresult" where
  "image_program_headers img =
     tryE (program_header_count img) (\<lambda>n. mapE (program_header_internal img) [0..<n])"

end
