(* ===== verification/Virtual_Range.thy ===== *)
theory Virtual_Range
  imports Checked_Integer
begin

text \<open>
  Ranges of virtual addresses: \<^verbatim>\<open>Kernel/Memory/VirtualRange\<close>, \<^verbatim>\<open>VirtualAddress\<close> and the rounding functions of
  \<^verbatim>\<open>MemoryManager\<close>. Addresses and sizes are natural numbers; every sum and difference of the code wraps at 64 bits.
  The addresses of a process end below the kernel's mapping, whose base is known at boot only and is an argument.
\<close>

section \<open>Rounding\<close>

definition page_round_up :: "nat \<Rightarrow> nat kresult" where
  "page_round_up x =
     (if x > 0xfffffffffffff000 then Inl (Errno EINVAL)
      else Inr (x + PAGE_SIZE - 1 - (x + PAGE_SIZE - 1) mod PAGE_SIZE))"

definition page_round_down :: "nat \<Rightarrow> nat" where
  "page_round_down x = x - x mod PAGE_SIZE"

definition round_up_to_power_of_two :: "nat \<Rightarrow> nat \<Rightarrow> nat" where
  "round_up_to_power_of_two x power_of_two =
     unat (((of_nat x - 1) AND NOT (of_nat power_of_two - 1)) + of_nat power_of_two :: u64)"

section \<open>Ranges\<close>

record virtual_range =
  vbase :: nat
  vsize :: nat

definition vend :: "virtual_range \<Rightarrow> nat" where
  "vend r = size_add (vbase r) (vsize r)"

definition contains_address :: "virtual_range \<Rightarrow> nat \<Rightarrow> bool" where
  "contains_address r vaddr \<longleftrightarrow> vaddr \<ge> vbase r \<and> vaddr < vend r"

definition contains_span :: "virtual_range \<Rightarrow> nat \<Rightarrow> nat \<Rightarrow> bool" where
  "contains_span r b n \<longleftrightarrow> (if size_add b n < b then False else b \<ge> vbase r \<and> size_add b n \<le> vend r)"

definition contains_range :: "virtual_range \<Rightarrow> virtual_range \<Rightarrow> bool" where
  "contains_range r other \<longleftrightarrow> contains_span r (vbase other) (vsize other)"

definition carve :: "virtual_range \<Rightarrow> virtual_range \<Rightarrow> virtual_range list kresult" where
  "carve r taken =
     verifyE (vsize taken mod PAGE_SIZE = 0)
       (Inr (if taken = r then []
        else
          (if vbase taken > vbase r then [\<lparr>vbase = vbase r, vsize = size_sub (vbase taken) (vbase r)\<rparr>] else []) @
          (if vend taken < vend r then [\<lparr>vbase = vend taken, vsize = size_sub (vend r) (vend taken)\<rparr>] else [])))"

definition intersects :: "virtual_range \<Rightarrow> virtual_range \<Rightarrow> bool" where
  "intersects r other \<longleftrightarrow>
     (let (a, b) = (if vbase r > vbase other then (other, r) else (r, other))
      in vbase a < vend b \<and> vbase b < vend a)"

definition intersect :: "virtual_range \<Rightarrow> virtual_range \<Rightarrow> virtual_range kresult" where
  "intersect r other =
     (if r = other then Inr r
      else
        let new_base = max (vbase r) (vbase other);
            new_end = min (vend r) (vend other)
        in verifyE (new_base < new_end) (Inr \<lparr>vbase = new_base, vsize = size_sub new_end new_base\<rparr>))"

definition expand_to_page_boundaries :: "nat \<Rightarrow> nat \<Rightarrow> virtual_range kresult" where
  "expand_to_page_boundaries address n =
     (if size_add address n < address then Inl (Errno EINVAL)
      else
        let b = page_round_down address
        in tryE (page_round_up (size_add address n)) (\<lambda>e. Inr \<lparr>vbase = b, vsize = size_sub e b\<rparr>))"

text \<open>\<^verbatim>\<open>expand_range_to_page_boundaries\<close> of \<^verbatim>\<open>MemoryManager.h\<close> has the same body.\<close>

definition expand_range_to_page_boundaries :: "nat \<Rightarrow> nat \<Rightarrow> virtual_range kresult" where
  "expand_range_to_page_boundaries address n =
     (if size_add address n < address then Inl (Errno EINVAL)
      else
        let b = page_round_down address
        in tryE (page_round_up (size_add address n)) (\<lambda>e. Inr \<lparr>vbase = b, vsize = size_sub e b\<rparr>))"

section \<open>User addresses\<close>

definition USER_RANGE_BASE :: nat where
  "USER_RANGE_BASE = 0x10000"

definition USER_RANGE_CEILING :: "nat \<Rightarrow> nat" where
  "USER_RANGE_CEILING kernel_mapping_base = size_sub kernel_mapping_base 0x2000000"

definition is_user_address :: "nat \<Rightarrow> nat \<Rightarrow> bool" where
  "is_user_address kernel_mapping_base vaddr \<longleftrightarrow> vaddr < USER_RANGE_CEILING kernel_mapping_base"

definition is_user_range :: "nat \<Rightarrow> nat \<Rightarrow> nat \<Rightarrow> bool" where
  "is_user_range kernel_mapping_base vaddr n \<longleftrightarrow>
     (if size_add vaddr n < vaddr then False
      else if \<not> is_user_address kernel_mapping_base vaddr then False
      else if n \<le> 1 then True
      else is_user_address kernel_mapping_base (size_add vaddr (n - 1)))"

section \<open>Lemmas\<close>

text \<open>A range is proper when it does not wrap: its addresses are then the interval from its base to its end.\<close>

definition proper :: "virtual_range \<Rightarrow> bool" where
  "proper r \<longleftrightarrow> 0 < vsize r \<and> vbase r + vsize r < 2 ^ 64 \<and> PAGE_SIZE dvd vbase r \<and> PAGE_SIZE dvd vsize r"

definition addresses :: "virtual_range \<Rightarrow> nat set" where
  "addresses r = {vbase r..<vbase r + vsize r}"

lemma vend_eq: "proper r \<Longrightarrow> vend r = vbase r + vsize r"
  by (simp add: vend_def proper_def size_add_def)

lemma addresses_vend: "proper r \<Longrightarrow> addresses r = {vbase r..<vend r}"
  by (simp add: addresses_def vend_eq)

lemma contains_address_iff: "proper r \<Longrightarrow> contains_address r a \<longleftrightarrow> a \<in> addresses r"
  by (auto simp: contains_address_def addresses_vend)

lemma addresses_disjoint_iff:
  "proper r \<Longrightarrow> proper q \<Longrightarrow> addresses r \<inter> addresses q = {} \<longleftrightarrow> vend r \<le> vbase q \<or> vend q \<le> vbase r"
  by (auto simp: addresses_vend vend_eq proper_def disjoint_iff)

lemma intersects_iff: "proper r \<Longrightarrow> proper q \<Longrightarrow> intersects r q \<longleftrightarrow> addresses r \<inter> addresses q \<noteq> {}"
  unfolding addresses_disjoint_iff by (auto simp: intersects_def vend_eq proper_def)

lemma contains_range_iff: "proper r \<Longrightarrow> proper q \<Longrightarrow> contains_range r q \<longleftrightarrow> addresses q \<subseteq> addresses r"
  by (auto simp: contains_range_def contains_span_def addresses_def vend_eq proper_def size_add_def)

lemma page_round_up_ok:
  assumes "x \<le> 0xfffffffffffff000"
  obtains y where "page_round_up x = Inr y" "x \<le> y" "y < x + PAGE_SIZE" "PAGE_SIZE dvd y"
proof -
  define q r where "q = (x + 4095) div 4096" and "r = (x + 4095) mod 4096"
  have qr: "x + 4095 = q * 4096 + r" "r < 4096" by (simp_all add: q_def r_def)
  have e: "x + PAGE_SIZE - 1 = x + 4095" by simp
  have "page_round_up x = Inr (q * 4096)" unfolding page_round_up_def e r_def [symmetric] using assms qr by simp
  then show ?thesis using qr that by simp
qed

lemma page_round_up_cases:
  obtains "page_round_up x = Inl (Errno EINVAL)" "x > 0xfffffffffffff000"
  | y where "page_round_up x = Inr y" "x \<le> y" "y < x + PAGE_SIZE" "PAGE_SIZE dvd y"
proof (cases "x > 0xfffffffffffff000")
  case True then show ?thesis using that(1) by (simp add: page_round_up_def)
next
  case False then show ?thesis using that(2) page_round_up_ok [of x] by (metis not_less)
qed

lemma page_round_up_aligned: "PAGE_SIZE dvd x \<Longrightarrow> x < 2 ^ 64 \<Longrightarrow> page_round_up x = Inr x"
proof -
  assume a: "PAGE_SIZE dvd x" "x < 2 ^ 64"
  then obtain k where k: "x = 4096 * k" by (auto simp: dvd_def)
  then have "(x + 4095) mod 4096 = 4095" by simp
  then show ?thesis using a k by (simp add: page_round_up_def)
qed

lemma page_round_down_ok: "PAGE_SIZE dvd page_round_down x" "page_round_down x \<le> x" "x < page_round_down x + PAGE_SIZE"
proof -
  have "x = x div 4096 * 4096 + x mod 4096" "x mod 4096 < 4096" by simp_all
  moreover have "page_round_down x = x div 4096 * 4096" by (simp add: page_round_down_def minus_mod_eq_div_mult)
  ultimately have "page_round_down x = x div 4096 * 4096" "page_round_down x \<le> x" "x < page_round_down x + PAGE_SIZE"
    by linarith+
  then show "PAGE_SIZE dvd page_round_down x" "page_round_down x \<le> x" "x < page_round_down x + PAGE_SIZE" by simp_all
qed

lemma low_bits_clear:
  fixes w m :: u64
  assumes "unat m mod 4096 = 4095"
  shows "4096 dvd unat (w AND NOT m)"
proof -
  have tm: "take_bit 12 (unat m) = mask 12" using assms by (simp add: take_bit_eq_mod mask_eq_exp_minus_1)
  have m: "bit m n" if "n < 12" for n
  proof -
    have "bit (take_bit 12 (unat m)) n" using that by (simp add: tm bit_mask_iff)
    then show ?thesis by (simp add: bit_simps)
  qed
  have "take_bit 12 (unat (w AND NOT m)) = 0"
    by (rule bit_eqI) (auto simp: bit_simps dest: m)
  then show ?thesis by (simp add: take_bit_eq_mod dvd_eq_mod_eq_0)
qed

lemma word_and_not: "w AND NOT m = w - (w AND m)" for w m :: "'a::len word"
proof -
  have "(w AND m) + (w AND NOT m) = (w AND m) OR (w AND NOT m)" by (rule disjunctive_add_eq_or) (auto intro: bit_eqI simp: bit_simps)
  also have "\<dots> = w" by (auto intro: bit_eqI simp: bit_simps)
  finally show ?thesis by (simp add: algebra_simps)
qed

lemma unat_of_nat_minus_1: "0 < p \<Longrightarrow> p < 2 ^ 64 \<Longrightarrow> unat (of_nat p - 1 :: u64) = p - 1"
proof -
  assume p: "0 < p" "p < 2 ^ 64"
  then have "of_nat p - 1 = (of_nat (p - 1) :: u64)" by (simp add: of_nat_diff)
  then show ?thesis unfolding unat_of_nat using p by (simp only: unat_of_nat) simp
qed

text \<open>Rounding up to a multiple of the page size, whether a power of two or not, gives a page address that is not
  below the address and less than the multiple above it.\<close>

lemma round_up_aligned:
  assumes "0 < p" "PAGE_SIZE dvd p" "p < 2 ^ 64"
  shows "PAGE_SIZE dvd round_up_to_power_of_two x p"
proof -
  define w m :: u64 where "w = of_nat x - 1" and "m = of_nat p - 1"
  have um: "unat m = p - 1" using unat_of_nat_minus_1 assms by (simp add: m_def)
  obtain k where k: "p = 4096 * k" using assms(2) by (auto simp: dvd_def)
  then have "p - 1 = 4095 + (k - 1) * 4096" using assms(1) by (cases k) simp_all
  then have "unat m mod 4096 = 4095" unfolding um by simp
  then have a: "4096 dvd unat (w AND NOT m)" by (rule low_bits_clear)
  have "round_up_to_power_of_two x p = (unat (w AND NOT m) + p) mod 2 ^ 64"
    using assms(3) by (simp add: round_up_to_power_of_two_def w_def m_def unat_word_ariths unat_of_nat)
  then show ?thesis using a assms(2) by (simp add: dvd_mod_iff)
qed

lemma round_up_less: "round_up_to_power_of_two x p < 2 ^ 64"
  unfolding round_up_to_power_of_two_def by (rule order_less_le_trans [OF unsigned_less]) simp

lemma round_up_ok:
  assumes "0 < p" "x + p < 2 ^ 64"
  shows "x \<le> round_up_to_power_of_two x p \<and> round_up_to_power_of_two x p < x + p"
proof -
  define w m :: u64 where "w = of_nat x - 1" and "m = of_nat p - 1"
  have um: "unat m = p - 1" using unat_of_nat_minus_1 assms by (simp add: m_def)
  define d where "d = unat (m - (w AND m))"
  have wm: "w AND m \<le> m" by (metis and.commute word_and_le1)
  have "(w AND NOT m) + of_nat p = of_nat x + (m - (w AND m))" unfolding word_and_not by (simp add: w_def m_def)
  then have "round_up_to_power_of_two x p = unat (of_nat (x + d) :: u64)"
    unfolding round_up_to_power_of_two_def w_def [symmetric] m_def [symmetric] of_nat_add d_def by simp
  moreover have d: "d < p" using wm um assms(1) by (simp add: d_def unat_sub)
  ultimately have r: "round_up_to_power_of_two x p = x + d" unfolding unat_of_nat using assms(2) by simp
  then show ?thesis using d by simp
qed

end
