(* ===== verification/Exec.thy ===== *)
theory Exec
  imports Elf Virtual_Range
begin

text \<open>
  \<^verbatim>\<open>Kernel/Syscalls/execve.cpp\<close>, from the path to the regions of the new address space: scripts and their
  interpreters, the ELF program interpreter, where an image is loaded, and which regions are made for it. The
  file system and the address space are arguments: \<^verbatim>\<open>open_file\<close> opens a path for execution, \<^verbatim>\<open>place\<close> makes a region
  (and copies into it) and returns its address. Copies of names and of paths are assumed to find memory.
\<close>

section \<open>Files\<close>

text \<open>An open file: its bytes, whether it is a regular file, whether a kernel mapping of it can be made, and
  whether some process has it mapped writable.\<close>

record exec_file =
  f_bytes :: "u8 list"
  f_regular :: bool
  f_vmobject :: "unit kresult"
  f_kernel_region :: "unit kresult"
  f_writable_mappings :: bool

definition read_file :: "exec_file \<Rightarrow> nat \<Rightarrow> nat \<Rightarrow> u8 list" where
  "read_file f offset n = take n (drop offset (f_bytes f))"

definition map_image :: "nat option \<Rightarrow> exec_file \<Rightarrow> image kresult" where
  "map_image stack_min f =
     tryE (f_vmobject f) (\<lambda>_. tryE (page_round_up (length (f_bytes f))) (\<lambda>_. tryE (f_kernel_region f) (\<lambda>_.
       Image_parse stack_min (f_bytes f))))"

section \<open>Where to load\<close>

record load_range =
  range_start :: nat
  range_end :: nat

definition extend_range :: "load_range \<Rightarrow> Elf_Phdr \<Rightarrow> load_range" where
  "extend_range rng ph =
     (if p_type ph \<noteq> PT_LOAD then rng
      else
        let region_start = p_vaddr ph;
            region_end = size_add region_start (p_memsz ph);
            rng = (if range_start rng = 0 \<or> region_start < range_start rng then rng\<lparr>range_start := region_start\<rparr> else rng)
        in if range_end rng = 0 \<or> region_end > range_end rng then rng\<lparr>range_end := region_end\<rparr> else rng)"

definition get_required_load_range :: "nat option \<Rightarrow> exec_file \<Rightarrow> load_range kresult" where
  "get_required_load_range stack_min f =
     tryE (map_image stack_min f) (\<lambda>img.
       if \<not> m_valid img then Inl (Errno EINVAL)
       else
         tryE (image_program_headers img) (\<lambda>hs.
           let rng = foldl extend_range \<lparr>range_start = 0, range_end = 0\<rparr> hs
           in if range_start rng = range_end rng then Inl (Errno EINVAL)
              else verifyE (range_end rng > range_start rng) (Inr rng)))"

definition load_range_start :: nat where
  "load_range_start = 0x08000000"

definition load_range_size :: nat where
  "load_range_size = 65536 * PAGE_SIZE"

definition minimum_load_offset_randomization_size :: nat where
  "minimum_load_offset_randomization_size = 10 * 1024 * 1024"

definition random_load_offset_in_range :: "nat \<Rightarrow> nat \<Rightarrow> nat \<Rightarrow> nat" where
  "random_load_offset_in_range random start n = page_round_down (size_add start (random mod n))"

definition range_length :: "load_range \<Rightarrow> nat" where
  "range_length r = size_sub (range_end r) (range_start r)"

text \<open>The choice between the parts of the load range before and after the main program; \<open>None\<close> when the main
  program does not meet it.\<close>

definition select_load_range :: "load_range \<Rightarrow> load_range \<Rightarrow> load_range option" where
  "select_load_range main_program_load_range interpreter_load_range =
     (let interpreter_size_in_memory = range_length interpreter_load_range;
          interpreter_load_range_end = size_sub (load_range_start + load_range_size) interpreter_size_in_memory
      in if range_end main_program_load_range < load_range_start \<or>
            range_start main_program_load_range > interpreter_load_range_end
         then None
         else
           let first_available_part = \<lparr>range_start = load_range_start, range_end = range_start main_program_load_range\<rparr>;
               second_available_part = \<lparr>range_start = range_end main_program_load_range, range_end = interpreter_load_range_end\<rparr>
           in Some (if range_length first_available_part > range_length second_available_part
                    then first_available_part else second_available_part))"

definition get_load_offset :: "nat option \<Rightarrow> nat \<Rightarrow> Elf_Ehdr \<Rightarrow> exec_file \<Rightarrow> exec_file option \<Rightarrow> nat kresult" where
  "get_load_offset stack_min random h main_program interpreter =
     (if e_type h = ET_DYN then Inr (random_load_offset_in_range random load_range_start load_range_size)
      else if e_type h \<noteq> ET_EXEC then Inl (Errno EINVAL)
      else
        tryE (get_required_load_range stack_min main_program) (\<lambda>main_program_load_range.
        tryE (case interpreter of
                None \<Rightarrow> Inr (Some main_program_load_range)
              | Some f \<Rightarrow> tryE (get_required_load_range stack_min f) (\<lambda>interpreter_load_range.
                  Inr (select_load_range main_program_load_range interpreter_load_range))) (\<lambda>selected.
        case selected of
          None \<Rightarrow> Inr (random_load_offset_in_range random load_range_start load_range_size)
        | Some selected_range \<Rightarrow>
            if range_length selected_range < minimum_load_offset_randomization_size then Inl (Errno E2BIG)
            else Inr (random_load_offset_in_range random (range_start selected_range) (range_length selected_range)))))"

section \<open>Loading\<close>

record protection =
  prot_read :: bool
  prot_write :: bool
  prot_exec :: bool

text \<open>What is asked of the address space: a fresh region with bytes of the image copied to an offset in it, a
  mapping of the file, or the stack.\<close>

datatype region_request =
    Copy_region nat nat protection nat nat nat
  | Map_region nat nat nat nat protection bool
  | Stack_region nat protection

record load_result =
  load_base :: nat
  entry_eip :: nat
  load_size :: nat
  stack_base :: nat

definition segment_range :: "nat \<Rightarrow> Elf_Phdr \<Rightarrow> (nat \<times> nat) kresult" where
  "segment_range load_offset ph =
     (let range_base = page_round_down (size_add (p_vaddr ph) load_offset)
      in tryE (page_round_up (size_add (size_add (p_vaddr ph) load_offset) (p_memsz ph))) (\<lambda>rounded_range_end.
         Inr (range_base, size_sub rounded_range_end range_base)))"

definition writable_section_request :: "image \<Rightarrow> nat \<Rightarrow> Elf_Phdr \<Rightarrow> region_request kresult" where
  "writable_section_request img load_offset ph =
     verifyE (p_align ph mod PAGE_SIZE = 0)
       (tryE (raw_data img (p_offset ph)) (\<lambda>start.
        if \<not> is_within_image img start (p_filesz ph) then Inl (Errno ENOEXEC)
        else
          tryE (segment_range load_offset ph) (\<lambda>(range_base, n).
          Inr (Copy_region range_base n \<lparr>prot_read = PF_R ph, prot_write = PF_W ph, prot_exec = False\<rparr>
                 (p_vaddr ph mod PAGE_SIZE) start (p_filesz ph)))))"

definition section_request :: "image \<Rightarrow> nat \<Rightarrow> bool \<Rightarrow> Elf_Phdr \<Rightarrow> region_request option kresult" where
  "section_request img load_offset should_allow_syscalls ph =
     (if p_type ph \<noteq> PT_LOAD then Inr None
      else if p_memsz ph = 0 then Inr None
      else if PF_W ph then tryE (writable_section_request img load_offset ph) (\<lambda>r. Inr (Some r))
      else
        verifyE (p_align ph mod PAGE_SIZE = 0)
          (tryE (segment_range load_offset ph) (\<lambda>(range_base, n).
           Inr (Some (Map_region range_base n (p_align ph) (p_offset ph)
             \<lparr>prot_read = PF_R ph, prot_write = PF_W ph, prot_exec = PF_X ph\<rparr> should_allow_syscalls)))))"

text \<open>The loop over the program headers carries the load base, which a mapping of the start of the file sets.\<close>

fun load_sections ::
  "(region_request \<Rightarrow> 's \<Rightarrow> (nat \<times> 's) kresult) \<Rightarrow> image \<Rightarrow> nat \<Rightarrow> bool \<Rightarrow> Elf_Phdr list \<Rightarrow> nat \<times> 's \<Rightarrow> (nat \<times> 's) kresult" where
  "load_sections place img load_offset should_allow_syscalls [] acc = Inr acc"
| "load_sections place img load_offset should_allow_syscalls (ph # phs) (load_base_address, s) =
     tryE (section_request img load_offset should_allow_syscalls ph) (\<lambda>request.
       case request of
         None \<Rightarrow> load_sections place img load_offset should_allow_syscalls phs (load_base_address, s)
       | Some r \<Rightarrow>
           tryE (place r s) (\<lambda>(vaddr, s).
             load_sections place img load_offset should_allow_syscalls phs
               (if (case r of Map_region _ _ _ offset _ _ \<Rightarrow> offset = 0 | _ \<Rightarrow> False) then vaddr else load_base_address, s)))"

definition default_userspace_stack_size :: nat where
  "default_userspace_stack_size = 1024 * 1024"

definition load_elf_object ::
  "(region_request \<Rightarrow> 's \<Rightarrow> (nat \<times> 's) kresult) \<Rightarrow> nat option \<Rightarrow> exec_file \<Rightarrow> nat \<Rightarrow> bool \<Rightarrow> nat option \<Rightarrow> 's \<Rightarrow>
   (load_result \<times> 's) kresult" where
  "load_elf_object place stack_min f load_offset should_allow_syscalls minimum_stack_size s =
     tryE (f_vmobject f) (\<lambda>_.
     if f_writable_mappings f then Inl (Errno ETXTBSY)
     else
       tryE (page_round_up (length (f_bytes f))) (\<lambda>_. tryE (f_kernel_region f) (\<lambda>_.
       tryE (Image_parse stack_min (f_bytes f)) (\<lambda>img.
       if \<not> m_valid img then Inl (Errno ENOEXEC)
       else
         let stack_size = (case minimum_stack_size of
               None \<Rightarrow> default_userspace_stack_size
             | Some n \<Rightarrow> if n > default_userspace_stack_size then n else default_userspace_stack_size)
         in tryE (image_program_headers img) (\<lambda>hs.
            tryE (load_sections place img load_offset should_allow_syscalls hs (0, s)) (\<lambda>(load_base_address, s).
            tryE (image_header img) (\<lambda>h.
            let entry = size_add (e_entry h) load_offset
            in if entry = 0 then Inl (Errno ENOEXEC)
               else
                 tryE (place (Stack_region stack_size \<lparr>prot_read = True, prot_write = True, prot_exec = False\<rparr>) s) (\<lambda>(stack, s).
                 Inr (\<lparr>load_base = load_base_address, entry_eip = entry, load_size = length (f_bytes f), stack_base = stack\<rparr>, s)))))))))"

definition Process_load ::
  "(region_request \<Rightarrow> 's \<Rightarrow> (nat \<times> 's) kresult) \<Rightarrow> nat option \<Rightarrow> nat \<Rightarrow> Elf_Ehdr \<Rightarrow> exec_file \<Rightarrow> exec_file option \<Rightarrow>
   nat option \<Rightarrow> 's \<Rightarrow> (load_result \<times> 's) kresult" where
  "Process_load place stack_min random h main_program interpreter minimum_stack_size s =
     tryE (get_load_offset stack_min random h main_program interpreter) (\<lambda>load_offset.
     case interpreter of
       None \<Rightarrow> load_elf_object place stack_min main_program load_offset False minimum_stack_size s
     | Some f \<Rightarrow> load_elf_object place stack_min f load_offset True minimum_stack_size s)"

section \<open>Scripts\<close>

definition is_executable_starting_with_shebang :: "u8 list \<Rightarrow> bool" where
  "is_executable_starting_with_shebang buffer \<longleftrightarrow> length buffer > 2 \<and> buffer ! 0 = 0x23 \<and> buffer ! 1 = 0x21"

text \<open>The loop over the line: the words so far, where the current word starts and how long it is. Words are
  slices of the buffer.\<close>

function scan_shebang :: "u8 list \<Rightarrow> nat \<Rightarrow> nat \<Rightarrow> nat \<Rightarrow> u8 list list \<Rightarrow> bool \<times> nat \<times> nat \<times> u8 list list" where
  "scan_shebang buffer i word_start word_length interpreter_words =
     (if i < length buffer then
        if buffer ! i = 0x0a then (True, word_start, word_length, interpreter_words)
        else if buffer ! i \<noteq> 0x20 then scan_shebang buffer (Suc i) word_start (Suc word_length) interpreter_words
        else
          scan_shebang buffer (Suc i) (Suc i) 0
            (if word_length > 0 then interpreter_words @ [take word_length (drop word_start buffer)] else interpreter_words)
      else (False, word_start, word_length, interpreter_words))"
  by pat_completeness auto
termination
  by (relation "measure (\<lambda>(buffer, i, _). length buffer - i)") auto

declare scan_shebang.simps [simp del]

definition find_shebang_interpreter_for_executable :: "u8 list \<Rightarrow> u8 list list kresult" where
  "find_shebang_interpreter_for_executable line_buffer =
     verifyE (is_executable_starting_with_shebang line_buffer)
       (case scan_shebang line_buffer 2 2 0 [] of (found_line_break, word_start, word_length, interpreter_words) \<Rightarrow>
          if \<not> found_line_break then Inl (Errno ENOBUFS)
          else
            let interpreter_words =
                  (if word_length > 0 then interpreter_words @ [take word_length (drop word_start line_buffer)] else interpreter_words)
            in if interpreter_words \<noteq> [] then Inr interpreter_words else Inl (Errno ENOEXEC))"

section \<open>The program interpreter\<close>

definition read_elf_buffer_including_program_headers :: "exec_file \<Rightarrow> Elf_Ehdr \<Rightarrow> u8 list kresult" where
  "read_elf_buffer_including_program_headers f h =
     (if multiplication_would_overflow size_t (int (e_phentsize h)) (int (e_phnum h)) then Inl (Errno EOVERFLOW)
      else if addition_would_overflow size_t (int (e_phoff h)) (int (e_phentsize h * e_phnum h)) then Inl (Errno EOVERFLOW)
      else
        let last_needed = e_phoff h + e_phentsize h * e_phnum h
        in if last_needed < sizeof_Ehdr then Inl (Errno EINVAL)
           else
             let buffer = read_file f 0 last_needed
             in if length buffer < last_needed then Inl (Errno EIO) else Inr buffer)"

definition raise_stack_size :: "nat option \<Rightarrow> nat option \<Rightarrow> nat option" where
  "raise_stack_size minimum requested =
     (case requested of None \<Rightarrow> minimum
      | Some r \<Rightarrow> (case minimum of None \<Rightarrow> requested | Some m \<Rightarrow> if m < r then requested else minimum))"

definition check_elf_interpreter :: "nat option \<Rightarrow> exec_file \<Rightarrow> nat option \<Rightarrow> nat option kresult" where
  "check_elf_interpreter stack_min f minimum_stack_size =
     (if \<not> f_regular f then Inl (Errno ENOEXEC)
      else if length (f_bytes f) < sizeof_Ehdr then Inl (Errno ENOEXEC)
      else
        let buffer = read_file f 0 sizeof_Ehdr
        in if length buffer < sizeof_Ehdr then Inl (Errno ENOEXEC)
           else
             tryE (read_Ehdr buffer) (\<lambda>h.
             tryE (validate_elf_header h (length (f_bytes f))) (\<lambda>valid.
             if \<not> valid then Inl (Errno ENOEXEC)
             else
               tryE (read_elf_buffer_including_program_headers f h) (\<lambda>headers.
               tryE (validate_program_headers h (length (f_bytes f)) stack_min headers) (\<lambda>(valid, interpreter, stack_size).
               if \<not> valid then Inl (Errno ENOEXEC)
               else if interpreter \<noteq> None then Inl (Errno ELOOP)
               else Inr (raise_stack_size minimum_stack_size stack_size))))))"

definition find_elf_interpreter_for_executable ::
  "(u8 list \<Rightarrow> exec_file kresult) \<Rightarrow> nat option \<Rightarrow> exec_file \<Rightarrow> Elf_Ehdr \<Rightarrow> nat option \<Rightarrow> (exec_file option \<times> nat option) kresult" where
  "find_elf_interpreter_for_executable open_file stack_min f h minimum_stack_size =
     (if e_type h \<noteq> ET_EXEC \<and> e_type h \<noteq> ET_DYN then Inl (Errno ENOEXEC)
      else
        tryE (read_elf_buffer_including_program_headers f h) (\<lambda>headers.
        tryE (validate_program_headers h (length (f_bytes f)) stack_min headers) (\<lambda>(valid, interpreter, stack_size).
        if \<not> valid then Inl (Errno ENOEXEC)
        else
          let minimum_stack_size = raise_stack_size minimum_stack_size stack_size
          in case interpreter of
               None \<Rightarrow> Inr (None, minimum_stack_size)
             | Some ph \<Rightarrow>
                 let path = read_file f (p_offset ph) (p_filesz ph - 1)
                 in if length path < p_filesz ph - 1 then Inl (Errno EIO)
                    else if path = [] then Inr (None, minimum_stack_size)
                    else
                      tryE (open_file path) (\<lambda>interpreter_description.
                      tryE (check_elf_interpreter stack_min interpreter_description minimum_stack_size) (\<lambda>minimum_stack_size.
                      Inr (Some interpreter_description, minimum_stack_size))))))"

section \<open>Finding the image\<close>

text \<open>\<^verbatim>\<open>Process::exec\<close> up to the call of \<^verbatim>\<open>do_exec\<close>: the arguments of that call. A buffer that a read does not fill keeps
  its zeroes.\<close>

record exec_image =
  x_file :: exec_file
  x_arguments :: "u8 list list"
  x_interpreter :: "exec_file option"
  x_header :: Elf_Ehdr
  x_stack_size :: "nat option"

definition zero_padded :: "nat \<Rightarrow> u8 list \<Rightarrow> u8 list" where
  "zero_padded n bs = bs @ replicate (n - length bs) 0"

function exec ::
  "(u8 list \<Rightarrow> exec_file kresult) \<Rightarrow> nat option \<Rightarrow> u8 list \<Rightarrow> u8 list list \<Rightarrow> nat \<Rightarrow> exec_image kresult" where
  "exec open_file stack_min path arguments recursion_depth =
     (if recursion_depth > 2 then Inl (Errno ELOOP)
      else
        tryE (open_file path) (\<lambda>f.
        if \<not> f_regular f then Inl (Errno EACCES)
        else if length (f_bytes f) < 3 then Inl (Errno ENOEXEC)
        else
          let preliminary = read_file f 0 sizeof_Ehdr;
              preliminary_buffer = zero_padded sizeof_Ehdr preliminary
          in if is_executable_starting_with_shebang preliminary_buffer then
               tryE (find_shebang_interpreter_for_executable (zero_padded PAGE_SIZE (read_file f 0 PAGE_SIZE))) (\<lambda>shebang_words.
               verifyE (arguments \<noteq> [])
                 (exec open_file stack_min (hd shebang_words) (shebang_words @ arguments[0 := path]) (Suc recursion_depth)))
             else if length preliminary < sizeof_Ehdr then Inl (Errno ENOEXEC)
             else
               tryE (read_Ehdr preliminary_buffer) (\<lambda>h.
               tryE (validate_elf_header h (length (f_bytes f))) (\<lambda>valid.
               if \<not> valid then Inl (Errno ENOEXEC)
               else
                 tryE (find_elf_interpreter_for_executable open_file stack_min f h None) (\<lambda>(interpreter, minimum_stack_size).
                 Inr \<lparr>x_file = f, x_arguments = arguments, x_interpreter = interpreter, x_header = h,
                      x_stack_size = minimum_stack_size\<rparr>)))))"
  by pat_completeness auto
termination
  by (relation "measure (\<lambda>(_, _, _, _, d). 3 - d)") auto

declare exec.simps [simp del]

end
