(* ===== verification/Elf_Facts.thy ===== *)
theory Elf_Facts
  imports Elf
begin

text \<open>
  The validators never fail a check or read outside their buffer, what they accept has the properties the
  loader relies on, and parsing an image is safe on arbitrary bytes.
\<close>

section \<open>Fields\<close>

lemma le_nat_less: "le_nat bs < 256 ^ length bs"
proof (induction bs)
  case (Cons b bs)
  have "unat b < 256" using unsigned_less [of b] by simp
  moreover have "256 * Suc (le_nat bs) \<le> 256 * 256 ^ length bs" using Cons by (intro mult_le_mono2) simp
  ultimately show ?case by (simp add: le_nat_def)
qed (simp add: le_nat_def)

lemma field_less: "field bs off n < 256 ^ n"
proof -
  have "256 ^ length (take n (drop off bs)) \<le> (256 :: nat) ^ n" by (intro power_increasing) simp_all
  with le_nat_less [of "take n (drop off bs)"] show ?thesis unfolding field_def by (rule less_le_trans)
qed

definition Ehdr_ok :: "Elf_Ehdr \<Rightarrow> bool" where
  "Ehdr_ok h \<longleftrightarrow> e_phoff h < 2 ^ 64 \<and> e_shoff h < 2 ^ 64 \<and> e_phnum h < 2 ^ 16 \<and> e_phentsize h < 2 ^ 16 \<and>
     e_shnum h < 2 ^ 16 \<and> e_shentsize h < 2 ^ 16"

definition Phdr_ok :: "Elf_Phdr \<Rightarrow> bool" where
  "Phdr_ok ph \<longleftrightarrow> p_offset ph < 2 ^ 64 \<and> p_filesz ph < 2 ^ 64 \<and> p_memsz ph < 2 ^ 64 \<and> p_vaddr ph < 2 ^ 64"

lemma Ehdr_at_ok: "Ehdr_ok (Ehdr_at bs)"
  using field_less [of bs _ 8] field_less [of bs _ 2] by (simp add: Ehdr_ok_def Ehdr_at_def)

lemma Phdr_at_ok: "Phdr_ok (Phdr_at bs off)"
  using field_less [of bs _ 8] by (simp add: Phdr_ok_def Phdr_at_def)

section \<open>The ELF header\<close>

lemma end_of_table_eq:
  assumes "offset < 2 ^ 64" "count < 2 ^ 16" "entry < 2 ^ 16"
  shows "end_of_table offset count entry = Inr (Checked size_t (int (offset + count * entry)))"
proof -
  have "count * entry \<le> 2 ^ 16 * 2 ^ 16" using assms by (intro mult_le_mono) simp_all
  then have ce: "count * entry < 2 ^ 64" by simp
  have "in_range size_t (int offset)" "in_range size_t (int count)" "in_range size_t (int count * int entry)"
    using assms ce by (simp_all only: in_range_size_t flip: of_nat_mult) simp_all
  then show ?thesis
    by (simp add: end_of_table_def checked_op_def checked_mul_def checked_add_def checked_exact_def Checked_def
        checked_value_def wrap_id)
qed

lemma checked_size_t:
  "has_overflow (Checked size_t (int n)) \<longleftrightarrow> \<not> n < 2 ^ 64"
  "n < 2 ^ 64 \<Longrightarrow> checked_value (Checked size_t (int n)) = Inr (int n)"
  "n < 2 ^ 64 \<Longrightarrow> checked_greater (Checked size_t (int n)) (int m) = Inr (m < n)"
  by (simp_all add: has_overflow_def checked_greater_def checked_value_def Checked_def in_range_size_t wrap_id
      del: of_nat_add)

lemma reject_isl: "isl (if c then Inr False else x) \<longleftrightarrow> \<not> c \<and> isl x"
  by simp

lemma reject_True: "(if c then Inr False else x) = Inr True \<longleftrightarrow> \<not> c \<and> x = Inr True"
  by simp

text \<open>What an accepted header promises about a file of \<open>n\<close> bytes.\<close>

definition header_promises :: "Elf_Ehdr \<Rightarrow> nat \<Rightarrow> bool" where
  "header_promises h n \<longleftrightarrow>
     IS_ELF h \<and> e_machine h \<in> {EM_X86_64, EM_AARCH64, EM_RISCV} \<and> e_type h \<in> {ET_REL, ET_EXEC, ET_DYN, ET_CORE} \<and>
     e_ehsize h = sizeof_Ehdr \<and>
     (e_phnum h \<noteq> 0 \<longrightarrow> e_phoff h = sizeof_Ehdr \<and> e_phentsize h = sizeof_Phdr) \<and>
     e_phoff h + e_phnum h * sizeof_Phdr \<le> n \<and>
     e_shentsize h = sizeof_Shdr \<and> (e_shnum h \<noteq> 0 \<longrightarrow> e_phoff h + e_phnum h * sizeof_Phdr \<le> e_shoff h \<and> sizeof_Ehdr \<le> e_shoff h) \<and>
     e_shoff h + e_shnum h * sizeof_Shdr \<le> n \<and> (e_shstrndx h \<noteq> 0 \<longrightarrow> e_shstrndx h < e_shnum h)"

lemma validate_elf_header_total:
  assumes "Ehdr_ok h" "file_size < 2 ^ 64"
  shows "\<exists>b. validate_elf_header h file_size = Inr b \<and> (b \<longrightarrow> header_promises h file_size)"
proof -
  have o: "e_phoff h < 2 ^ 64" "e_shoff h < 2 ^ 64" "e_phnum h < 2 ^ 16" "e_phentsize h < 2 ^ 16" "e_shnum h < 2 ^ 16" "e_shentsize h < 2 ^ 16"
    using assms(1) by (simp_all add: Ehdr_ok_def)
  note tables = end_of_table_eq [OF o(1,3,4)] end_of_table_eq [OF o(2,5,6)]
  define P where "P = e_phoff h + e_phnum h * e_phentsize h"
  define S where "S = e_shoff h + e_shnum h * e_shentsize h"
  have rest: "\<exists>b. tryE (Inr (Checked size_t (int P))) (\<lambda>p. if has_overflow p then Inr False else
      tryE (checked_greater p (int file_size)) (\<lambda>g. if g then Inr False else
      tryE (checked_value p) (\<lambda>e. if e_shoff h \<noteq> SHN_UNDEF \<and> int (e_shoff h) < e then Inr False else
      tryE (Inr (Checked size_t (int S))) (\<lambda>s. if has_overflow s then Inr False else
      tryE (checked_greater s (int file_size)) (\<lambda>g. if g then Inr False
        else if e_shstrndx h \<noteq> SHN_UNDEF \<and> e_shstrndx h \<ge> e_shnum h then Inr False else Inr True))))) = Inr b \<and>
      (b \<longrightarrow> P \<le> file_size \<and> S \<le> file_size \<and> (e_shoff h \<noteq> 0 \<longrightarrow> P \<le> e_shoff h) \<and> (e_shstrndx h \<noteq> 0 \<longrightarrow> e_shstrndx h < e_shnum h))"
    (is "\<exists>b. ?t = Inr b \<and> _")
  proof (cases "P < 2 ^ 64")
    case True
    then show ?thesis by (cases "S < 2 ^ 64") (auto simp: checked_size_t not_less)
  qed (auto simp: checked_size_t)
  then obtain b where b: "?t = Inr b"
    "b \<longrightarrow> P \<le> file_size \<and> S \<le> file_size \<and> (e_shoff h \<noteq> 0 \<longrightarrow> P \<le> e_shoff h) \<and> (e_shstrndx h \<noteq> 0 \<longrightarrow> e_shstrndx h < e_shnum h)"
    by blast
  note unf = validate_elf_header_def tables P_def [symmetric] S_def [symmetric] b(1)
  have "\<not> isl (validate_elf_header h file_size)" unfolding unf by (simp only: reject_isl sum.disc simp_thms)
  moreover have "header_promises h file_size" if "validate_elf_header h file_size = Inr True"
  proof -
    note c = that [unfolded unf reject_True sum.inject eq_True]
    have a: "IS_ELF h" "e_machine h \<in> {EM_X86_64, EM_AARCH64, EM_RISCV}"
        "\<not> (e_type h \<noteq> ET_EXEC \<and> e_type h \<noteq> ET_DYN \<and> e_type h \<noteq> ET_REL \<and> e_type h \<noteq> ET_CORE)" "e_ehsize h = sizeof_Ehdr"
        "\<not> (e_phnum h \<noteq> 0 \<and> e_phoff h < e_ehsize h \<or> e_shnum h \<noteq> SHN_UNDEF \<and> e_shoff h < e_ehsize h)"
        "\<not> (e_phnum h = 0 \<and> e_phoff h \<noteq> 0)" "\<not> (e_phnum h \<noteq> 0 \<and> e_phoff h \<noteq> e_ehsize h)"
        "\<not> (e_phnum h \<noteq> 0 \<and> e_phentsize h \<noteq> sizeof_Phdr)" "e_shentsize h = sizeof_Shdr"
        "P \<le> file_size \<and> S \<le> file_size \<and> (e_shoff h \<noteq> 0 \<longrightarrow> P \<le> e_shoff h) \<and> (e_shstrndx h \<noteq> 0 \<longrightarrow> e_shstrndx h < e_shnum h)"
      using c b(2) by (elim conjE, simp only: simp_thms)+
    have "P = e_phoff h + e_phnum h * sizeof_Phdr" using a(8) by (cases "e_phnum h = 0") (simp_all add: P_def)
    moreover have "S = e_shoff h + e_shnum h * sizeof_Shdr" using a(9) by (simp add: S_def)
    moreover have "e_type h \<in> {ET_REL, ET_EXEC, ET_DYN, ET_CORE}" using a(3) by blast
    ultimately show ?thesis unfolding header_promises_def using a(1,2,4-) by (intro conjI impI) auto
  qed
  ultimately show ?thesis by (metis sum.collapse(2))
qed

section \<open>The program headers\<close>

definition headers_of :: "Elf_Ehdr \<Rightarrow> u8 list \<Rightarrow> Elf_Phdr list" where
  "headers_of h buffer = map (\<lambda>i. Phdr_at buffer (e_phoff h + i * sizeof_Phdr)) [0..<e_phnum h]"

text \<open>What an accepted program header promises about a file of \<open>n\<close> bytes.\<close>

definition segment_promises :: "Elf_Ehdr \<Rightarrow> nat \<Rightarrow> Elf_Phdr \<Rightarrow> bool" where
  "segment_promises h n ph \<longleftrightarrow>
     (p_type ph \<in> {PT_LOAD, PT_DYNAMIC, PT_GNU_EH_FRAME, PT_NOTE, PT_PHDR, PT_TLS} \<longrightarrow>
        p_offset ph + p_filesz ph \<le> n \<and> p_filesz ph \<le> p_memsz ph \<and> \<not> (PF_X ph \<and> PF_W ph)) \<and>
     (p_type ph = PT_LOAD \<and> e_type h \<noteq> ET_CORE \<longrightarrow>
        0 < p_align ph \<and> PAGE_SIZE dvd p_align ph \<and> p_vaddr ph mod p_align ph = p_offset ph mod p_align ph) \<and>
     (p_type ph = PT_INTERP \<longrightarrow> p_offset ph + p_filesz ph \<le> n \<and> 1 < p_filesz ph) \<and>
     (p_type ph = PT_GNU_STACK \<longrightarrow> p_memsz ph \<le> PTHREAD_STACK_MAX \<and> PAGE_SIZE dvd p_memsz ph)"

lemma check_segment_sound:
  assumes "check_segment n sm ph \<noteq> Reject" "p_filesz ph \<le> p_memsz ph"
  shows "p_type ph \<in> {PT_LOAD, PT_DYNAMIC, PT_GNU_EH_FRAME, PT_NOTE, PT_PHDR, PT_TLS} \<Longrightarrow>
      p_offset ph + p_filesz ph \<le> n \<and> p_filesz ph \<le> p_memsz ph \<and> \<not> (PF_X ph \<and> PF_W ph)"
    "p_type ph = PT_INTERP \<Longrightarrow> p_offset ph + p_filesz ph \<le> n \<and> 1 < p_filesz ph"
    "p_type ph = PT_GNU_STACK \<Longrightarrow> p_memsz ph \<le> PTHREAD_STACK_MAX \<and> PAGE_SIZE dvd p_memsz ph"
  using assms by (auto simp: check_segment_def not_less split: if_splits)

lemma check_program_header_sound:
  assumes "check_program_header h n sm ph \<noteq> Reject"
  shows "segment_promises h n ph"
proof (cases "e_machine h = EM_RISCV \<and> p_type ph = PT_RISCV_ATTRIBUTES")
  case True
  then show ?thesis by (simp add: segment_promises_def)
next
  case False
  with assms have le: "p_filesz ph \<le> p_memsz ph" and load: "e_type h \<noteq> ET_CORE \<Longrightarrow> p_type ph = PT_LOAD \<Longrightarrow>
      p_align ph \<noteq> 0 \<and> p_align ph mod PAGE_SIZE = 0 \<and> p_vaddr ph mod p_align ph = p_offset ph mod p_align ph"
    and seg: "check_segment n sm ph \<noteq> Reject"
    by (auto simp: check_program_header_def split: if_splits)
  show ?thesis unfolding segment_promises_def
    using check_segment_sound [OF seg le] load by (intro conjI impI) (auto simp: dvd_eq_mod_eq_0)
qed

lemma check_program_header_kinds:
  "check_program_header h n sm ph = Interpreter \<Longrightarrow> p_type ph = PT_INTERP"
  "check_program_header h n sm ph = Stack_size m \<Longrightarrow> p_type ph = PT_GNU_STACK \<and> m = p_memsz ph"
  by (auto simp: check_program_header_def check_segment_def split: if_splits)

lemma check_program_headers_total:
  assumes "\<And>i. i \<in> set is \<Longrightarrow> e_phoff h + i * sizeof_Phdr + sizeof_Phdr \<le> length buffer"
  shows "\<exists>i s. check_program_headers h n sm buffer is out =
      Inr (\<forall>i \<in> set is. check_program_header h n sm (Phdr_at buffer (e_phoff h + i * sizeof_Phdr)) \<noteq> Reject, i, s) \<and>
    (\<forall>ph. i = Some ph \<longrightarrow> fst out = Some ph \<or>
       p_type ph = PT_INTERP \<and> ph \<in> (\<lambda>i. Phdr_at buffer (e_phoff h + i * sizeof_Phdr)) ` set is \<and> segment_promises h n ph) \<and>
    (\<forall>m. s = Some m \<longrightarrow> snd out = Some m \<or> m \<le> PTHREAD_STACK_MAX \<and> PAGE_SIZE dvd m)"
  using assms
proof (induction "is" arbitrary: out)
  case Nil
  then show ?case by (cases out) auto
next
  case (Cons j js)
  obtain i0 s0 where out: "out = (i0, s0)" by fastforce
  let ?ph = "Phdr_at buffer (e_phoff h + j * sizeof_Phdr)"
  have rd: "read_Phdr buffer (e_phoff h + j * sizeof_Phdr) = Inr ?ph" using Cons.prems [of j] by (simp add: read_Phdr_def)
  note IH = Cons.IH [OF Cons.prems]
  show ?case
  proof (cases "check_program_header h n sm ?ph")
    case Reject
    then show ?thesis by (simp add: out rd)
  next
    case Accept
    with IH [of out] show ?thesis by (simp add: out rd) blast
  next
    case Interpreter
    then have "p_type ?ph = PT_INTERP" "segment_promises h n ?ph"
      using check_program_header_kinds(1) check_program_header_sound [of h n sm ?ph] by auto
    with IH [of "(Some ?ph, s0)"] Interpreter show ?thesis by (simp add: out rd) blast
  next
    case (Stack_size m)
    then have "m \<le> PTHREAD_STACK_MAX \<and> PAGE_SIZE dvd m"
      using check_program_header_kinds(2) [of h n sm ?ph m] check_program_header_sound [of h n sm ?ph]
      by (auto simp: segment_promises_def)
    with IH [of "(i0, Some m)"] Stack_size show ?thesis by (simp add: out rd) blast
  qed
qed

lemma validate_program_headers_total:
  assumes "Ehdr_ok h" "header_promises h n" "length buffer \<le> n" "n < 2 ^ 64"
  shows "\<exists>ok i s. validate_program_headers h n sm buffer = Inr (ok, i, s) \<and>
    (ok \<longleftrightarrow> e_phoff h + e_phnum h * sizeof_Phdr \<le> length buffer \<and>
       (\<forall>ph \<in> set (headers_of h buffer). check_program_header h n sm ph \<noteq> Reject)) \<and>
    (\<forall>ph. i = Some ph \<longrightarrow> ph \<in> set (headers_of h buffer) \<and> p_type ph = PT_INTERP \<and> segment_promises h n ph) \<and>
    (\<forall>m. s = Some m \<longrightarrow> m \<le> PTHREAD_STACK_MAX \<and> PAGE_SIZE dvd m)"
proof -
  have o: "e_phoff h < 2 ^ 64" "e_phnum h < 2 ^ 16" "e_phentsize h < 2 ^ 16" using assms(1) by (simp_all add: Ehdr_ok_def)
  define E where "E = e_phoff h + e_phnum h * sizeof_Phdr"
  have tbl: "e_phoff h + e_phnum h * e_phentsize h = E"
    using assms(2) by (cases "e_phnum h = 0") (simp_all add: header_promises_def E_def)
  have small: "E < 2 ^ 64" using assms(2,4) by (simp add: header_promises_def E_def)
  note unf = validate_program_headers_def end_of_table_eq [OF o] tbl checked_size_t small
  show ?thesis
  proof (cases "E \<le> length buffer")
    case False
    then have "validate_program_headers h n sm buffer = Inr (False, None, None)" using small by (simp add: unf)
    with False show ?thesis unfolding E_def [symmetric] by auto
  next
    case True
    have "e_phoff h + i * sizeof_Phdr + sizeof_Phdr \<le> length buffer" if "i \<in> set [0..<e_phnum h]" for i
    proof -
      have "Suc i * sizeof_Phdr \<le> e_phnum h * sizeof_Phdr" using that by (intro mult_le_mono1) simp
      with True show ?thesis by (simp add: E_def)
    qed
    from check_program_headers_total [OF this, of "[0..<e_phnum h]" n sm "(None, None)"]
    obtain i s where c: "check_program_headers h n sm buffer [0..<e_phnum h] (None, None) =
        Inr (\<forall>i \<in> set [0..<e_phnum h]. check_program_header h n sm (Phdr_at buffer (e_phoff h + i * sizeof_Phdr)) \<noteq> Reject, i, s)"
      "\<forall>ph. i = Some ph \<longrightarrow> p_type ph = PT_INTERP \<and>
         ph \<in> (\<lambda>i. Phdr_at buffer (e_phoff h + i * sizeof_Phdr)) ` set [0..<e_phnum h] \<and> segment_promises h n ph"
      "\<forall>m. s = Some m \<longrightarrow> m \<le> PTHREAD_STACK_MAX \<and> PAGE_SIZE dvd m" by auto
    have "validate_program_headers h n sm buffer = check_program_headers h n sm buffer [0..<e_phnum h] (None, None)"
      using True small assms(3) by (simp add: unf not_less)
    with c True show ?thesis unfolding E_def [symmetric] by (auto simp: headers_of_def)
  qed
qed

section \<open>Images\<close>

text \<open>The image of a file shorter than 4 GiB, so that 32-bit offsets lose nothing, that passed both validators.\<close>

definition image_wf :: "image \<Rightarrow> bool" where
  "image_wf img \<longleftrightarrow> m_valid img \<and> sizeof_Ehdr \<le> length (m_buffer img) \<and> length (m_buffer img) < 2 ^ 32 \<and>
     header_promises (Ehdr_at (m_buffer img)) (length (m_buffer img))"

lemma raw_data_eq: "off < length (m_buffer img) \<Longrightarrow> length (m_buffer img) < 2 ^ 32 \<Longrightarrow> raw_data img off = Inr off"
  by (simp add: raw_data_def)

lemma image_header_eq:
  assumes "sizeof_Ehdr \<le> length (m_buffer img)" "length (m_buffer img) < 2 ^ 32"
  shows "image_header img = Inr (Ehdr_at (m_buffer img))"
proof -
  have "raw_data img 0 = Inr 0" using assms by (intro raw_data_eq) auto
  with assms show ?thesis by (simp add: image_header_def read_Ehdr_def)
qed

lemma image_wf_header: "image_wf img \<Longrightarrow> image_header img = Inr (Ehdr_at (m_buffer img))"
  by (rule image_header_eq) (simp_all add: image_wf_def)

lemma table_entry: "i < num \<Longrightarrow> base + num * entry \<le> n \<Longrightarrow> base + i * entry + entry \<le> n" for i num base entry n :: nat
proof -
  assume "i < num" "base + num * entry \<le> n"
  moreover from this have "Suc i * entry \<le> num * entry" by (intro mult_le_mono1) simp
  ultimately show ?thesis by simp
qed

lemma program_header_internal_eq:
  assumes "image_wf img" "i < e_phnum (Ehdr_at (m_buffer img))"
  shows "program_header_internal img i = Inr (Phdr_at (m_buffer img) (e_phoff (Ehdr_at (m_buffer img)) + i * sizeof_Phdr))"
proof -
  let ?h = "Ehdr_at (m_buffer img)"
  have "e_phoff ?h + i * sizeof_Phdr + sizeof_Phdr \<le> length (m_buffer img)"
    using assms by (intro table_entry [of i "e_phnum ?h"]) (auto simp: image_wf_def header_promises_def)
  moreover from this have "raw_data img (e_phoff ?h + i * sizeof_Phdr) = Inr (e_phoff ?h + i * sizeof_Phdr)"
    using assms(1) by (intro raw_data_eq) (auto simp: image_wf_def)
  ultimately show ?thesis
    using assms image_wf_header [OF assms(1)] by (simp add: program_header_internal_def read_Phdr_def image_wf_def)
qed

lemma image_program_headers_eq:
  assumes "image_wf img"
  shows "image_program_headers img = Inr (headers_of (Ehdr_at (m_buffer img)) (m_buffer img))"
proof -
  have "mapE (program_header_internal img) [0..<e_phnum (Ehdr_at (m_buffer img))] =
      Inr (headers_of (Ehdr_at (m_buffer img)) (m_buffer img))"
    unfolding headers_of_def by (rule mapE_Inr) (use program_header_internal_eq [OF assms] in simp)
  moreover have "program_header_count img = Inr (e_phnum (Ehdr_at (m_buffer img)))"
    using assms image_wf_header [OF assms] by (simp add: program_header_count_def image_wf_def)
  ultimately show ?thesis by (simp add: image_program_headers_def)
qed

lemma section_header_eq:
  assumes "image_wf img" "i < e_shnum (Ehdr_at (m_buffer img))"
  shows "\<exists>sh. section_header img i = Inr sh"
proof -
  let ?h = "Ehdr_at (m_buffer img)"
  have "e_shoff ?h + i * sizeof_Shdr + sizeof_Shdr \<le> length (m_buffer img)" and sz: "e_shentsize ?h = sizeof_Shdr"
    using assms by (auto simp: image_wf_def header_promises_def intro!: table_entry [of i "e_shnum ?h"])
  moreover from this have "raw_data img (e_shoff ?h + i * sizeof_Shdr) = Inr (e_shoff ?h + i * sizeof_Shdr)"
    using assms(1) by (intro raw_data_eq) (auto simp: image_wf_def)
  ultimately show ?thesis
    using assms image_wf_header [OF assms(1)] by (simp add: section_header_def read_Shdr_def image_wf_def)
qed

lemma section_name_total:
  assumes "image_wf img" "i < e_shnum (Ehdr_at (m_buffer img))"
  shows "\<exists>name. section_header_table_string img off = Inr name"
proof -
  let ?h = "Ehdr_at (m_buffer img)"
  have "e_shstrndx ?h < e_shnum ?h" using assms by (cases "e_shstrndx ?h = 0") (auto simp: image_wf_def header_promises_def)
  from section_header_eq [OF assms(1) this] obtain sh where sh: "section_header img (e_shstrndx ?h) = Inr sh" by blast
  have "raw_data img (size_add (sh_offset sh) off) = Inr (size_add (sh_offset sh) off)"
    if "size_add (sh_offset sh) off < length (m_buffer img)"
    using that assms(1) by (intro raw_data_eq) (simp_all add: image_wf_def)
  with sh assms(1) image_wf_header [OF assms(1)] show ?thesis
    by (auto simp: section_header_table_string_def table_string_def image_wf_def Let_def not_le)
qed

lemma locate_tables_total:
  "image_wf img \<Longrightarrow> (\<And>i. i \<in> set is \<Longrightarrow> i < e_shnum (Ehdr_at (m_buffer img))) \<Longrightarrow>
     \<exists>img'. locate_tables img k is = Inr img' \<and> m_buffer img' = m_buffer img \<and> (m_valid img' \<longrightarrow> image_wf img')"
proof (induction "is" arbitrary: img)
  case (Cons i js)
  from section_header_eq [OF Cons.prems(1), of i] Cons.prems(2) obtain sh where sh: "section_header img i = Inr sh" by auto
  let ?img = "if sh_type sh = SHT_SYMTAB then img\<lparr>m_symbol_table_section_index := i\<rparr> else img"
  have wf: "image_wf ?img" "m_buffer ?img = m_buffer img" using Cons.prems(1) by (auto simp: image_wf_def)
  show ?case
  proof (cases "sh_type sh = SHT_SYMTAB \<and> m_symbol_table_section_index img \<noteq> 0 \<and> m_symbol_table_section_index img \<noteq> i")
    case True
    then show ?thesis by (simp add: sh)
  next
    case False
    show ?thesis
    proof (cases "sh_type sh = SHT_STRTAB \<and> i \<noteq> k")
      case True
      from section_name_total [OF wf(1), of i] Cons.prems(2) wf(2) obtain name where
        name: "section_header_table_string ?img (sh_name sh) = Inr name" by (metis list.set_intros(1))
      let ?img' = "if name = ELF_STRTAB then ?img\<lparr>m_string_table_section_index := i\<rparr> else ?img"
      have "image_wf ?img'" "m_buffer ?img' = m_buffer img" using wf by (auto simp: image_wf_def)
      with Cons.IH [of ?img'] Cons.prems(2) obtain img' where "locate_tables ?img' k js = Inr img'"
        "m_buffer img' = m_buffer img" "m_valid img' \<longrightarrow> image_wf img'" by auto
      moreover have "locate_tables img k (i # js) = locate_tables ?img' k js"
        using False True name by (simp add: sh Let_def)
      ultimately show ?thesis by simp
    next
      case F: False
      from Cons.IH [of ?img] Cons.prems(2) wf obtain img' where "locate_tables ?img k js = Inr img'"
        "m_buffer img' = m_buffer img" "m_valid img' \<longrightarrow> image_wf img'" by auto
      moreover have "locate_tables img k (i # js) = locate_tables ?img k js"
        using False F by (auto simp: sh Let_def)
      ultimately show ?thesis by simp
    qed
  qed
qed auto

lemma Image_parse_ok:
  assumes "length bs < 2 ^ 32"
  shows "\<exists>img. Image_parse sm bs = Inr img \<and> m_buffer img = bs \<and> (m_valid img \<longrightarrow> image_wf img \<and>
    (\<forall>ph \<in> set (headers_of (Ehdr_at bs) bs). segment_promises (Ehdr_at bs) (length bs) ph))"
proof (cases "length bs < sizeof_Ehdr")
  case True
  then show ?thesis by (simp add: Image_parse_def Let_def)
next
  case False
  let ?h = "Ehdr_at bs" and ?n = "length bs"
  let ?img = "\<lparr>m_buffer = bs, m_valid = False, m_symbol_table_section_index = 0, m_string_table_section_index = 0\<rparr>"
  have hd: "image_header ?img = Inr ?h" using False assms image_header_eq [of ?img] by simp
  have n64: "?n < 2 ^ 64" using assms by simp
  obtain b where b: "validate_elf_header ?h ?n = Inr b" "b \<longrightarrow> header_promises ?h ?n"
    using validate_elf_header_total [OF Ehdr_at_ok n64, of bs] by blast
  note unf = Image_parse_def Let_def
  show ?thesis
  proof (cases b)
    case False
    with \<open>\<not> ?n < sizeof_Ehdr\<close> b(1) hd show ?thesis by (simp add: unf)
  next
    case True
    with b(2) have prom: "header_promises ?h ?n" by simp
    from validate_program_headers_total [OF Ehdr_at_ok prom order_refl n64, of sm] obtain ok i s where
      v: "validate_program_headers ?h ?n sm bs = Inr (ok, i, s)"
        "ok \<Longrightarrow> \<forall>ph \<in> set (headers_of ?h bs). check_program_header ?h ?n sm ph \<noteq> Reject" by blast
    show ?thesis
    proof (cases ok)
      case F: False
      with False True b(1) hd v(1) show ?thesis by (simp add: unf)
    next
      case ok: True
      let ?img' = "?img\<lparr>m_valid := True\<rparr>"
      have wf: "image_wf ?img'" using False prom assms by (simp add: image_wf_def)
      have cnt: "section_count ?img' = Inr (e_shnum ?h)"
        using image_wf_header [OF wf] by (simp add: section_count_def)
      from locate_tables_total [OF wf, of "[0..<e_shnum ?h]" "e_shstrndx ?h"] obtain img' where
        img': "locate_tables ?img' (e_shstrndx ?h) [0..<e_shnum ?h] = Inr img'" "m_buffer img' = bs" "m_valid img' \<longrightarrow> image_wf img'"
        by auto
      have "Image_parse sm bs = Inr img'" using False True b(1) hd v(1) ok cnt img'(1) by (simp add: unf)
      moreover have "\<forall>ph \<in> set (headers_of ?h bs). segment_promises ?h ?n ph"
        using v(2) [OF ok] check_program_header_sound by blast
      ultimately show ?thesis using img' by blast
    qed
  qed
qed


text \<open>The bytes of an executable with one loadable segment.\<close>

definition tiny_elf :: "u8 list" where
  "tiny_elf =
    [0x7f, 0x45, 0x4c, 0x46, 2, 1, 1, 0, 0, 0, 0, 0, 0, 0, 0, 0, 2, 0, 0x3e, 0,
     1, 0, 0, 0, 0, 0x10, 0, 0, 0, 0, 0, 0, 0x40, 0, 0, 0, 0, 0, 0, 0,
     0, 0, 0, 0, 0, 0, 0, 0, 0, 0, 0, 0, 0x40, 0, 0x38, 0, 1, 0, 0x40, 0,
     0, 0, 0, 0, 1, 0, 0, 0, 5, 0, 0, 0, 0, 0, 0, 0, 0, 0, 0, 0,
     0, 0, 0x40, 0, 0, 0, 0, 0, 0, 0, 0x40, 0, 0, 0, 0, 0, 0x78, 0, 0, 0,
     0, 0, 0, 0, 0x78, 0, 0, 0, 0, 0, 0, 0, 0, 0x10, 0, 0, 0, 0, 0, 0]"

lemma tiny_header:
  "Ehdr_at tiny_elf = \<lparr>e_ident = [0x7f, 0x45, 0x4c, 0x46, 2, 1, 1, 0, 0, 0, 0, 0, 0, 0, 0, 0], e_type = ET_EXEC, e_machine = EM_X86_64,
     e_version = 1, e_entry = 0x1000, e_phoff = 64, e_shoff = 0, e_flags = 0, e_ehsize = 64, e_phentsize = 56, e_phnum = 1,
     e_shentsize = 64, e_shnum = 0, e_shstrndx = 0\<rparr>"
  by (simp add: Ehdr_at_def field_def tiny_elf_def le_nat_def)

lemma tiny_length: "length tiny_elf = 120"
  by (simp add: tiny_elf_def)

lemma tiny_header_valid: "validate_elf_header (Ehdr_at tiny_elf) 120 = Inr True"
proof -
  have "end_of_table 64 1 56 = Inr (Checked size_t 120)" "end_of_table 0 0 64 = Inr (Checked size_t 0)"
    by (simp_all add: end_of_table_eq)
  moreover have "\<not> has_overflow (Checked size_t 120)" "\<not> has_overflow (Checked size_t 0)"
      "checked_value (Checked size_t 120) = Inr 120" "checked_greater (Checked size_t 120) 120 = Inr False"
      "checked_greater (Checked size_t 0) 120 = Inr False"
    using checked_size_t(1) [of 120] checked_size_t(1) [of 0] checked_size_t(2) [of 120] checked_size_t(3) [of 120 120]
      checked_size_t(3) [of 0 120] by simp_all
  ultimately show ?thesis unfolding tiny_header validate_elf_header_def IS_ELF_def by simp
qed


text \<open>\<^bold>\<open>C13.\<close> The validators as the \<^verbatim>\<open>exec\<close> path uses them, with the header and the bytes up to the end of the
  program headers: on an accepted ELF header, validating the program headers never fails a check or reads
  outside the buffer. It accepts exactly when the buffer holds all headers and none is rejected; the
  interpreter it reports is one of the file's headers and lies inside the file; the stack size it reports is
  a multiple of the page size of at most 32 MiB.\<close>

theorem validators_sound:
  assumes "Ehdr_ok h" and "validate_elf_header h n = Inr True" and "length buffer \<le> n" and "n < 2 ^ 64"
  shows "header_promises h n \<and> (\<exists>ok i s. validate_program_headers h n sm buffer = Inr (ok, i, s) \<and>
    (ok \<longleftrightarrow> e_phoff h + e_phnum h * sizeof_Phdr \<le> length buffer \<and>
       (\<forall>ph \<in> set (headers_of h buffer). check_program_header h n sm ph \<noteq> Reject)) \<and>
    (\<forall>ph. i = Some ph \<longrightarrow> ph \<in> set (headers_of h buffer) \<and> p_type ph = PT_INTERP \<and> segment_promises h n ph) \<and>
    (\<forall>m. s = Some m \<longrightarrow> m \<le> PTHREAD_STACK_MAX \<and> PAGE_SIZE dvd m))"
proof -
  have "header_promises h n" using validate_elf_header_total [OF assms(1,4)] assms(2) by auto
  with validate_program_headers_total [OF assms(1) this assms(3,4)] show ?thesis by blast
qed

theorem validators_witness:
  "validate_elf_header (Ehdr_at tiny_elf) 120 = Inr True \<and>
   (\<exists>ok i s. validate_program_headers (Ehdr_at tiny_elf) 120 None tiny_elf = Inr (ok, i, s))"
proof -
  have "length tiny_elf \<le> 120" by (simp add: tiny_length)
  with tiny_header_valid show ?thesis using validators_sound [OF Ehdr_at_ok, of tiny_elf 120 tiny_elf None] by auto
qed

end
