(* ===== verification/Exec_Facts.thy ===== *)
theory Exec_Facts
  imports Exec Elf_Facts
begin

text \<open>
  Finding the program to run: the words of a script's first line, and that the search for the image ends, never
  fails a check and hands on only what the validators accepted.
\<close>

section \<open>Scripts\<close>

text \<open>The first line of a script by its parts: the bytes up to the line break, cut at the spaces, without empty words.\<close>

fun split_at_byte :: "u8 \<Rightarrow> u8 list \<Rightarrow> u8 list list" where
  "split_at_byte c [] = [[]]"
| "split_at_byte c (b # bs) =
     (if b = c then [] # split_at_byte c bs
      else case split_at_byte c bs of w # ws \<Rightarrow> (b # w) # ws | [] \<Rightarrow> [[b]])"

definition shebang_words :: "u8 list \<Rightarrow> u8 list list" where
  "shebang_words line = filter (\<lambda>w. w \<noteq> []) (split_at_byte 0x20 line)"

definition attach_word :: "u8 list \<Rightarrow> u8 list list \<Rightarrow> u8 list list" where
  "attach_word cur ws = (case ws of w # ws \<Rightarrow> (cur @ w) # ws | [] \<Rightarrow> [cur])"

lemma attach_split:
  "attach_word cur (split_at_byte c (c # bs)) = cur # split_at_byte c bs"
  "b \<noteq> c \<Longrightarrow> attach_word cur (split_at_byte c (b # bs)) = attach_word (cur @ [b]) (split_at_byte c bs)"
  "attach_word [] (split_at_byte c bs) = split_at_byte c bs"
proof -
  have ne: "split_at_byte c bs \<noteq> []" by (induction bs) (auto split: list.splits)
  show "attach_word cur (split_at_byte c (c # bs)) = cur # split_at_byte c bs" by (simp add: attach_word_def)
  show "b \<noteq> c \<Longrightarrow> attach_word cur (split_at_byte c (b # bs)) = attach_word (cur @ [b]) (split_at_byte c bs)"
    using ne by (cases "split_at_byte c bs") (simp_all add: attach_word_def)
  show "attach_word [] (split_at_byte c bs) = split_at_byte c bs" using ne by (simp add: attach_word_def split: list.splits)
qed

definition finished_words :: "u8 list \<Rightarrow> nat \<Rightarrow> nat \<Rightarrow> u8 list list \<Rightarrow> u8 list list" where
  "finished_words buffer word_start word_length ws =
     (if word_length > 0 then ws @ [take word_length (drop word_start buffer)] else ws)"

lemma scan_shebang_ok:
  assumes "word_start + word_length = i" "i \<le> length buffer"
  shows "\<exists>found word_start' word_length' ws'. scan_shebang buffer i word_start word_length ws = (found, word_start', word_length', ws') \<and>
    (found \<longleftrightarrow> 0x0a \<in> set (drop i buffer)) \<and>
    (found \<longrightarrow> finished_words buffer word_start' word_length' ws' =
       ws @ filter (\<lambda>w. w \<noteq> []) (attach_word (take word_length (drop word_start buffer)) (split_at_byte 0x20 (takeWhile (\<lambda>b. b \<noteq> 0x0a) (drop i buffer)))))"
  using assms
proof (induction buffer i word_start word_length ws rule: scan_shebang.induct)
  case (1 buffer i word_start word_length ws)
  let ?cur = "take word_length (drop word_start buffer)"
  have len: "length ?cur = word_length" using 1(3,4) by simp
  show ?case
  proof (cases "i < length buffer")
    case False
    then show ?thesis using 1(4) by (intro exI [of _ False]) (simp add: scan_shebang.simps [of buffer])
  next
    case True
    let ?b = "buffer ! i"
    have rest: "drop i buffer = ?b # drop (Suc i) buffer" using True by (simp add: Cons_nth_drop_Suc)
    consider "?b = 0x0a" | "?b \<noteq> 0x0a" "?b \<noteq> 0x20" | "?b \<noteq> 0x0a" "?b = 0x20" by blast
    then show ?thesis
    proof cases
      case a: 1
      have "finished_words buffer word_start word_length ws = ws @ filter (\<lambda>w. w \<noteq> []) [?cur]"
        using len by (auto simp: finished_words_def)
      then show ?thesis using a True rest by (intro exI [of _ True]) (simp add: scan_shebang.simps [of buffer i] attach_word_def)
    next
      case 2
      have cur: "take (Suc word_length) (drop word_start buffer) = ?cur @ [?b]"
        using 1(3) True by (subst take_Suc_conv_app_nth) (auto simp: add.commute)
      have "scan_shebang buffer i word_start word_length ws = scan_shebang buffer (Suc i) word_start (Suc word_length) ws"
        using 2 True by (simp add: scan_shebang.simps [of buffer i])
      then show ?thesis using 1(1) [OF True 2(1,2)] 1(3) True 2 rest cur attach_split(2) [of ?b "0x20"] by simp
    next
      case 3
      let ?ws = "if word_length > 0 then ws @ [?cur] else ws"
      have "scan_shebang buffer i word_start word_length ws = scan_shebang buffer (Suc i) (Suc i) 0 ?ws"
        using 3 True by (simp add: scan_shebang.simps [of buffer i])
      moreover have "\<not> length buffer \<le> word_start" using 1(3) True by simp
      ultimately show ?thesis using 1(2) [OF True] True 3 rest attach_split(1) [of ?cur "0x20"] attach_split(3) [of "0x20"]
        by (cases "word_length = 0") simp_all
    qed
  qed
qed

text \<open>\<^bold>\<open>C39.\<close> The words the scanner finds in the first line of a script are the bytes up to the line break, cut at the
  spaces, without empty words; without a line break in the buffer it reports that the buffer is too short, without
  a word that the file cannot be run.\<close>

theorem shebang_line_words:
  assumes "is_executable_starting_with_shebang buffer"
  shows "find_shebang_interpreter_for_executable buffer =
    (if 0x0a \<notin> set (drop 2 buffer) then Inl (Errno ENOBUFS)
     else let ws = shebang_words (takeWhile (\<lambda>b. b \<noteq> 0x0a) (drop 2 buffer))
          in if ws = [] then Inl (Errno ENOEXEC) else Inr ws)"
proof -
  have "2 \<le> length buffer" using assms by (simp add: is_executable_starting_with_shebang_def)
  from scan_shebang_ok [OF _ this, of 2 0 "[]"] obtain found s l ws where
    r: "scan_shebang buffer 2 2 0 [] = (found, s, l, ws)" "found \<longleftrightarrow> 0x0a \<in> set (drop 2 buffer)"
      "found \<longrightarrow> finished_words buffer s l ws = shebang_words (takeWhile (\<lambda>b. b \<noteq> 0x0a) (drop 2 buffer))"
    by (auto simp: shebang_words_def attach_split)
  then show ?thesis using assms by (auto simp: find_shebang_interpreter_for_executable_def finished_words_def Let_def)
qed

theorem shebang_line_words_witness:
  "find_shebang_interpreter_for_executable [0x23, 0x21, 0x20, 0x41, 0x42, 0x20, 0x20, 0x43, 0x0a, 0x44] = Inr [[0x41, 0x42], [0x43]]"
  by (subst shebang_line_words) (simp_all add: is_executable_starting_with_shebang_def shebang_words_def Let_def)

section \<open>Finding the image\<close>

lemma Ehdr_at_take: "Ehdr_at (take sizeof_Ehdr bs) = Ehdr_at bs"
  by (simp add: Ehdr_at_def field_def drop_take min_def)

text \<open>What is known of an ELF file the validators accepted, and of the stack size its headers ask for.\<close>

definition accepted_file :: "exec_file \<Rightarrow> bool" where
  "accepted_file f \<longleftrightarrow> f_regular f \<and> sizeof_Ehdr \<le> length (f_bytes f) \<and> header_promises (Ehdr_at (f_bytes f)) (length (f_bytes f))"

definition stack_ok :: "nat option \<Rightarrow> bool" where
  "stack_ok m \<longleftrightarrow> (case m of None \<Rightarrow> True | Some n \<Rightarrow> n \<le> PTHREAD_STACK_MAX \<and> PAGE_SIZE dvd n)"

lemma raise_stack_ok: "stack_ok a \<Longrightarrow> stack_ok b \<Longrightarrow> stack_ok (raise_stack_size a b)"
  by (auto simp: stack_ok_def raise_stack_size_def split: option.splits)

lemma read_headers_ok:
  "case read_elf_buffer_including_program_headers f h of Inl e \<Rightarrow> (\<exists>x. e = Errno x) | Inr b \<Rightarrow> length b \<le> length (f_bytes f)"
  by (simp add: read_elf_buffer_including_program_headers_def Let_def read_file_def min_def)

lemma validated_headers_ok:
  assumes "Ehdr_ok h" "header_promises h (length (f_bytes f))" "length (f_bytes f) < 2 ^ 64" "read_elf_buffer_including_program_headers f h = Inr b"
  obtains ok i s where "validate_program_headers h (length (f_bytes f)) sm b = Inr (ok, i, s)" "stack_ok s"
    "\<And>ph. i = Some ph \<Longrightarrow> p_offset ph + p_filesz ph \<le> length (f_bytes f) \<and> 1 < p_filesz ph"
proof -
  have "length b \<le> length (f_bytes f)" using read_headers_ok [of f h] assms(4) by simp
  from validate_program_headers_total [OF assms(1,2) this assms(3), of sm] obtain ok i s where
    v: "validate_program_headers h (length (f_bytes f)) sm b = Inr (ok, i, s)"
      "\<forall>ph. i = Some ph \<longrightarrow> ph \<in> set (headers_of h b) \<and> p_type ph = PT_INTERP \<and> segment_promises h (length (f_bytes f)) ph"
      "\<forall>m. s = Some m \<longrightarrow> m \<le> PTHREAD_STACK_MAX \<and> PAGE_SIZE dvd m" by (elim exE conjE) (rule that)
  have "stack_ok s" using v(3) by (simp add: stack_ok_def split: option.splits)
  then show ?thesis using v(1,2) by (intro that [of ok i s]) (auto simp: segment_promises_def)
qed

lemma check_elf_interpreter_ok:
  assumes "length (f_bytes f) < 2 ^ 64" "stack_ok minimum"
  shows "case check_elf_interpreter sm f minimum of Inl e \<Rightarrow> (\<exists>x. e = Errno x) | Inr m \<Rightarrow> accepted_file f \<and> stack_ok m"
proof (cases "\<not> f_regular f \<or> length (f_bytes f) < sizeof_Ehdr")
  case True then show ?thesis by (auto simp: check_elf_interpreter_def)
next
  case False
  let ?h = "Ehdr_at (f_bytes f)"
  have r: "read_Ehdr (read_file f 0 sizeof_Ehdr) = Inr ?h" using False Ehdr_at_take [of "f_bytes f"] by (simp add: read_Ehdr_def read_file_def)
  obtain b where b: "validate_elf_header ?h (length (f_bytes f)) = Inr b" "b \<longrightarrow> header_promises ?h (length (f_bytes f))"
    using validate_elf_header_total [OF Ehdr_at_ok assms(1)] by blast
  have unf: "check_elf_interpreter sm f minimum = (if \<not> b then Inl (Errno ENOEXEC) else
      tryE (read_elf_buffer_including_program_headers f ?h) (\<lambda>headers.
      tryE (validate_program_headers ?h (length (f_bytes f)) sm headers) (\<lambda>(valid, interpreter, stack_size).
      if \<not> valid then Inl (Errno ENOEXEC) else if interpreter \<noteq> None then Inl (Errno ELOOP) else Inr (raise_stack_size minimum stack_size))))"
    using False r b(1) by (simp add: check_elf_interpreter_def Let_def read_file_def)
  show ?thesis
  proof (cases "b \<and> (\<exists>hs. read_elf_buffer_including_program_headers f ?h = Inr hs)")
    case F: False
    then show ?thesis unfolding unf using read_headers_ok [of f ?h] by (cases "read_elf_buffer_including_program_headers f ?h") auto
  next
    case True
    then obtain hs where hs: "read_elf_buffer_including_program_headers f ?h = Inr hs" and p: "header_promises ?h (length (f_bytes f))" using b(2) by blast
    obtain ok i s where "validate_program_headers ?h (length (f_bytes f)) sm hs = Inr (ok, i, s)" "stack_ok s"
      by (rule validated_headers_ok [OF Ehdr_at_ok p assms(1) hs])
    then show ?thesis unfolding unf using True hs p False assms(2) raise_stack_ok by (auto simp: accepted_file_def)
  qed
qed

definition files_ok :: "(u8 list \<Rightarrow> exec_file kresult) \<Rightarrow> bool" where
  "files_ok open_file \<longleftrightarrow> (\<forall>path. case open_file path of Inl e \<Rightarrow> (\<exists>x. e = Errno x) | Inr f \<Rightarrow> length (f_bytes f) < 2 ^ 64)"

lemma find_elf_interpreter_ok:
  assumes "files_ok open_file" "Ehdr_ok h" "header_promises h (length (f_bytes f))" "length (f_bytes f) < 2 ^ 64" "stack_ok minimum"
  shows "case find_elf_interpreter_for_executable open_file sm f h minimum of Inl e \<Rightarrow> (\<exists>x. e = Errno x)
    | Inr (i, m) \<Rightarrow> e_type h \<in> {ET_EXEC, ET_DYN} \<and> stack_ok m \<and> (\<forall>g. i = Some g \<longrightarrow> accepted_file g)"
proof (cases "(e_type h = ET_EXEC \<or> e_type h = ET_DYN) \<and> (\<exists>hs. read_elf_buffer_including_program_headers f h = Inr hs)")
  case False
  then show ?thesis using read_headers_ok [of f h] unfolding find_elf_interpreter_for_executable_def
    by (cases "read_elf_buffer_including_program_headers f h") auto
next
  case True
  then obtain hs where hs: "read_elf_buffer_including_program_headers f h = Inr hs" by blast
  obtain ok i s where v: "validate_program_headers h (length (f_bytes f)) sm hs = Inr (ok, i, s)" "stack_ok s"
    by (rule validated_headers_ok [OF assms(2-4) hs])
  let ?m = "raise_stack_size minimum s"
  have m: "stack_ok ?m" by (rule raise_stack_ok [OF assms(5) v(2)])
  show ?thesis
  proof (cases "ok \<and> i \<noteq> None")
    case False
    then show ?thesis using True hs v(1) m by (auto simp: find_elf_interpreter_for_executable_def Let_def)
  next
    case ok: True
    then obtain ph where ph: "i = Some ph" by blast
    let ?path = "read_file f (p_offset ph) (p_filesz ph - 1)"
    have o: "case open_file ?path of Inl e \<Rightarrow> (\<exists>x. e = Errno x) | Inr f \<Rightarrow> length (f_bytes f) < 2 ^ 64" using assms(1) by (simp add: files_ok_def)
    have unf: "find_elf_interpreter_for_executable open_file sm f h minimum = (if length ?path < p_filesz ph - 1 then Inl (Errno EIO)
        else if ?path = [] then Inr (None, ?m) else tryE (open_file ?path) (\<lambda>g. tryE (check_elf_interpreter sm g ?m) (\<lambda>m. Inr (Some g, m))))"
      using True hs v(1) ok ph by (auto simp: find_elf_interpreter_for_executable_def Let_def)
    show ?thesis
    proof (cases "open_file ?path")
      case (Inl e) then show ?thesis unfolding unf using o True m by auto
    next
      case (Inr g)
      then have "length (f_bytes g) < 2 ^ 64" using o by simp
      from check_elf_interpreter_ok [OF this m, of sm] show ?thesis unfolding unf using Inr True m by (cases "check_elf_interpreter sm g ?m") auto
    qed
  qed
qed

lemma shebang_result:
  assumes "is_executable_starting_with_shebang buffer"
  shows "case find_shebang_interpreter_for_executable buffer of Inl e \<Rightarrow> (\<exists>x. e = Errno x) | Inr ws \<Rightarrow> ws \<noteq> []"
  using assms by (auto simp: find_shebang_interpreter_for_executable_def Let_def split: prod.splits)

lemma shebang_page:
  assumes "is_executable_starting_with_shebang (zero_padded sizeof_Ehdr (read_file f 0 sizeof_Ehdr))" "3 \<le> length (f_bytes f)"
  shows "is_executable_starting_with_shebang (zero_padded PAGE_SIZE (read_file f 0 PAGE_SIZE))"
proof -
  have "f_bytes f \<noteq> []" using assms(2) by auto
  then show ?thesis using assms by (simp add: is_executable_starting_with_shebang_def zero_padded_def read_file_def nth_append)
qed

definition found_image :: "u8 list list \<Rightarrow> exec_image \<Rightarrow> bool" where
  "found_image arguments x \<longleftrightarrow> accepted_file (x_file x) \<and> x_header x = Ehdr_at (f_bytes (x_file x)) \<and> e_type (x_header x) \<in> {ET_EXEC, ET_DYN} \<and>
     (\<forall>g. x_interpreter x = Some g \<longrightarrow> accepted_file g) \<and> stack_ok (x_stack_size x) \<and> (\<exists>ws. ws \<noteq> [] \<and> x_arguments x = ws @ tl arguments)"

lemma exec_ok:
  assumes "files_ok open_file" "arguments \<noteq> []"
  shows "case exec open_file sm path arguments depth of Inl e \<Rightarrow> (\<exists>x. e = Errno x) | Inr x \<Rightarrow> found_image arguments x"
  using assms(2)
proof (induction "3 - depth" arbitrary: path arguments depth rule: less_induct)
  case less
  have o: "case open_file path of Inl e \<Rightarrow> (\<exists>x. e = Errno x) | Inr f \<Rightarrow> length (f_bytes f) < 2 ^ 64" using assms(1) by (simp add: files_ok_def)
  show ?case
  proof (cases "depth \<le> 2 \<and> (\<exists>f. open_file path = Inr f \<and> f_regular f \<and> 3 \<le> length (f_bytes f))")
    case False
    then show ?thesis using o by (cases "open_file path") (auto simp: exec.simps [of _ _ path])
  next
    case True
    then obtain f where f: "open_file path = Inr f" "f_regular f" "3 \<le> length (f_bytes f)" and d: "depth \<le> 2" by blast
    have n: "length (f_bytes f) < 2 ^ 64" using o f(1) by simp
    let ?buffer = "zero_padded sizeof_Ehdr (read_file f 0 sizeof_Ehdr)" and ?page = "zero_padded PAGE_SIZE (read_file f 0 PAGE_SIZE)"
    show ?thesis
    proof (cases "is_executable_starting_with_shebang ?buffer")
      case sh: True
      have eq: "exec open_file sm path arguments depth = tryE (find_shebang_interpreter_for_executable ?page)
          (\<lambda>ws. exec open_file sm (hd ws) (ws @ arguments[0 := path]) (Suc depth))"
        using f d sh less.prems by (simp add: exec.simps [of _ _ path] Let_def)
      note res = shebang_result [OF shebang_page [OF sh f(3)]]
      show ?thesis
      proof (cases "find_shebang_interpreter_for_executable ?page")
        case (Inl e) then show ?thesis unfolding eq using res by simp
      next
        case (Inr ws)
        then have ws: "ws \<noteq> []" using res by simp
        have "case exec open_file sm (hd ws) (ws @ arguments[0 := path]) (Suc depth) of Inl e \<Rightarrow> (\<exists>x. e = Errno x)
            | Inr x \<Rightarrow> found_image (ws @ arguments[0 := path]) x" by (rule less.hyps) (use d ws in auto)
        moreover have "found_image arguments x" if a: "found_image (ws @ arguments[0 := path]) x" for x
        proof -
          obtain us where "x_arguments x = us @ tl (ws @ arguments[0 := path])" using a by (auto simp: found_image_def)
          also have "\<dots> = (us @ tl ws @ [path]) @ tl arguments" using ws less.prems by (cases arguments) simp_all
          finally show ?thesis using a by (auto simp: found_image_def)
        qed
        ultimately show ?thesis unfolding eq using Inr by (simp split: sum.splits)
      qed
    next
      case sh: False
      show ?thesis
      proof (cases "length (f_bytes f) < sizeof_Ehdr")
        case True then show ?thesis using f d sh by (simp add: exec.simps [of _ _ path] Let_def read_file_def)
      next
        case len: False
        let ?h = "Ehdr_at (f_bytes f)"
        have r: "read_Ehdr ?buffer = Inr ?h" using len Ehdr_at_take [of "f_bytes f"] by (simp add: read_Ehdr_def read_file_def zero_padded_def)
        obtain b where b: "validate_elf_header ?h (length (f_bytes f)) = Inr b" "b \<longrightarrow> header_promises ?h (length (f_bytes f))"
          using validate_elf_header_total [OF Ehdr_at_ok n] by blast
        let ?image = "\<lambda>i m. \<lparr>x_file = f, x_arguments = arguments, x_interpreter = i, x_header = ?h, x_stack_size = m\<rparr>"
        have eq: "exec open_file sm path arguments depth = (if \<not> b then Inl (Errno ENOEXEC)
            else tryE (find_elf_interpreter_for_executable open_file sm f ?h None) (\<lambda>(i, m). Inr (?image i m)))"
          using f d sh len r b(1) by (simp add: exec.simps [of _ _ path] Let_def read_file_def)
        show ?thesis
        proof (cases b)
          case False then show ?thesis unfolding eq by simp
        next
          case True
          then have p: "header_promises ?h (length (f_bytes f))" using b(2) by simp
          have "stack_ok None" by (simp add: stack_ok_def)
          note i = find_elf_interpreter_ok [OF assms(1) Ehdr_at_ok p n this, of sm]
          have "\<exists>ws. ws \<noteq> [] \<and> arguments = ws @ tl arguments" using less.prems by (intro exI [of _ "[hd arguments]"]) simp
          then show ?thesis unfolding eq using True i f(2) len p
            by (cases "find_elf_interpreter_for_executable open_file sm f ?h None") (auto simp: found_image_def accepted_file_def)
        qed
      qed
    qed
  qed
qed



section \<open>An interpreter that is a core dump\<close>

text \<open>A core dump of one segment that is not page-aligned.\<close>

definition core_elf :: "u8 list" where
  "core_elf =
    [0x7f, 0x45, 0x4c, 0x46, 2, 1, 1, 0, 0, 0, 0, 0, 0, 0, 0, 0, 4, 0, 0x3e, 0,
     1, 0, 0, 0, 0, 0x10, 0, 0, 0, 0, 0, 0, 0x40, 0, 0, 0, 0, 0, 0, 0,
     0, 0, 0, 0, 0, 0, 0, 0, 0, 0, 0, 0, 0x40, 0, 0x38, 0, 1, 0, 0x40, 0,
     0, 0, 0, 0, 1, 0, 0, 0, 5, 0, 0, 0, 0, 0, 0, 0, 0, 0, 0, 0,
     0, 0, 0x40, 0, 0, 0, 0, 0, 0, 0, 0x40, 0, 0, 0, 0, 0, 0x78, 0, 0, 0,
     0, 0, 0, 0, 0x78, 0, 0, 0, 0, 0, 0, 0, 1, 0, 0, 0, 0, 0, 0, 0]"

definition core_file :: exec_file where
  "core_file = \<lparr>f_bytes = core_elf, f_regular = True, f_vmobject = Inr (), f_kernel_region = Inr (), f_writable_mappings = False\<rparr>"

lemma core_length: "length core_elf = 120"
  by (simp add: core_elf_def)

lemma core_header:
  "Ehdr_at core_elf = \<lparr>e_ident = [0x7f, 0x45, 0x4c, 0x46, 2, 1, 1, 0, 0, 0, 0, 0, 0, 0, 0, 0], e_type = ET_CORE, e_machine = EM_X86_64,
     e_version = 1, e_entry = 0x1000, e_phoff = 64, e_shoff = 0, e_flags = 0, e_ehsize = 64, e_phentsize = 56, e_phnum = 1,
     e_shentsize = 64, e_shnum = 0, e_shstrndx = 0\<rparr>"
  by (simp add: Ehdr_at_def field_def core_elf_def le_nat_def)

lemma core_segment:
  "Phdr_at core_elf 64 = \<lparr>p_type = PT_LOAD, p_flags = 5, p_offset = 0, p_vaddr = 0x400000, p_paddr = 0x400000, p_filesz = 120, p_memsz = 120, p_align = 1\<rparr>"
  by (simp add: Phdr_at_def field_def core_elf_def le_nat_def)

lemma core_table: "end_of_table 64 1 56 = Inr (Checked size_t 120)" "end_of_table 0 0 64 = Inr (Checked size_t 0)"
  "\<not> has_overflow (Checked size_t 120)" "\<not> has_overflow (Checked size_t 0)"
  "checked_value (Checked size_t 120) = Inr 120" "checked_greater (Checked size_t 120) 120 = Inr False"
  "checked_greater (Checked size_t 0) 120 = Inr False"
  using checked_size_t(1) [of 120] checked_size_t(1) [of 0] checked_size_t(2) [of 120] checked_size_t(3) [of 120 120] checked_size_t(3) [of 0 120]
  by (simp_all add: end_of_table_eq)

lemma core_header_valid: "validate_elf_header (Ehdr_at core_elf) 120 = Inr True"
  unfolding core_header validate_elf_header_def IS_ELF_def using core_table by simp

lemma core_headers_valid: "validate_program_headers (Ehdr_at core_elf) 120 None core_elf = Inr (True, None, None)"
proof -
  have "check_program_header (Ehdr_at core_elf) 120 None (Phdr_at core_elf 64) = Accept"
    unfolding core_header core_segment check_program_header_def check_segment_def PF_X_def PF_W_def
    by (simp add: addition_would_overflow_def in_range_def size_t_def min_of_def max_of_def)
  then show ?thesis unfolding validate_program_headers_def using core_table core_length by (simp add: core_header read_Phdr_def upt_rec)
qed

lemma core_image: "Image_parse None core_elf =
    Inr \<lparr>m_buffer = core_elf, m_valid = True, m_symbol_table_section_index = 0, m_string_table_section_index = 0\<rparr>"
proof -
  have "image_header img = Inr (Ehdr_at core_elf)" if "m_buffer img = core_elf" for img
    using image_header_eq [of img] core_length that by simp
  then show ?thesis using core_header_valid core_headers_valid core_length by (simp add: Image_parse_def Let_def section_count_def core_header)
qed

text \<open>\<^bold>\<open>C40.\<close> A core dump passes every check of a program interpreter, and loading it panics: the validators exempt core dumps
  from the alignment of their segments, and the loader takes the alignment for granted.\<close>

theorem core_interpreter_panics:
  "check_elf_interpreter None core_file None = Inr None \<and>
   load_elf_object place None core_file load_offset True None s = Inl Verification_failed"
proof -
  have hs: "image_program_headers \<lparr>m_buffer = core_elf, m_valid = True, m_symbol_table_section_index = 0, m_string_table_section_index = 0\<rparr> =
      Inr [Phdr_at core_elf 64]"
  proof -
    have "image_wf \<lparr>m_buffer = core_elf, m_valid = True, m_symbol_table_section_index = 0, m_string_table_section_index = 0\<rparr>"
      using validate_elf_header_total [OF Ehdr_at_ok, of 120 core_elf] core_header_valid core_length by (auto simp: image_wf_def)
    from image_program_headers_eq [OF this] show ?thesis by (simp add: headers_of_def core_header upt_rec)
  qed
  have "section_request img load_offset True (Phdr_at core_elf 64) = Inl Verification_failed" for img
    by (simp add: section_request_def core_segment PF_W_def)
  then have "load_elf_object place None core_file load_offset True None s = Inl Verification_failed"
    using hs core_image core_length by (simp add: load_elf_object_def core_file_def page_round_up_def Let_def)
  moreover have "read_Ehdr (take sizeof_Ehdr core_elf) = Inr (Ehdr_at core_elf)" using Ehdr_at_take [of core_elf] core_length by (simp add: read_Ehdr_def)
  then have "check_elf_interpreter None core_file None = Inr None"
    using core_header_valid core_headers_valid core_length
    by (simp add: check_elf_interpreter_def core_file_def Let_def read_file_def read_elf_buffer_including_program_headers_def core_header
        addition_would_overflow_def multiplication_would_overflow_def in_range_def size_t_def min_of_def max_of_def raise_stack_size_def)
  ultimately show ?thesis by blast
qed

end
