(* ===== verification/Region_Tree.thy ===== *)
theory Region_Tree
  imports Virtual_Range
begin

text \<open>
  \<^verbatim>\<open>Kernel/Memory/Region\<close> and \<^verbatim>\<open>Kernel/Memory/RegionTree\<close>: regions of virtual memory, their access bits, and the tree
  of the regions of an address space with its three ways of finding a free range. The tree, an intrusive
  red-black tree keyed by the base of the regions, is the list of its regions in the order of their keys.

  A region's memory object is given by what the code asks of it: its identity, its kind and its size. What
  the memory manager may run out of is an argument: \<^verbatim>\<open>pte_available\<close> says for an address whether a page table entry
  can be had, \<^verbatim>\<open>region_memory\<close> for a range whether a region for it can be allocated, \<^verbatim>\<open>anonymous_memory\<close> for a
  strategy and a size whether the physical pages of an anonymous memory object can. The random numbers are
  an argument too.
\<close>

section \<open>Regions\<close>

datatype vmobject_kind = Anonymous bool | Shared_inode | Private_inode | Other_vmobject

record vmobject =
  vm_identity :: nat
  vm_kind :: vmobject_kind
  vm_size :: nat

definition is_anonymous :: "vmobject \<Rightarrow> bool" where
  "is_anonymous v \<longleftrightarrow> (case vm_kind v of Anonymous _ \<Rightarrow> True | _ \<Rightarrow> False)"

definition is_purgeable :: "vmobject \<Rightarrow> bool" where
  "is_purgeable v \<longleftrightarrow> (case vm_kind v of Anonymous purgeable \<Rightarrow> purgeable | _ \<Rightarrow> False)"

definition is_shared_inode :: "vmobject \<Rightarrow> bool" where
  "is_shared_inode v \<longleftrightarrow> vm_kind v = Shared_inode"

definition is_inode :: "vmobject \<Rightarrow> bool" where
  "is_inode v \<longleftrightarrow> vm_kind v = Shared_inode \<or> vm_kind v = Private_inode"

datatype memory_type = Normal_memory | NonCacheable_memory | IO_memory

record region =
  m_range :: virtual_range
  m_offset_in_vmobject :: nat
  m_vmobject :: vmobject
  m_name :: "string option"
  m_access :: u8
  m_shared :: bool
  m_stack :: bool
  m_mmap :: bool
  m_syscall_region :: bool
  m_mmapped_from_readable :: bool
  m_mmapped_from_writable :: bool
  m_memory_type :: memory_type
  m_immutable :: bool
  m_initially_loaded_executable_segment :: bool
  m_has_been_readable :: bool
  m_has_been_writable :: bool
  m_has_been_executable :: bool
  m_page_directory :: bool

abbreviation (input) Access_Read :: u8 where "Access_Read \<equiv> 1"
abbreviation (input) Access_Write :: u8 where "Access_Write \<equiv> 2"
abbreviation (input) Access_Execute :: u8 where "Access_Execute \<equiv> 4"

abbreviation vaddr :: "region \<Rightarrow> nat" where
  "vaddr r \<equiv> vbase (m_range r)"

definition is_readable :: "region \<Rightarrow> bool" where
  "is_readable r \<longleftrightarrow> m_access r AND Access_Read = Access_Read"

definition is_writable :: "region \<Rightarrow> bool" where
  "is_writable r \<longleftrightarrow> m_access r AND Access_Write = Access_Write"

definition is_executable :: "region \<Rightarrow> bool" where
  "is_executable r \<longleftrightarrow> m_access r AND Access_Execute = Access_Execute"

definition set_access_bit :: "u8 \<Rightarrow> bool \<Rightarrow> region \<Rightarrow> region" where
  "set_access_bit access b r = r\<lparr>m_access := (if b then m_access r OR access else m_access r AND NOT access)\<rparr>"

definition set_readable :: "bool \<Rightarrow> region \<Rightarrow> region" where
  "set_readable b r =
     (let r = set_access_bit Access_Read b r in if b then r\<lparr>m_has_been_readable := True\<rparr> else r)"

definition set_writable :: "bool \<Rightarrow> region \<Rightarrow> region" where
  "set_writable b r =
     (let r = set_access_bit Access_Write b r in if b then r\<lparr>m_has_been_writable := True\<rparr> else r)"

definition set_executable :: "bool \<Rightarrow> region \<Rightarrow> region" where
  "set_executable b r =
     (let r = set_access_bit Access_Execute b r in if b then r\<lparr>m_has_been_executable := True\<rparr> else r)"

definition set_mmap :: "bool \<Rightarrow> bool \<Rightarrow> bool \<Rightarrow> region \<Rightarrow> region" where
  "set_mmap mmap description_was_readable description_was_writable r =
     r\<lparr>m_mmap := mmap, m_mmapped_from_readable := description_was_readable,
       m_mmapped_from_writable := description_was_writable\<rparr>"

type_synonym prot = u32

abbreviation (input) PROT_NONE :: prot where "PROT_NONE \<equiv> 0"
abbreviation (input) PROT_READ :: prot where "PROT_READ \<equiv> 1"
abbreviation (input) PROT_WRITE :: prot where "PROT_WRITE \<equiv> 2"
abbreviation (input) PROT_EXEC :: prot where "PROT_EXEC \<equiv> 4"

definition prot_has :: "prot \<Rightarrow> prot \<Rightarrow> bool" where
  "prot_has prot b \<longleftrightarrow> prot AND b \<noteq> 0"

definition prot_to_region_access_flags :: "prot \<Rightarrow> u8" where
  "prot_to_region_access_flags prot =
     (let access = 0;
          access = (if prot AND PROT_READ = PROT_READ then access OR Access_Read else access);
          access = (if prot AND PROT_WRITE = PROT_WRITE then access OR Access_Write else access)
      in if prot AND PROT_EXEC = PROT_EXEC then access OR Access_Execute else access)"

definition region_access_flags_to_prot :: "u8 \<Rightarrow> prot" where
  "region_access_flags_to_prot access =
     (let prot = 0;
          prot = (if access AND Access_Read = Access_Read then prot OR PROT_READ else prot);
          prot = (if access AND Access_Write = Access_Write then prot OR PROT_WRITE else prot)
      in if access AND Access_Execute = Access_Execute then prot OR PROT_EXEC else prot)"

text \<open>The constructor, not yet placed: \<^verbatim>\<open>update_shadow_permission_bits\<close> sets the flags that remember what the region has
  been from the access it starts with.\<close>

definition create_unplaced ::
  "vmobject \<Rightarrow> nat \<Rightarrow> string option \<Rightarrow> u8 \<Rightarrow> memory_type \<Rightarrow> bool \<Rightarrow> region" where
  "create_unplaced v offset_in_vmobject name access memory_type shared =
     \<lparr>m_range = \<lparr>vbase = 0, vsize = 0\<rparr>, m_offset_in_vmobject = offset_in_vmobject, m_vmobject = v, m_name = name,
      m_access = access, m_shared = shared, m_stack = False, m_mmap = False, m_syscall_region = False,
      m_mmapped_from_readable = False, m_mmapped_from_writable = False, m_memory_type = memory_type,
      m_immutable = False, m_initially_loaded_executable_segment = False,
      m_has_been_readable = (access AND Access_Read = Access_Read),
      m_has_been_writable = (access AND Access_Write = Access_Write),
      m_has_been_executable = (access AND Access_Execute = Access_Execute),
      m_page_directory = False\<rparr>"

section \<open>Mapping a region\<close>

datatype allocation_strategy = Strategy_None | Strategy_Reserve | Strategy_AllocateNow

record vm_env =
  kernel_mapping_base :: nat
  pte_available :: "nat \<Rightarrow> bool"
  region_memory :: "virtual_range \<Rightarrow> bool"
  anonymous_memory :: "allocation_strategy \<Rightarrow> nat \<Rightarrow> bool"
  fresh_identity :: nat
  vector_memory :: bool
  vm_random :: "nat \<Rightarrow> nat"

definition page_count :: "region \<Rightarrow> nat" where
  "page_count r = vsize (m_range r) div PAGE_SIZE"

definition vaddr_from_page_index :: "region \<Rightarrow> nat \<Rightarrow> nat" where
  "vaddr_from_page_index r page_index = size_add (vaddr r) (page_index * PAGE_SIZE)"

definition is_kernel :: "vm_env \<Rightarrow> region \<Rightarrow> bool" where
  "is_kernel env r \<longleftrightarrow> vaddr r < USER_RANGE_BASE \<or> vaddr r \<ge> kernel_mapping_base env"

definition map_individual_page_impl :: "vm_env \<Rightarrow> region \<Rightarrow> nat \<Rightarrow> bool kresult" where
  "map_individual_page_impl env r page_index =
     (let page_vaddr = vaddr_from_page_index r page_index;
          user_allowed = (page_vaddr \<ge> USER_RANGE_BASE \<and> is_user_address (kernel_mapping_base env) page_vaddr)
      in verifyE (\<not> (m_mmap r \<and> \<not> user_allowed)) (Inr (pte_available env page_vaddr)))"

fun map_pages :: "vm_env \<Rightarrow> region \<Rightarrow> nat list \<Rightarrow> bool kresult" where
  "map_pages env r [] = Inr True"
| "map_pages env r (page_index # rest) =
     tryE (map_individual_page_impl env r page_index) (\<lambda>mapped. if mapped then map_pages env r rest else Inr False)"

text \<open>\<^verbatim>\<open>Region::map\<close> gives the region back with its page directory, and whether every page was mapped.\<close>

definition Region_map :: "vm_env \<Rightarrow> region \<Rightarrow> (region \<times> bool) kresult" where
  "Region_map env r =
     verifyE (\<not> (\<not> is_kernel env r \<and> \<not> m_shared r \<and> is_shared_inode (m_vmobject r)))
       (tryE (map_pages env r [0..<page_count r]) (\<lambda>mapped.
        Inr (r\<lparr>m_page_directory := True\<rparr>, mapped \<and> page_count r > 0)))"

definition Region_remap :: "vm_env \<Rightarrow> region \<Rightarrow> region kresult" where
  "Region_remap env r =
     verifyE (m_page_directory r)
       (tryE (Region_map env r) (\<lambda>(r, mapped). verifyE mapped (Inr r)))"

section \<open>The tree\<close>

record region_tree =
  m_regions :: "region list"
  m_total_range :: virtual_range

definition find_region :: "region list \<Rightarrow> nat \<Rightarrow> region option" where
  "find_region rs key = List.find (\<lambda>r. vaddr r = key) rs"

definition find_largest_not_above :: "region list \<Rightarrow> nat \<Rightarrow> region option" where
  "find_largest_not_above rs key = List.find (\<lambda>r. vaddr r \<le> key) (rev rs)"

definition insert_region :: "region \<Rightarrow> region list \<Rightarrow> region list" where
  "insert_region r rs = takeWhile (\<lambda>q. vaddr q \<le> vaddr r) rs @ [r] @ dropWhile (\<lambda>q. vaddr q \<le> vaddr r) rs"

definition remove_region :: "nat \<Rightarrow> region list \<Rightarrow> region list" where
  "remove_region key rs = filter (\<lambda>r. vaddr r \<noteq> key) rs"

definition update_region :: "nat \<Rightarrow> (region \<Rightarrow> region) \<Rightarrow> region list \<Rightarrow> region list" where
  "update_region key f rs = map (\<lambda>r. if vaddr r = key then f r else r) rs"

definition allocate_from_window :: "nat \<Rightarrow> nat \<Rightarrow> virtual_range \<Rightarrow> virtual_range option" where
  "allocate_from_window n alignment window =
     (if vsize window < n + alignment then None
      else Some \<lparr>vbase = round_up_to_power_of_two (vbase window) alignment, vsize = n\<rparr>)"

fun search_windows :: "virtual_range \<Rightarrow> nat \<Rightarrow> nat \<Rightarrow> nat \<Rightarrow> region list \<Rightarrow> virtual_range kresult" where
  "search_windows total_range n alignment window_start [] =
     (let window = \<lparr>vbase = window_start, vsize = size_sub (vend total_range) window_start\<rparr>
      in if contains_range total_range window then
           (case allocate_from_window n alignment window of Some r \<Rightarrow> Inr r | None \<Rightarrow> Inl (Errno ENOMEM))
         else Inl (Errno ENOMEM))"
| "search_windows total_range n alignment window_start (region # regions) =
     (if window_start = vaddr region then search_windows total_range n alignment (vend (m_range region)) regions
      else
        case allocate_from_window n alignment \<lparr>vbase = window_start, vsize = size_sub (vaddr region) window_start\<rparr> of
          Some r \<Rightarrow> Inr r
        | None \<Rightarrow> search_windows total_range n alignment (vend (m_range region)) regions)"

definition allocate_range_anywhere :: "region_tree \<Rightarrow> nat \<Rightarrow> nat \<Rightarrow> virtual_range kresult" where
  "allocate_range_anywhere t n alignment =
     (if n = 0 then Inl (Errno EINVAL)
      else
        verifyE (n mod PAGE_SIZE = 0) (verifyE (alignment mod PAGE_SIZE = 0)
          (if addition_would_overflow size_t (int n) (int alignment) then Inl (Errno EOVERFLOW)
           else search_windows (m_total_range t) n alignment (vbase (m_total_range t)) (m_regions t))))"

definition allocate_range_specific :: "region_tree \<Rightarrow> nat \<Rightarrow> nat \<Rightarrow> virtual_range kresult" where
  "allocate_range_specific t b n =
     (if n = 0 then Inl (Errno EINVAL)
      else
        verifyE (b mod PAGE_SIZE = 0) (verifyE (n mod PAGE_SIZE = 0)
          (let r = \<lparr>vbase = b, vsize = n\<rparr>
           in if \<not> contains_range (m_total_range t) r then Inl (Errno ENOMEM)
              else
                case find_largest_not_above (m_regions t) (size_add b (n - 1)) of
                  None \<Rightarrow> Inr r
                | Some region \<Rightarrow> if intersects (m_range region) r then Inl (Errno ENOMEM) else Inr r)))"

abbreviation (input) maximum_randomization_attempts :: nat where
  "maximum_randomization_attempts \<equiv> 1000"

fun try_random_addresses :: "region_tree \<Rightarrow> nat \<Rightarrow> nat \<Rightarrow> nat list \<Rightarrow> virtual_range option kresult" where
  "try_random_addresses t n alignment [] = Inr None"
| "try_random_addresses t n alignment (random # randoms) =
     (let random_address = round_up_to_power_of_two (random mod vend (m_total_range t)) alignment
      in if \<not> contains_span (m_total_range t) random_address n then try_random_addresses t n alignment randoms
         else
           case allocate_range_specific t random_address n of
             Inr r \<Rightarrow> Inr (Some r)
           | Inl (Errno _) \<Rightarrow> try_random_addresses t n alignment randoms
           | Inl e \<Rightarrow> Inl e)"

definition allocate_range_randomized :: "vm_env \<Rightarrow> region_tree \<Rightarrow> nat \<Rightarrow> nat \<Rightarrow> virtual_range kresult" where
  "allocate_range_randomized env t n alignment =
     (if n = 0 then Inl (Errno EINVAL)
      else
        verifyE (n mod PAGE_SIZE = 0) (verifyE (alignment mod PAGE_SIZE = 0)
          (tryE (try_random_addresses t n alignment (map (vm_random env) [0..<maximum_randomization_attempts])) (\<lambda>found.
           case found of Some r \<Rightarrow> Inr r | None \<Rightarrow> allocate_range_anywhere t n alignment))))"

definition place_anywhere :: "vm_env \<Rightarrow> region \<Rightarrow> bool \<Rightarrow> nat \<Rightarrow> nat \<Rightarrow> region_tree \<Rightarrow> (region \<times> region_tree) kresult" where
  "place_anywhere env r randomize n alignment t =
     tryE (if randomize then allocate_range_randomized env t n alignment else allocate_range_anywhere t n alignment) (\<lambda>rng.
       let r = r\<lparr>m_range := rng\<rparr> in Inr (r, t\<lparr>m_regions := insert_region r (m_regions t)\<rparr>))"

definition place_specifically :: "region \<Rightarrow> virtual_range \<Rightarrow> region_tree \<Rightarrow> (region \<times> region_tree) kresult" where
  "place_specifically r rng t =
     tryE (allocate_range_specific t (vbase rng) (vsize rng)) (\<lambda>rng.
       let r = r\<lparr>m_range := rng\<rparr> in Inr (r, t\<lparr>m_regions := insert_region r (m_regions t)\<rparr>))"

definition find_region_containing_address :: "region_tree \<Rightarrow> nat \<Rightarrow> region option" where
  "find_region_containing_address t address =
     (case find_largest_not_above (m_regions t) address of
        None \<Rightarrow> None
      | Some r \<Rightarrow> if contains_address (m_range r) address then Some r else None)"

definition find_region_containing :: "region_tree \<Rightarrow> virtual_range \<Rightarrow> region option" where
  "find_region_containing t rng =
     (case find_largest_not_above (m_regions t) (vbase rng) of
        None \<Rightarrow> None
      | Some r \<Rightarrow> if contains_range (m_range r) rng then Some r else None)"

end
