(* ===== verification/Address_Space.thy ===== *)
theory Address_Space
  imports Region_Tree
begin

text \<open>
  \<^verbatim>\<open>Kernel/Memory/AddressSpace\<close>: making, splitting, finding and unmapping the regions of a process. Operations return
  their result with the new address space, since an operation that fails may have changed it. A pointer to a
  region of the tree is its base address, a region that was found is its value.
\<close>

record address_space =
  m_region_tree :: region_tree
  m_enforces_syscall_regions :: bool

abbreviation regions :: "address_space \<Rightarrow> region list" where
  "regions s \<equiv> m_regions (m_region_tree s)"

definition with_regions :: "(region list \<Rightarrow> region list) \<Rightarrow> address_space \<Rightarrow> address_space" where
  "with_regions f s = s\<lparr>m_region_tree := (m_region_tree s)\<lparr>m_regions := f (regions s)\<rparr>\<rparr>"

section \<open>Construction\<close>

text \<open>The base of the addresses of a process is moved by a random \<^verbatim>\<open>u8\<close>; a forked process takes over the range of its
  parent.\<close>

definition AddressSpace_try_create :: "vm_env \<Rightarrow> bool \<Rightarrow> u8 \<Rightarrow> address_space option \<Rightarrow> address_space kresult" where
  "AddressSpace_try_create env page_directory_available random parent =
     (if \<not> page_directory_available then Inl (Errno ENOMEM)
      else
        let total_range =
              (case parent of
                 Some p \<Rightarrow> m_total_range (m_region_tree p)
               | None \<Rightarrow>
                   let random_offset = page_round_down (unat random mod 2 * (1024 * 1024));
                       b = size_add USER_RANGE_BASE random_offset
                   in \<lparr>vbase = b, vsize = size_sub (USER_RANGE_CEILING (kernel_mapping_base env)) b\<rparr>)
        in Inr \<lparr>m_region_tree = \<lparr>m_regions = [], m_total_range = total_range\<rparr>, m_enforces_syscall_regions = False\<rparr>)"

section \<open>Regions by address\<close>

definition find_region_from_range :: "address_space \<Rightarrow> virtual_range \<Rightarrow> region option" where
  "find_region_from_range s rng =
     (case find_region (regions s) (vbase rng) of
        None \<Rightarrow> None
      | Some r \<Rightarrow> if page_round_up (vsize rng) = Inr (vsize (m_range r)) then Some r else None)"

fun collect_intersecting :: "vm_env \<Rightarrow> virtual_range \<Rightarrow> nat \<Rightarrow> region list \<Rightarrow> region list kresult" where
  "collect_intersecting env rng total_size_collected [] = Inr []"
| "collect_intersecting env rng total_size_collected (r # rs) =
     (if vaddr r < vend rng \<and> vend (m_range r) > vbase rng then
        if \<not> vector_memory env then Inl (Errno ENOMEM)
        else
          tryE (intersect (m_range r) rng) (\<lambda>common.
          let total_size_collected = size_add total_size_collected (size_sub (vsize (m_range r)) (vsize common))
          in if total_size_collected = vsize rng then Inr [r]
             else tryE (collect_intersecting env rng total_size_collected rs) (\<lambda>found. Inr (r # found)))
      else collect_intersecting env rng total_size_collected rs)"

definition find_regions_intersecting :: "vm_env \<Rightarrow> address_space \<Rightarrow> virtual_range \<Rightarrow> region list kresult" where
  "find_regions_intersecting env s rng =
     (case find_largest_not_above (regions s) (vbase rng) of
        None \<Rightarrow> Inr []
      | Some found \<Rightarrow> collect_intersecting env rng 0 (dropWhile (\<lambda>r. r \<noteq> found) (regions s)))"

section \<open>Making regions\<close>

definition try_create_with_size :: "vm_env \<Rightarrow> nat \<Rightarrow> allocation_strategy \<Rightarrow> vmobject kresult" where
  "try_create_with_size env n strategy =
     (if anonymous_memory env strategy n
      then Inr \<lparr>vm_identity = fresh_identity env, vm_kind = Anonymous False, vm_size = (n + PAGE_SIZE - 1) div PAGE_SIZE * PAGE_SIZE\<rparr>
      else Inl (Errno ENOMEM))"

definition try_create_purgeable_with_size :: "vm_env \<Rightarrow> nat \<Rightarrow> allocation_strategy \<Rightarrow> vmobject kresult" where
  "try_create_purgeable_with_size env n strategy =
     tryE (try_create_with_size env n strategy) (\<lambda>v. Inr (v\<lparr>vm_kind := Anonymous True\<rparr>))"

text \<open>The region is made for its eventual range, and placed.\<close>

definition place :: "vm_env \<Rightarrow> region \<Rightarrow> bool \<Rightarrow> nat \<Rightarrow> nat \<Rightarrow> nat \<Rightarrow> address_space \<Rightarrow> region kresult \<times> address_space" where
  "place env r randomize requested_address n alignment s =
     (if \<not> region_memory env \<lparr>vbase = requested_address, vsize = n\<rparr> then (Inl (Errno ENOMEM), s)
      else
        case (if requested_address = 0 then place_anywhere env r randomize n alignment (m_region_tree s)
              else place_specifically r \<lparr>vbase = requested_address, vsize = n\<rparr> (m_region_tree s)) of
          Inl e \<Rightarrow> (Inl e, s)
        | Inr (r, t) \<Rightarrow> (Inr r, s\<lparr>m_region_tree := t\<rparr>))"

text \<open>In \<^verbatim>\<open>allocate_region\<close> a region that cannot be mapped is destroyed while it is in the tree, which the destructor
  of its tree node rules out with a check.\<close>

definition allocate_region ::
  "vm_env \<Rightarrow> bool \<Rightarrow> nat \<Rightarrow> nat \<Rightarrow> nat \<Rightarrow> string option \<Rightarrow> prot \<Rightarrow> allocation_strategy \<Rightarrow> address_space \<Rightarrow>
   region kresult \<times> address_space" where
  "allocate_region env randomize requested_address requested_size requested_alignment name prot strategy s =
     (if requested_address mod PAGE_SIZE \<noteq> 0 then (Inl (Errno EINVAL), s)
      else
        tryS (page_round_up requested_size, s) (\<lambda>n s.
        tryS (page_round_up requested_alignment, s) (\<lambda>alignment s.
        tryS (try_create_with_size env n strategy, s) (\<lambda>v s.
        let r = create_unplaced v 0 name (prot_to_region_access_flags prot) Normal_memory False
        in tryS (place env r randomize requested_address n alignment s) (\<lambda>r s.
           tryS (Region_map env r, s) (\<lambda>(r, mapped) s.
           if mapped then (Inr r, with_regions (update_region (vaddr r) (\<lambda>_. r)) s)
           else (Inl Verification_failed, s)))))))"

definition allocate_region_with_vmobject ::
  "vm_env \<Rightarrow> bool \<Rightarrow> nat \<Rightarrow> nat \<Rightarrow> nat \<Rightarrow> vmobject \<Rightarrow> nat \<Rightarrow> string option \<Rightarrow> prot \<Rightarrow> bool \<Rightarrow> memory_type \<Rightarrow> address_space \<Rightarrow>
   region kresult \<times> address_space" where
  "allocate_region_with_vmobject env randomize requested_address requested_size requested_alignment v offset_in_vmobject
     name prot shared memory_type s =
     (if requested_address mod PAGE_SIZE \<noteq> 0 then (Inl (Errno EINVAL), s)
      else
        tryS (page_round_up requested_size, s) (\<lambda>n s.
        tryS (page_round_up requested_alignment, s) (\<lambda>alignment s.
        if addition_would_overflow size_t (int offset_in_vmobject) (int requested_size) then (Inl (Errno EOVERFLOW), s)
        else if offset_in_vmobject \<ge> vm_size v then (Inl (Errno EINVAL), s)
        else if offset_in_vmobject + requested_size > vm_size v then (Inl (Errno EINVAL), s)
        else
          let r = create_unplaced v (page_round_down offset_in_vmobject) name (prot_to_region_access_flags prot) memory_type shared
          in tryS (place env r randomize requested_address n alignment s) (\<lambda>r s.
             if prot = PROT_NONE then
               let r = r\<lparr>m_page_directory := True\<rparr>
               in (Inr r, with_regions (update_region (vaddr r) (\<lambda>_. r)) s)
             else
               tryS (Region_map env r, s) (\<lambda>(r, mapped) s.
               if mapped then (Inr r, with_regions (update_region (vaddr r) (\<lambda>_. r)) s)
               else (Inl (Errno ENOMEM), with_regions (remove_region (vaddr r)) s)))))) "

section \<open>Taking, splitting and mapping regions\<close>

definition take_region :: "region \<Rightarrow> address_space \<Rightarrow> region kresult \<times> address_space" where
  "take_region r s =
     (if find_region (regions s) (vaddr r) = None then (Inl Verification_failed, s)
      else (Inr r, with_regions (remove_region (vaddr r)) s))"

definition deallocate_region :: "region \<Rightarrow> address_space \<Rightarrow> unit kresult \<times> address_space" where
  "deallocate_region r s = tryS (take_region r s) (\<lambda>_ s. (Inr (), s))"

definition try_allocate_split_region ::
  "vm_env \<Rightarrow> region \<Rightarrow> virtual_range \<Rightarrow> nat \<Rightarrow> address_space \<Rightarrow> nat kresult \<times> address_space" where
  "try_allocate_split_region env source_region rng offset_in_vmobject s =
     (if \<not> region_memory env rng then (Inl (Errno ENOMEM), s)
      else
        let new_region = create_unplaced (m_vmobject source_region) offset_in_vmobject (m_name source_region)
              (m_access source_region) (m_memory_type source_region) (m_shared source_region);
            new_region = new_region\<lparr>m_syscall_region := m_syscall_region source_region\<rparr>;
            new_region = set_mmap (m_mmap source_region) (m_mmapped_from_readable source_region)
              (m_mmapped_from_writable source_region) new_region;
            new_region = new_region\<lparr>m_stack := m_stack source_region\<rparr>
        in case place_specifically new_region rng (m_region_tree s) of
             Inl e \<Rightarrow> (Inl e, s)
           | Inr (r, t) \<Rightarrow> (Inr (vaddr r), s\<lparr>m_region_tree := t\<rparr>))"

fun make_replacement_regions ::
  "vm_env \<Rightarrow> region \<Rightarrow> virtual_range list \<Rightarrow> address_space \<Rightarrow> nat list kresult \<times> address_space" where
  "make_replacement_regions env source_region [] s = (Inr [], s)"
| "make_replacement_regions env source_region (new_range # ranges) s =
     (if \<not> contains_range (m_range source_region) new_range then (Inl Verification_failed, s)
      else
        let new_range_offset_in_vmobject =
              size_add (m_offset_in_vmobject source_region) (size_sub (vbase new_range) (vaddr source_region))
        in tryS (try_allocate_split_region env source_region new_range new_range_offset_in_vmobject s) (\<lambda>new_region s.
           tryS (make_replacement_regions env source_region ranges s) (\<lambda>new_regions s. (Inr (new_region # new_regions), s))))"

definition try_split_region_around_range ::
  "vm_env \<Rightarrow> region \<Rightarrow> virtual_range \<Rightarrow> address_space \<Rightarrow> nat list kresult \<times> address_space" where
  "try_split_region_around_range env source_region desired_range s =
     tryS (carve (m_range source_region) desired_range, s) (\<lambda>remaining_ranges_after_unmap s.
     if remaining_ranges_after_unmap = [] then (Inl Verification_failed, s)
     else make_replacement_regions env source_region remaining_ranges_after_unmap s)"

definition map_region :: "vm_env \<Rightarrow> nat \<Rightarrow> address_space \<Rightarrow> unit kresult \<times> address_space" where
  "map_region env key s =
     (case find_region (regions s) key of
        None \<Rightarrow> (Inl Verification_failed, s)
      | Some r \<Rightarrow>
          tryS (Region_map env r, s) (\<lambda>(r, mapped) s.
          let s = with_regions (update_region key (\<lambda>_. r)) s
          in if mapped then (Inr (), s) else (Inl (Errno ENOMEM), s)))"

fun map_regions :: "vm_env \<Rightarrow> nat list \<Rightarrow> address_space \<Rightarrow> unit kresult \<times> address_space" where
  "map_regions env [] s = (Inr (), s)"
| "map_regions env (new_region # new_regions) s =
     tryS (map_region env new_region s) (\<lambda>_ s. map_regions env new_regions s)"

section \<open>Unmapping\<close>

fun unmap_regions ::
  "vm_env \<Rightarrow> virtual_range \<Rightarrow> region list \<Rightarrow> address_space \<Rightarrow> nat list kresult \<times> address_space" where
  "unmap_regions env range_to_unmap [] s = (Inr [], s)"
| "unmap_regions env range_to_unmap (old_region # old_regions) s =
     tryS (intersect (m_range old_region) range_to_unmap, s) (\<lambda>common s.
     if vsize common = vsize (m_range old_region) then
       tryS (deallocate_region old_region s) (\<lambda>_ s. unmap_regions env range_to_unmap old_regions s)
     else
       tryS (take_region old_region s) (\<lambda>region s.
       tryS (try_split_region_around_range env region range_to_unmap s) (\<lambda>split_regions s.
       tryS (unmap_regions env range_to_unmap old_regions s) (\<lambda>new_regions s. (Inr (split_regions @ new_regions), s)))))"

definition unmap_mmap_range :: "vm_env \<Rightarrow> nat \<Rightarrow> nat \<Rightarrow> address_space \<Rightarrow> unit kresult \<times> address_space" where
  "unmap_mmap_range env addr n s =
     (if n = 0 then (Inl (Errno EINVAL), s)
      else
        tryS (expand_to_page_boundaries addr n, s) (\<lambda>range_to_unmap s.
        if \<not> is_user_range (kernel_mapping_base env) (vbase range_to_unmap) (vsize range_to_unmap) then (Inl (Errno EFAULT), s)
        else
          case find_region_from_range s range_to_unmap of
            Some whole_region \<Rightarrow>
              if \<not> m_mmap whole_region then (Inl (Errno EPERM), s)
              else if m_immutable whole_region then (Inl (Errno EPERM), s)
              else deallocate_region whole_region s
          | None \<Rightarrow>
              case find_region_containing (m_region_tree s) range_to_unmap of
                Some old_region \<Rightarrow>
                  if \<not> m_mmap old_region then (Inl (Errno EPERM), s)
                  else if m_immutable old_region then (Inl (Errno EPERM), s)
                  else
                    tryS (take_region old_region s) (\<lambda>region s.
                    tryS (try_split_region_around_range env region range_to_unmap s) (\<lambda>new_regions s.
                    map_regions env new_regions s))
              | None \<Rightarrow>
                  tryS (find_regions_intersecting env s range_to_unmap, s) (\<lambda>old_regions s.
                  if old_regions = [] then (Inr (), s)
                  else if \<exists>r \<in> set old_regions. \<not> m_mmap r \<or> m_immutable r then (Inl (Errno EPERM), s)
                  else
                    tryS (unmap_regions env range_to_unmap old_regions s) (\<lambda>new_regions s.
                    map_regions env new_regions s))))"

section \<open>Accounting\<close>

definition amount_virtual :: "address_space \<Rightarrow> nat" where
  "amount_virtual s = foldl (\<lambda>amount r. size_add amount (vsize (m_range r))) 0 (regions s)"

end
