(* ===== verification/Mmap.thy ===== *)
theory Mmap
  imports Address_Space Process_State
begin

text \<open>
  \<^verbatim>\<open>Kernel/Syscalls/mmap.cpp\<close>: the system calls on the address space of the calling process. The structures copied from
  user memory, the open file descriptions and the memory objects made from them are arguments; the system
  calls run on the process and its address space.
\<close>

record vm_process =
  vp_process :: process
  vp_space :: address_space
  vp_axallowed :: bool
  vp_wxallowed :: bool
  vp_reject_transition :: bool

type_synonym 'a syscall = "vm_process \<Rightarrow> 'a kresult \<times> vm_process"

definition gate :: "bool \<Rightarrow> pledge \<Rightarrow> unit syscall" where
  "gate mem promise P = (case require_promise mem promise (vp_process P) of (r, p) \<Rightarrow> (r, P\<lparr>vp_process := p\<rparr>))"

definition on_space :: "(address_space \<Rightarrow> 'a kresult \<times> address_space) \<Rightarrow> 'a syscall" where
  "on_space f P = (case f (vp_space P) of (r, s) \<Rightarrow> (r, P\<lparr>vp_space := s\<rparr>))"

section \<open>Protections\<close>

definition validate_mmap_prot :: "vm_process \<Rightarrow> prot \<Rightarrow> bool \<Rightarrow> bool \<Rightarrow> region option \<Rightarrow> unit kresult" where
  "validate_mmap_prot P prot map_stack map_anonymous region =
     (let make_writable = prot_has prot PROT_WRITE;
          make_executable = prot_has prot PROT_EXEC
      in if map_anonymous \<and> make_executable \<and> \<not> vp_axallowed P then Inl (Errno EINVAL)
         else if map_stack \<and> make_executable then Inl (Errno EINVAL)
         else if vp_wxallowed P then Inr ()
         else if make_writable \<and> make_executable then Inl (Errno EINVAL)
         else
           case region of
             None \<Rightarrow> Inr ()
           | Some r \<Rightarrow>
               if make_writable \<and> m_has_been_executable r then Inl (Errno EINVAL)
               else if make_executable \<and> m_has_been_writable r \<and> vp_reject_transition P then Inl (Errno EINVAL)
               else Inr ())"

definition validate_inode_mmap_prot :: "prot \<Rightarrow> bool \<Rightarrow> bool \<Rightarrow> bool \<Rightarrow> unit kresult" where
  "validate_inode_mmap_prot prot readable_description description_writable map_shared =
     (if prot_has prot PROT_READ \<and> \<not> readable_description then Inl (Errno EACCES)
      else if map_shared \<and> prot_has prot PROT_WRITE \<and> \<not> description_writable then Inl (Errno EACCES)
      else Inr ())"

section \<open>mmap\<close>

abbreviation (input) MAP_SHARED :: u32 where "MAP_SHARED \<equiv> 0x01"
abbreviation (input) MAP_PRIVATE :: u32 where "MAP_PRIVATE \<equiv> 0x02"
abbreviation (input) MAP_FIXED :: u32 where "MAP_FIXED \<equiv> 0x10"
abbreviation (input) MAP_ANONYMOUS :: u32 where "MAP_ANONYMOUS \<equiv> 0x20"
abbreviation (input) MAP_STACK :: u32 where "MAP_STACK \<equiv> 0x40"
abbreviation (input) MAP_NORESERVE :: u32 where "MAP_NORESERVE \<equiv> 0x80"
abbreviation (input) MAP_RANDOMIZED :: u32 where "MAP_RANDOMIZED \<equiv> 0x100"
abbreviation (input) MAP_PURGEABLE :: u32 where "MAP_PURGEABLE \<equiv> 0x200"
abbreviation (input) MAP_FIXED_NOREPLACE :: u32 where "MAP_FIXED_NOREPLACE \<equiv> 0x400"
abbreviation (input) PATH_MAX :: nat where "PATH_MAX \<equiv> 4096"

definition flag :: "u32 \<Rightarrow> u32 \<Rightarrow> bool" where
  "flag flags f \<longleftrightarrow> flags AND f \<noteq> 0"

record mmap_params =
  mm_addr :: nat
  mm_size :: nat
  mm_alignment :: nat
  mm_prot :: prot
  mm_flags :: u32
  mm_fd :: int
  mm_offset :: int
  mm_name :: "string option"

definition requested_range_of :: "mmap_params \<Rightarrow> nat \<Rightarrow> virtual_range" where
  "requested_range_of params rounded_size =
     (if mm_addr params \<noteq> 0 \<and> \<not> (flag (mm_flags params) MAP_FIXED \<or> flag (mm_flags params) MAP_FIXED_NOREPLACE)
      then \<lparr>vbase = 0, vsize = rounded_size\<rparr> else \<lparr>vbase = mm_addr params, vsize = rounded_size\<rparr>)"

text \<open>What the call asks of an open file description; the memory object depends on the range, the offset and
  whether the mapping is shared.\<close>

record description =
  is_directory :: bool
  fd_readable :: bool
  fd_writable :: bool
  fd_inode :: bool
  vmobject_for_mmap :: "virtual_range \<Rightarrow> nat \<Rightarrow> bool \<Rightarrow> (vmobject \<times> memory_type) kresult"

definition vmobject_to_map ::
  "vm_env \<Rightarrow> (int \<Rightarrow> description kresult) \<Rightarrow> mmap_params \<Rightarrow> nat \<Rightarrow> virtual_range \<Rightarrow>
   (vmobject \<times> memory_type \<times> nat \<times> description option) kresult" where
  "vmobject_to_map env open_file_description params rounded_size requested_range =
     (let flags = mm_flags params;
          map_shared = flag flags MAP_SHARED
      in if flag flags MAP_ANONYMOUS then
           let strategy = (if flag flags MAP_NORESERVE then Strategy_None else Strategy_Reserve)
           in tryE (if flag flags MAP_PURGEABLE then try_create_purgeable_with_size env rounded_size strategy
                    else try_create_with_size env rounded_size strategy) (\<lambda>v.
              Inr (v, Normal_memory, 0, None))
         else if mm_offset params < 0 then Inl (Errno EINVAL)
         else
           let used_offset = nat (mm_offset params)
           in if used_offset mod PAGE_SIZE \<noteq> 0 then Inl (Errno EINVAL)
              else
                tryE (open_file_description (mm_fd params)) (\<lambda>d.
                if is_directory d then Inl (Errno ENODEV)
                else if \<not> fd_readable d then Inl (Errno EACCES)
                else if map_shared \<and> prot_has (mm_prot params) PROT_WRITE \<and> \<not> fd_writable d then Inl (Errno EACCES)
                else
                  tryE (if fd_inode d then validate_inode_mmap_prot (mm_prot params) (fd_readable d) (fd_writable d) map_shared
                        else Inr ()) (\<lambda>_.
                  tryE (vmobject_for_mmap d requested_range used_offset map_shared) (\<lambda>(v, memory_type).
                  Inr (v, memory_type, used_offset, Some d)))))"

definition finish_mapping :: "mmap_params \<Rightarrow> description option \<Rightarrow> region \<Rightarrow> region" where
  "finish_mapping params description r =
     (let r = (case description of Some d \<Rightarrow> set_mmap True (fd_readable d) (fd_writable d) r
                                 | None \<Rightarrow> set_mmap True False False r);
          r = (if flag (mm_flags params) MAP_SHARED then r\<lparr>m_shared := True\<rparr> else r);
          r = (if flag (mm_flags params) MAP_STACK then r\<lparr>m_stack := True\<rparr> else r)
      in case mm_name params of Some name \<Rightarrow> r\<lparr>m_name := Some name\<rparr> | None \<Rightarrow> r)"

definition map_into_space ::
  "vm_env \<Rightarrow> mmap_params \<Rightarrow> nat \<Rightarrow> virtual_range \<Rightarrow> vmobject \<times> memory_type \<times> nat \<times> description option \<Rightarrow> address_space \<Rightarrow>
   nat kresult \<times> address_space" where
  "map_into_space env params alignment requested_range object s =
     (case object of (v, memory_type, used_offset, description) \<Rightarrow>
        let flags = mm_flags params
        in tryS (if flag flags MAP_FIXED then unmap_mmap_range env (mm_addr params) (mm_size params) s else (Inr (), s)) (\<lambda>_ s.
           tryS (allocate_region_with_vmobject env (flag flags MAP_RANDOMIZED) (vbase requested_range) (vsize requested_range)
                   alignment v used_offset None (mm_prot params) (flag flags MAP_SHARED) memory_type s) (\<lambda>region s.
           (Inr (vaddr region), with_regions (update_region (vaddr region) (finish_mapping params description)) s))))"

definition sys_mmap ::
  "vm_env \<Rightarrow> bool \<Rightarrow> (int \<Rightarrow> description kresult) \<Rightarrow> mmap_params kresult \<Rightarrow> nat syscall" where
  "sys_mmap env mem open_file_description user_params P =
     tryS (gate mem Pledge_stdio P) (\<lambda>_ P.
     tryS (user_params, P) (\<lambda>params P.
     let flags = mm_flags params;
         alignment = (if mm_alignment params \<noteq> 0 then mm_alignment params else PAGE_SIZE)
     in tryS (if prot_has (mm_prot params) PROT_EXEC then gate mem Pledge_prot_exec P else (Inr (), P)) (\<lambda>_ P.
        tryS (if flag flags MAP_FIXED \<or> flag flags MAP_FIXED_NOREPLACE then gate mem Pledge_map_fixed P else (Inr (), P)) (\<lambda>_ P.
        if alignment mod PAGE_SIZE \<noteq> 0 then (Inl (Errno EINVAL), P)
        else
          tryS (page_round_up (mm_size params), P) (\<lambda>rounded_size P.
          if \<not> is_user_range (kernel_mapping_base env) (mm_addr params) rounded_size then (Inl (Errno EFAULT), P)
          else if (case mm_name params of Some name \<Rightarrow> length name > PATH_MAX | None \<Rightarrow> False) then (Inl (Errno ENAMETOOLONG), P)
          else if mm_size params = 0 then (Inl (Errno EINVAL), P)
          else if mm_addr params mod PAGE_SIZE \<noteq> 0 then (Inl (Errno EINVAL), P)
          else if flag flags MAP_SHARED \<and> flag flags MAP_PRIVATE then (Inl (Errno EINVAL), P)
          else if \<not> flag flags MAP_SHARED \<and> \<not> flag flags MAP_PRIVATE then (Inl (Errno EINVAL), P)
          else if (flag flags MAP_FIXED \<or> flag flags MAP_FIXED_NOREPLACE) \<and> flag flags MAP_RANDOMIZED then (Inl (Errno EINVAL), P)
          else
            tryS (validate_mmap_prot P (mm_prot params) (flag flags MAP_STACK) (flag flags MAP_ANONYMOUS) None, P) (\<lambda>_ P.
            if flag flags MAP_STACK \<and> (\<not> flag flags MAP_PRIVATE \<or> \<not> flag flags MAP_ANONYMOUS) then (Inl (Errno EINVAL), P)
            else
              let requested_range = requested_range_of params rounded_size
              in tryS (vmobject_to_map env open_file_description params rounded_size requested_range, P) (\<lambda>object P.
                 on_space (map_into_space env params alignment requested_range object) P)))))))"

section \<open>mprotect\<close>

definition set_prot :: "prot \<Rightarrow> region \<Rightarrow> region" where
  "set_prot prot r =
     set_executable (prot_has prot PROT_EXEC) (set_writable (prot_has prot PROT_WRITE) (set_readable (prot_has prot PROT_READ) r))"

definition validate_region_prot :: "vm_process \<Rightarrow> prot \<Rightarrow> region \<Rightarrow> unit kresult" where
  "validate_region_prot P prot r =
     (if \<not> m_mmap r then Inl (Errno EPERM)
      else if m_immutable r then Inl (Errno EPERM)
      else validate_mmap_prot P prot (m_stack r) (is_anonymous (m_vmobject r)) (Some r))"

definition validate_region_inode_prot :: "prot \<Rightarrow> region \<Rightarrow> unit kresult" where
  "validate_region_inode_prot prot r =
     (if is_inode (m_vmobject r)
      then validate_inode_mmap_prot prot (m_mmapped_from_readable r) (m_mmapped_from_writable r) (m_shared r)
      else Inr ())"

definition protect_whole_region :: "vm_env \<Rightarrow> prot \<Rightarrow> region \<Rightarrow> address_space \<Rightarrow> unit kresult \<times> address_space" where
  "protect_whole_region env prot r s =
     (let s = with_regions (update_region (vaddr r) (set_prot prot)) s
      in tryS (Region_remap env (set_prot prot r), s) (\<lambda>r s. (Inr (), with_regions (update_region (vaddr r) (\<lambda>_. r)) s)))"

text \<open>A part of a region: the region is replaced by the parts around the range and a new region for the range.\<close>

definition protect_part_of_region ::
  "vm_env \<Rightarrow> prot \<Rightarrow> region \<Rightarrow> virtual_range \<Rightarrow> bool \<Rightarrow> address_space \<Rightarrow> unit kresult \<times> address_space" where
  "protect_part_of_region env prot old_region rng single s =
     tryS (take_region old_region s) (\<lambda>region s.
     tryS (try_split_region_around_range env region rng s) (\<lambda>adjacent_regions s.
     if single \<and> length adjacent_regions \<noteq> 1 then (Inl Verification_failed, s)
     else
       let new_range_offset_in_vmobject = size_add (m_offset_in_vmobject region) (size_sub (vbase rng) (vaddr region))
       in tryS (try_allocate_split_region env region rng new_range_offset_in_vmobject s) (\<lambda>new_region s.
          let s = with_regions (update_region new_region (set_prot prot)) s
          in tryS (map_regions env adjacent_regions s) (\<lambda>_ s. map_region env new_region s))))"

fun check_regions_prot :: "vm_process \<Rightarrow> prot \<Rightarrow> virtual_range \<Rightarrow> nat \<Rightarrow> region list \<Rightarrow> nat kresult" where
  "check_regions_prot P prot rng full_size_found [] = Inr full_size_found"
| "check_regions_prot P prot rng full_size_found (r # rs) =
     tryE (validate_region_prot P prot r) (\<lambda>_.
     tryE (validate_region_inode_prot prot r) (\<lambda>_.
     tryE (intersect (m_range r) rng) (\<lambda>common.
     check_regions_prot P prot rng (size_add full_size_found (vsize common)) rs)))"

fun protect_regions ::
  "vm_env \<Rightarrow> prot \<Rightarrow> virtual_range \<Rightarrow> region list \<Rightarrow> address_space \<Rightarrow> unit kresult \<times> address_space" where
  "protect_regions env prot rng [] s = (Inr (), s)"
| "protect_regions env prot rng (old_region # old_regions) s =
     (if m_access old_region = prot_to_region_access_flags prot then protect_regions env prot rng old_regions s
      else
        tryS (intersect rng (m_range old_region), s) (\<lambda>intersection_to_mprotect s.
        tryS (if intersection_to_mprotect = m_range old_region then protect_whole_region env prot old_region s
              else protect_part_of_region env prot old_region intersection_to_mprotect True s) (\<lambda>_ s.
        protect_regions env prot rng old_regions s)))"

definition mprotect_space ::
  "vm_env \<Rightarrow> vm_process \<Rightarrow> virtual_range \<Rightarrow> prot \<Rightarrow> address_space \<Rightarrow> nat kresult \<times> address_space" where
  "mprotect_space env P range_to_mprotect prot s =
     (case find_region_from_range s range_to_mprotect of
        Some whole_region \<Rightarrow>
          tryS (validate_region_prot P prot whole_region, s) (\<lambda>_ s.
          if m_access whole_region = prot_to_region_access_flags prot then (Inr 0, s)
          else
            tryS (validate_region_inode_prot prot whole_region, s) (\<lambda>_ s.
            tryS (protect_whole_region env prot whole_region s) (\<lambda>_ s. (Inr 0, s))))
      | None \<Rightarrow>
          case find_region_containing (m_region_tree s) range_to_mprotect of
            Some old_region \<Rightarrow>
              tryS (validate_region_prot P prot old_region, s) (\<lambda>_ s.
              if m_access old_region = prot_to_region_access_flags prot then (Inr 0, s)
              else
                tryS (validate_region_inode_prot prot old_region, s) (\<lambda>_ s.
                tryS (protect_part_of_region env prot old_region range_to_mprotect False s) (\<lambda>_ s. (Inr 0, s))))
          | None \<Rightarrow>
              tryS (find_regions_intersecting env s range_to_mprotect, s) (\<lambda>old_regions s.
              if old_regions = [] then (Inl (Errno EINVAL), s)
              else
                tryS (check_regions_prot P prot range_to_mprotect 0 old_regions, s) (\<lambda>full_size_found s.
                if full_size_found \<noteq> vsize range_to_mprotect then (Inl (Errno ENOMEM), s)
                else tryS (protect_regions env prot range_to_mprotect old_regions s) (\<lambda>_ s. (Inr 0, s)))))"

definition sys_mprotect :: "vm_env \<Rightarrow> bool \<Rightarrow> nat \<Rightarrow> nat \<Rightarrow> prot \<Rightarrow> nat syscall" where
  "sys_mprotect env mem addr n prot P =
     tryS (gate mem Pledge_stdio P) (\<lambda>_ P.
     tryS (if prot_has prot PROT_EXEC then gate mem Pledge_prot_exec P else (Inr (), P)) (\<lambda>_ P.
     tryS (expand_range_to_page_boundaries addr n, P) (\<lambda>range_to_mprotect P.
     if vsize range_to_mprotect = 0 then (Inl (Errno EINVAL), P)
     else if \<not> is_user_range (kernel_mapping_base env) (vbase range_to_mprotect) (vsize range_to_mprotect) then (Inl (Errno EFAULT), P)
     else on_space (mprotect_space env P range_to_mprotect prot) P)))"

section \<open>The other calls\<close>

definition sys_munmap :: "vm_env \<Rightarrow> bool \<Rightarrow> nat \<Rightarrow> nat \<Rightarrow> nat syscall" where
  "sys_munmap env mem addr n P =
     tryS (gate mem Pledge_stdio P) (\<lambda>_ P.
     tryS (on_space (unmap_mmap_range env addr n) P) (\<lambda>_ P. (Inr 0, P)))"

text \<open>\<^verbatim>\<open>set_volatile\<close> of an anonymous memory object says whether it was purged.\<close>

definition sys_madvise :: "vm_env \<Rightarrow> bool \<Rightarrow> (vmobject \<Rightarrow> bool \<Rightarrow> bool kresult) \<Rightarrow> nat \<Rightarrow> nat \<Rightarrow> int \<Rightarrow> nat syscall" where
  "sys_madvise env mem set_volatile address n advice P =
     tryS (gate mem Pledge_stdio P) (\<lambda>_ P.
     tryS (expand_range_to_page_boundaries address n, P) (\<lambda>range_to_madvise P.
     if vsize range_to_madvise = 0 then (Inl (Errno EINVAL), P)
     else if \<not> is_user_range (kernel_mapping_base env) (vbase range_to_madvise) (vsize range_to_madvise) then (Inl (Errno EFAULT), P)
     else
       case find_region_from_range (vp_space P) range_to_madvise of
         None \<Rightarrow> (Inl (Errno EINVAL), P)
       | Some r \<Rightarrow>
           if \<not> m_mmap r then (Inl (Errno EPERM), P)
           else if m_immutable r then (Inl (Errno EPERM), P)
           else if advice = 1 \<or> advice = 2 then
             if \<not> is_anonymous (m_vmobject r) then (Inl (Errno EINVAL), P)
             else if \<not> is_purgeable (m_vmobject r) then (Inl (Errno EINVAL), P)
             else tryS (set_volatile (m_vmobject r) (advice = 1), P) (\<lambda>was_purged P. (Inr (if was_purged then 1 else 0), P))
           else (Inl (Errno EINVAL), P)))"

definition sys_set_mmap_name :: "bool \<Rightarrow> (nat \<times> nat \<times> string) kresult \<Rightarrow> nat syscall" where
  "sys_set_mmap_name mem user_params P =
     tryS (gate mem Pledge_stdio P) (\<lambda>_ P.
     tryS (user_params, P) (\<lambda>(addr, n, name) P.
     if length name > PATH_MAX then (Inl (Errno ENAMETOOLONG), P)
     else
       tryS (expand_range_to_page_boundaries addr n, P) (\<lambda>rng P.
       case find_region_from_range (vp_space P) rng of
         None \<Rightarrow> (Inl (Errno EINVAL), P)
       | Some r \<Rightarrow>
           if \<not> m_mmap r then (Inl (Errno EPERM), P)
           else if m_immutable r then (Inl (Errno EPERM), P)
           else on_space (\<lambda>s. (Inr 0, with_regions (update_region (vaddr r) (\<lambda>r. r\<lparr>m_name := Some name\<rparr>)) s)) P)))"

text \<open>The name of the region is taken and dereferenced, whether it has one or not.\<close>

definition mremap_private ::
  "vm_env \<Rightarrow> (vmobject \<Rightarrow> vmobject kresult) \<Rightarrow> region \<Rightarrow> address_space \<Rightarrow> nat kresult \<times> address_space" where
  "mremap_private env private_vmobject old_region s =
     tryS (private_vmobject (m_vmobject old_region), s) (\<lambda>new_vmobject s.
     tryS (deallocate_region old_region s) (\<lambda>_ s.
     case m_name old_region of
       None \<Rightarrow> (Inl Verification_failed, s)
     | Some old_name \<Rightarrow>
         tryS (allocate_region_with_vmobject env True (vaddr old_region) (vsize (m_range old_region)) PAGE_SIZE new_vmobject
                 (m_offset_in_vmobject old_region) (Some old_name) (region_access_flags_to_prot (m_access old_region)) False
                 Normal_memory s) (\<lambda>new_region s.
         (Inr (vaddr new_region),
          with_regions (update_region (vaddr new_region)
            (set_mmap True (m_mmapped_from_readable old_region) (m_mmapped_from_writable old_region))) s))))"

definition sys_mremap ::
  "vm_env \<Rightarrow> bool \<Rightarrow> (vmobject \<Rightarrow> vmobject kresult) \<Rightarrow> (nat \<times> nat \<times> u32) kresult \<Rightarrow> nat syscall" where
  "sys_mremap env mem private_vmobject user_params P =
     tryS (gate mem Pledge_stdio P) (\<lambda>_ P.
     tryS (user_params, P) (\<lambda>(old_address, old_size, flags) P.
     tryS (expand_range_to_page_boundaries old_address old_size, P) (\<lambda>old_range P.
     case find_region_from_range (vp_space P) old_range of
       None \<Rightarrow> (Inl (Errno EINVAL), P)
     | Some old_region \<Rightarrow>
         if \<not> m_mmap old_region then (Inl (Errno EPERM), P)
         else if m_immutable old_region then (Inl (Errno EPERM), P)
         else if is_shared_inode (m_vmobject old_region) \<and> flag flags MAP_PRIVATE \<and> \<not> flag flags (MAP_ANONYMOUS OR MAP_NORESERVE) then
           on_space (mremap_private env private_vmobject old_region) P
         else (Inl (Errno ENOTIMPL), P))))"

definition sys_annotate_mapping :: "vm_env \<Rightarrow> nat \<Rightarrow> u32 \<Rightarrow> nat syscall" where
  "sys_annotate_mapping env address flags P =
     (if flags = 0 then (Inl (Errno EINVAL), P)
      else if address = 0 then (Inl (Errno EINVAL), P)
      else if \<not> is_user_address (kernel_mapping_base env) address then (Inl (Errno EFAULT), P)
      else if m_enforces_syscall_regions (vp_space P) \<and> flags AND 1 \<noteq> 0 then (Inl (Errno EPERM), P)
      else
        case find_region_containing (m_region_tree (vp_space P)) \<lparr>vbase = address, vsize = 1\<rparr> of
          None \<Rightarrow> (Inl (Errno EINVAL), P)
        | Some r \<Rightarrow>
            if \<not> m_mmap r \<and> \<not> m_initially_loaded_executable_segment r then (Inl (Errno EINVAL), P)
            else if m_immutable r then (Inl (Errno EPERM), P)
            else
              on_space (\<lambda>s. (Inr 0, with_regions (update_region (vaddr r) (\<lambda>r.
                let r = (if flags AND 1 \<noteq> 0 then r\<lparr>m_syscall_region := True\<rparr> else r)
                in if flags AND 2 \<noteq> 0 then r\<lparr>m_immutable := True\<rparr> else r)) s)) P)"

end
