(* ===== verification/Region_Tree_Facts.thy ===== *)
theory Region_Tree_Facts
  imports Region_Tree
begin

text \<open>
  The regions of a tree are disjoint, page-aligned and inside its total range, in the order of their addresses.
  Under this invariant the three searches return free ranges only, the search at an address is exact, and the
  search through the gaps fails only when no gap has room for the size and the alignment.
\<close>

section \<open>The invariant\<close>

abbreviation precedes :: "region \<Rightarrow> region \<Rightarrow> bool" where
  "precedes a b \<equiv> vend (m_range a) \<le> vaddr b"

definition regions_ok :: "nat \<Rightarrow> nat \<Rightarrow> region list \<Rightarrow> bool" where
  "regions_ok lo hi rs \<longleftrightarrow> sorted_wrt precedes rs \<and>
     (\<forall>r \<in> set rs. proper (m_range r) \<and> lo \<le> vaddr r \<and> vend (m_range r) \<le> hi)"

definition tree_inv :: "region_tree \<Rightarrow> bool" where
  "tree_inv t \<longleftrightarrow> proper (m_total_range t) \<and> USER_RANGE_BASE \<le> vbase (m_total_range t) \<and>
     regions_ok (vbase (m_total_range t)) (vend (m_total_range t)) (m_regions t)"

definition occupied :: "region list \<Rightarrow> nat set" where
  "occupied rs = (\<Union>r \<in> set rs. addresses (m_range r))"

lemma vend_less: "proper r \<Longrightarrow> vend r < 2 ^ 64"
  by (simp add: vend_eq) (simp add: proper_def)

lemma size_add_wraps: "\<not> a + b < 2 ^ 64 \<Longrightarrow> a < 2 ^ 64 \<Longrightarrow> b < 2 ^ 64 \<Longrightarrow> size_add a b < a"
  by (simp add: size_add_def le_mod_geq)

lemma proper_less: "proper r \<Longrightarrow> vbase r < vend r"
  by (simp add: vend_eq) (simp add: proper_def)

lemma regions_ok_Nil [simp]: "regions_ok lo hi []"
  by (simp add: regions_ok_def)

lemma regions_ok_Cons:
  "regions_ok lo hi (r # rs) \<longleftrightarrow>
     proper (m_range r) \<and> lo \<le> vaddr r \<and> vend (m_range r) \<le> hi \<and> regions_ok (vend (m_range r)) hi rs"
  using proper_less by (fastforce simp: regions_ok_def)

lemma regions_ok_memD:
  "regions_ok lo hi rs \<Longrightarrow> r \<in> set rs \<Longrightarrow> proper (m_range r) \<and> lo \<le> vaddr r \<and> vend (m_range r) \<le> hi"
  by (simp add: regions_ok_def)

lemma regions_ok_order:
  assumes "regions_ok lo hi rs" "r \<in> set rs" "q \<in> set rs"
  shows "r = q \<or> vend (m_range r) \<le> vaddr q \<or> vend (m_range q) \<le> vaddr r"
  using assms unfolding regions_ok_def by (metis in_set_conv_nth linorder_neqE_nat sorted_wrt_nth_less)

lemma regions_ok_unique:
  assumes "regions_ok lo hi rs" "r \<in> set rs" "q \<in> set rs" "a \<in> addresses (m_range r)" "a \<in> addresses (m_range q)"
  shows "r = q"
  using regions_ok_order [OF assms(1-3)] regions_ok_memD [OF assms(1,2)] regions_ok_memD [OF assms(1,3)] assms(4,5)
  by (auto simp: addresses_vend)

lemma regions_ok_key:
  assumes "regions_ok lo hi rs" "r \<in> set rs" "q \<in> set rs" "vaddr r = vaddr q"
  shows "r = q"
  using regions_ok_order [OF assms(1-3)] regions_ok_memD [OF assms(1,2)] regions_ok_memD [OF assms(1,3)] assms(4) proper_less
  by fastforce

lemma regions_ok_distinct: "regions_ok lo hi rs \<Longrightarrow> distinct rs"
proof (induction rs arbitrary: lo)
  case (Cons r rs)
  then have "r \<notin> set rs" using regions_ok_memD [of "vend (m_range r)" hi rs r] proper_less [of "m_range r"] by (auto simp: regions_ok_Cons)
  with Cons show ?case by (auto simp: regions_ok_Cons)
qed simp

lemma regions_ok_subset:
  "regions_ok lo hi rs \<Longrightarrow> regions_ok lo hi (filter P rs)"
  by (auto simp: regions_ok_def sorted_wrt_filter)

lemma regions_ok_map:
  "regions_ok lo hi rs \<Longrightarrow> (\<And>r. r \<in> set rs \<Longrightarrow> m_range (f r) = m_range r) \<Longrightarrow> regions_ok lo hi (map f rs)"
  by (induction rs arbitrary: lo) (auto simp: regions_ok_Cons)

section \<open>Searches in the tree\<close>

lemma find_region_Some:
  assumes "regions_ok lo hi rs"
  shows "find_region rs key = Some r \<longleftrightarrow> r \<in> set rs \<and> vaddr r = key"
proof
  assume "find_region rs key = Some r"
  then show "r \<in> set rs \<and> vaddr r = key" by (auto simp: find_region_def find_Some_iff)
next
  assume r: "r \<in> set rs \<and> vaddr r = key"
  then obtain q where q: "find_region rs key = Some q" by (cases "find_region rs key") (auto simp: find_region_def find_None_iff)
  then have "q \<in> set rs" "vaddr q = key" by (auto simp: find_region_def find_Some_iff)
  then show "find_region rs key = Some r" using q r regions_ok_key [OF assms] by metis
qed

lemma find_largest_None: "find_largest_not_above rs key = None \<longleftrightarrow> (\<forall>r \<in> set rs. key < vaddr r)"
  by (auto simp: find_largest_not_above_def find_None_iff)

lemma find_largest_Some:
  assumes "regions_ok lo hi rs" "find_largest_not_above rs key = Some r"
  shows "r \<in> set rs \<and> vaddr r \<le> key \<and> (\<forall>q \<in> set rs. vaddr q \<le> key \<longrightarrow> q = r \<or> vend (m_range q) \<le> vaddr r)"
proof -
  obtain i where i: "i < length rs" "vaddr (rev rs ! i) \<le> key" "r = rev rs ! i" "\<And>j. j < i \<Longrightarrow> key < vaddr (rev rs ! j)"
    using assms(2) unfolding find_largest_not_above_def find_Some_iff not_le by (metis length_rev)
  have r: "r \<in> set rs" using i(1,3) by (metis length_rev nth_mem set_rev)
  have "q = r \<or> vend (m_range q) \<le> vaddr r" if q: "q \<in> set rs" "vaddr q \<le> key" for q
  proof -
    obtain j where j: "j < length rs" "q = rev rs ! j" using q(1) by (metis in_set_conv_nth length_rev set_rev)
    then consider "j = i" | "i < j" using i(4) [of j] q(2) by (metis leD linorder_neqE_nat)
    then show ?thesis
    proof cases
      case 2
      then have "precedes (rs ! (length rs - Suc j)) (rs ! (length rs - Suc i))"
        using assms(1) j(1) unfolding regions_ok_def by (intro sorted_wrt_nth_less [of precedes]) auto
      then have "precedes (rev rs ! j) (rev rs ! i)" using 2 j(1) by (simp add: rev_nth)
      then show ?thesis using i j by simp
    qed (use i j in simp)
  qed
  then show ?thesis using r i by simp
qed

text \<open>The region found below the start of a range is the only one that can contain it.\<close>

lemma find_region_containing_Some:
  assumes "tree_inv t" "proper rng"
  shows "find_region_containing t rng = Some r \<longleftrightarrow> r \<in> set (m_regions t) \<and> addresses rng \<subseteq> addresses (m_range r)"
proof -
  have ok: "regions_ok (vbase (m_total_range t)) (vend (m_total_range t)) (m_regions t)" using assms(1) by (simp add: tree_inv_def)
  have key: "q = r" if q: "find_largest_not_above (m_regions t) (vbase rng) = Some q" and r: "r \<in> set (m_regions t)"
    "addresses rng \<subseteq> addresses (m_range r)" for q r
  proof -
    have pr: "proper (m_range r)" using regions_ok_memD [OF ok r(1)] by simp
    have b: "vbase rng \<in> addresses (m_range r)" using r(2) assms(2) proper_less by (auto simp: addresses_vend)
    then show ?thesis using find_largest_Some [OF ok q] r(1) pr regions_ok_order [OF ok r(1), of q] regions_ok_memD [OF ok, of q] proper_less
      by (fastforce simp: addresses_vend)
  qed
  have found: "\<exists>q. find_largest_not_above (m_regions t) (vbase rng) = Some q" if r: "r \<in> set (m_regions t)" "addresses rng \<subseteq> addresses (m_range r)" for r
  proof -
    have "vbase rng \<in> addresses (m_range r)" using r(2) assms(2) proper_less by (auto simp: addresses_vend)
    then have "vaddr r \<le> vbase rng" using regions_ok_memD [OF ok r(1)] by (simp add: addresses_vend)
    then show ?thesis using r(1) find_largest_None [of "m_regions t" "vbase rng"] by fastforce
  qed
  show ?thesis
    unfolding find_region_containing_def
    using key found find_largest_Some [OF ok] regions_ok_memD [OF ok] contains_range_iff [OF _ assms(2)]
    by (fastforce split: option.splits if_splits)
qed

section \<open>Finding free ranges\<close>

text \<open>A range that can be given out: proper, inside the bounds and free.\<close>

definition free_range :: "nat \<Rightarrow> nat \<Rightarrow> region list \<Rightarrow> virtual_range \<Rightarrow> bool" where
  "free_range lo hi rs r \<longleftrightarrow> proper r \<and> lo \<le> vbase r \<and> vend r \<le> hi \<and> addresses r \<inter> occupied rs = {}"

lemma occupied_simps [simp]: "occupied [] = {}" "occupied (r # rs) = addresses (m_range r) \<union> occupied rs"
  by (auto simp: occupied_def)

lemma occupied_bounds: "regions_ok lo hi rs \<Longrightarrow> occupied rs \<subseteq> {lo..<hi}"
  using regions_ok_memD by (fastforce simp: occupied_def addresses_vend)

lemma allocate_from_window_ok:
  assumes "allocate_from_window n alignment \<lparr>vbase = w, vsize = m\<rparr> = Some r" and "w + m < 2 ^ 64"
    and "0 < n" "PAGE_SIZE dvd n" "0 < alignment" "PAGE_SIZE dvd alignment"
  shows "proper r \<and> vsize r = n \<and> w \<le> vbase r \<and> vend r \<le> w + m"
proof -
  have m: "n + alignment \<le> m" and r: "r = \<lparr>vbase = round_up_to_power_of_two w alignment, vsize = n\<rparr>"
    using assms(1) by (auto simp: allocate_from_window_def split: if_splits)
  have a: "w \<le> round_up_to_power_of_two w alignment" "round_up_to_power_of_two w alignment < w + alignment"
    "PAGE_SIZE dvd round_up_to_power_of_two w alignment" using round_up_ok [of alignment w] round_up_aligned [of alignment w] assms m by simp_all
  have "proper r" unfolding proper_def r using a m assms by simp
  then show ?thesis using a m by (simp add: vend_eq) (simp add: r)
qed

lemma search_windows_sound:
  assumes "search_windows tot n alignment w rs = Inr r" and "regions_ok w (vend tot) rs"
    and "vbase tot \<le> w" "w \<le> vend tot" "proper tot"
    and "0 < n" "PAGE_SIZE dvd n" "0 < alignment" "PAGE_SIZE dvd alignment"
  shows "free_range w (vend tot) rs r \<and> vsize r = n"
  using assms(1-4)
proof (induction rs arbitrary: w)
  case Nil
  have e: "vend tot < 2 ^ 64" using assms(5) by (simp add: vend_eq) (simp add: proper_def)
  then have "size_sub (vend tot) w = vend tot - w" using Nil(4) by (simp add: size_sub_eq)
  moreover have "w + (vend tot - w) = vend tot" using Nil(4) by simp
  ultimately show ?case using Nil(1,4) allocate_from_window_ok [of n alignment w "vend tot - w" r] e assms(6-9)
    by (auto simp: free_range_def Let_def split: if_splits option.splits)
next
  case (Cons q rs)
  from Cons.prems(2) have q: "proper (m_range q)" "w \<le> vaddr q" "vend (m_range q) \<le> vend tot"
    "regions_ok (vend (m_range q)) (vend tot) rs" by (simp_all add: regions_ok_Cons)
  have e: "vend tot < 2 ^ 64" using assms(5) by (simp add: vend_eq) (simp add: proper_def)
  have wq: "w \<le> vend (m_range q)" using q(1,2) proper_less by fastforce
  show ?case
  proof (cases "search_windows tot n alignment (vend (m_range q)) rs = Inr r")
    case True
    then have "free_range (vend (m_range q)) (vend tot) rs r \<and> vsize r = n"
      using Cons.IH [OF True q(4)] wq q(3) Cons.prems(3) by simp
    then show ?thesis using wq q(1) by (auto simp: free_range_def addresses_vend)
  next
    case False
    have sub: "size_sub (vaddr q) w = vaddr q - w" using q(1,2,3) e proper_less [OF q(1)] by (simp add: size_sub_eq)
    from False Cons.prems(1) have "allocate_from_window n alignment \<lparr>vbase = w, vsize = vaddr q - w\<rparr> = Some r"
      by (auto simp: sub split: if_splits option.splits)
    from allocate_from_window_ok [OF this _ assms(6-9)] have r: "proper r" "vsize r = n" "w \<le> vbase r" "vend r \<le> vaddr q"
      using q(2,3) e proper_less [OF q(1)] by auto
    moreover have "addresses r \<inter> occupied (q # rs) = {}"
      using r occupied_bounds [OF q(4)] proper_less [OF q(1)] q(1) by (fastforce simp: addresses_vend)
    ultimately show ?thesis using proper_less [OF q(1)] q(3) by (simp add: free_range_def)
  qed
qed

lemma search_windows_complete:
  assumes "search_windows tot n alignment w rs = Inl e" and "regions_ok w (vend tot) rs"
    and "vbase tot \<le> w" "w \<le> vend tot" "proper tot"
    and "{b..<b + (n + alignment)} \<subseteq> {w..<vend tot} - occupied rs" "0 < n + alignment"
  shows "False"
  using assms(1-4,6)
proof (induction rs arbitrary: w)
  case Nil
  have e: "vend tot < 2 ^ 64" using assms(5) by (simp add: vend_eq) (simp add: proper_def)
  have "{b..<b + (n + alignment)} \<subseteq> {w..<vend tot}" using Nil(5) by blast
  then have bw: "w \<le> b" "b + (n + alignment) \<le> vend tot" using assms(7) by (auto simp: atLeastLessThan_subset_iff)
  have sub: "size_sub (vend tot) w = vend tot - w" using Nil(4) e by (simp add: size_sub_eq)
  have "contains_range tot \<lparr>vbase = w, vsize = vend tot - w\<rparr>"
    using Nil(3,4) e by (simp add: contains_range_def contains_span_def size_add_def)
  then show ?case using Nil(1) bw by (auto simp: sub allocate_from_window_def Let_def split: if_splits)
next
  case (Cons q rs)
  from Cons.prems(2) have q: "proper (m_range q)" "w \<le> vaddr q" "vend (m_range q) \<le> vend tot"
    "regions_ok (vend (m_range q)) (vend tot) rs" by (simp_all add: regions_ok_Cons)
  have e: "vend tot < 2 ^ 64" using assms(5) by (simp add: vend_eq) (simp add: proper_def)
  have lt: "vaddr q < vend (m_range q)" by (rule proper_less [OF q(1)])
  have bw: "w \<le> b" using Cons.prems(5) assms(7) by (auto simp: subset_eq)
  have sub: "size_sub (vaddr q) w = vaddr q - w" using q(2,3) e lt by (simp add: size_sub_eq)
  have rest: "search_windows tot n alignment (vend (m_range q)) rs = Inl e" and small: "w = vaddr q \<or> vaddr q - w < n + alignment"
    using Cons.prems(1) by (auto simp: sub allocate_from_window_def split: if_splits)
  have "vend (m_range q) \<le> b"
  proof (rule ccontr)
    assume "\<not> vend (m_range q) \<le> b"
    then have "max b (vaddr q) \<in> addresses (m_range q)" "max b (vaddr q) \<in> {b..<b + (n + alignment)}"
      using small bw q lt assms(7) by (auto simp: addresses_vend)
    then show False using Cons.prems(5) by (metis DiffE UnI1 occupied_simps(2) subsetD)
  qed
  then have "{b..<b + (n + alignment)} \<subseteq> {vend (m_range q)..<vend tot} - occupied rs" using Cons.prems(5) by auto
  then show False using Cons.IH [OF rest q(4)] q(2,3) lt Cons.prems(3) by simp
qed

text \<open>The range at an address is given out exactly when it is free.\<close>

lemma tree_inv_total:
  assumes "tree_inv t"
  shows "proper (m_total_range t)" "vend (m_total_range t) < 2 ^ 64" "USER_RANGE_BASE \<le> vbase (m_total_range t)"
    "regions_ok (vbase (m_total_range t)) (vend (m_total_range t)) (m_regions t)"
  using assms vend_less by (simp_all add: tree_inv_def)

abbreviation tree_free :: "region_tree \<Rightarrow> virtual_range \<Rightarrow> bool" where
  "tree_free t r \<equiv> free_range (vbase (m_total_range t)) (vend (m_total_range t)) (m_regions t) r"

lemma allocate_range_specific_eq:
  assumes "tree_inv t" "PAGE_SIZE dvd b" "PAGE_SIZE dvd n" "0 < n" "b < 2 ^ 64" "n < 2 ^ 64"
  shows "allocate_range_specific t b n =
    (if tree_free t \<lparr>vbase = b, vsize = n\<rparr> then Inr \<lparr>vbase = b, vsize = n\<rparr> else Inl (Errno ENOMEM))"
proof (cases "contains_range (m_total_range t) \<lparr>vbase = b, vsize = n\<rparr>")
  case False
  then have "\<not> tree_free t \<lparr>vbase = b, vsize = n\<rparr>"
    using contains_range_iff [OF tree_inv_total(1) [OF assms(1)]] tree_inv_total(1) [OF assms(1)]
    by (auto simp: free_range_def addresses_vend)
  then show ?thesis using False assms(2-4) by (simp add: allocate_range_specific_def Let_def)
next
  case True
  define rng where "rng = \<lparr>vbase = b, vsize = n\<rparr>"
  note tot = tree_inv_total [OF assms(1)]
  have w: "b + n < 2 ^ 64"
    using True size_add_wraps [of b n] assms(5,6) by (auto simp: contains_range_def contains_span_def split: if_splits)
  then have rng: "proper rng" using assms(2-4) by (simp add: proper_def rng_def)
  have inside: "vbase (m_total_range t) \<le> b" "b + n \<le> vend (m_total_range t)"
    using True w by (auto simp: contains_range_def contains_span_def size_add_def split: if_splits)
  have free: "tree_free t rng \<longleftrightarrow> addresses rng \<inter> occupied (m_regions t) = {}"
    using inside rng by (simp add: free_range_def vend_eq) (simp add: rng_def)
  have key: "size_add b (n - Suc 0) = b + n - Suc 0" using w assms(4) by (simp add: size_add_def)
  have pr: "proper (m_range q)" if "q \<in> set (m_regions t)" for q using regions_ok_memD [OF tot(4) that] by simp
  have hit: "addresses (m_range q) \<inter> addresses rng = {} \<longleftrightarrow> vend (m_range q) \<le> b \<or> b + n \<le> vaddr q" if "q \<in> set (m_regions t)" for q
    using addresses_disjoint_iff [OF pr [OF that] rng] vend_eq [OF rng] by (simp add: rng_def)
  have disj: "addresses rng \<inter> occupied (m_regions t) = {} \<longleftrightarrow> (\<forall>q \<in> set (m_regions t). vend (m_range q) \<le> b \<or> b + n \<le> vaddr q)"
    using hit by (auto simp: occupied_def)
  show ?thesis
  proof (cases "find_largest_not_above (m_regions t) (b + n - Suc 0)")
    case None
    then have "\<forall>q \<in> set (m_regions t). b + n \<le> vaddr q" using assms(4) by (auto simp: find_largest_None)
    then show ?thesis using None True assms(2-4) free disj by (simp add: allocate_range_specific_def key rng_def Let_def)
  next
    case (Some q)
    note q = find_largest_Some [OF tot(4) Some]
    have "(\<forall>p \<in> set (m_regions t). vend (m_range p) \<le> b \<or> b + n \<le> vaddr p) \<longleftrightarrow> vend (m_range q) \<le> b"
    proof
      assume "vend (m_range q) \<le> b"
      then show "\<forall>p \<in> set (m_regions t). vend (m_range p) \<le> b \<or> b + n \<le> vaddr p"
        using q assms(4) proper_less [OF pr] by fastforce
    qed (use q assms(4) in force)
    then show ?thesis using Some True assms(2-4) free disj hit [of q] q intersects_iff [OF pr rng, of q] assms(4)
      by (auto simp: allocate_range_specific_def key rng_def Let_def)
  qed
qed

text \<open>What the searches for a range of a size and an alignment are asked with.\<close>

definition admissible_size :: "nat \<Rightarrow> nat \<Rightarrow> bool" where
  "admissible_size n alignment \<longleftrightarrow> 0 < n \<and> n < 2 ^ 64 \<and> PAGE_SIZE dvd n \<and> 0 < alignment \<and> alignment < 2 ^ 64 \<and> PAGE_SIZE dvd alignment"

lemma search_windows_Inl: "search_windows tot n alignment w rs = Inl e \<Longrightarrow> e = Errno ENOMEM"
  by (induction rs arbitrary: w) (auto simp: Let_def split: if_splits option.splits)

lemma size_overflow: "addition_would_overflow size_t (int a) (int b) \<longleftrightarrow> \<not> a + b < 2 ^ 64"
  by (simp add: addition_would_overflow_def in_range_size_t flip: of_nat_add)

lemma allocate_range_anywhere_cases:
  assumes "tree_inv t" "admissible_size n alignment"
  obtains r where "allocate_range_anywhere t n alignment = Inr r" "tree_free t r" "vsize r = n"
  | "allocate_range_anywhere t n alignment = Inl (Errno EOVERFLOW)" "\<not> n + alignment < 2 ^ 64"
  | "allocate_range_anywhere t n alignment = Inl (Errno ENOMEM)"
    "\<And>b. \<not> {b..<b + (n + alignment)} \<subseteq> addresses (m_total_range t) - occupied (m_regions t)"
proof -
  note tot = tree_inv_total [OF assms(1)]
  let ?s = "search_windows (m_total_range t) n alignment (vbase (m_total_range t)) (m_regions t)"
  have eq: "allocate_range_anywhere t n alignment = (if \<not> n + alignment < 2 ^ 64 then Inl (Errno EOVERFLOW) else ?s)"
    using assms(2) unfolding allocate_range_anywhere_def size_overflow by (simp add: admissible_size_def)
  have le: "vbase (m_total_range t) \<le> vend (m_total_range t)" using proper_less [OF tot(1)] by simp
  show ?thesis
  proof (cases "n + alignment < 2 ^ 64")
    case False then show ?thesis using that(2) eq by simp
  next
    case True
    show ?thesis
    proof (cases ?s)
      case (Inl e)
      then have "?s = Inl (Errno ENOMEM)" using search_windows_Inl by blast
      moreover have "\<not> {b..<b + (n + alignment)} \<subseteq> addresses (m_total_range t) - occupied (m_regions t)" for b
        using search_windows_complete [OF Inl tot(4) _ le tot(1), of b] assms(2) by (auto simp: addresses_vend [OF tot(1)] admissible_size_def)
      ultimately show ?thesis using that(3) eq True by simp
    next
      case (Inr r)
      then have "tree_free t r \<and> vsize r = n"
        using search_windows_sound [OF Inr tot(4) _ le tot(1)] assms(2) by (simp add: admissible_size_def)
      then show ?thesis using that(1) Inr eq True by simp
    qed
  qed
qed

lemma try_random_addresses_cases:
  assumes "tree_inv t" "admissible_size n alignment"
  shows "try_random_addresses t n alignment randoms = Inr None \<or>
    (\<exists>r. try_random_addresses t n alignment randoms = Inr (Some r) \<and> tree_free t r \<and> vsize r = n)"
proof (induction randoms)
  case (Cons x xs)
  let ?a = "round_up_to_power_of_two (x mod vend (m_total_range t)) alignment"
  have "allocate_range_specific t ?a n = (if tree_free t \<lparr>vbase = ?a, vsize = n\<rparr> then Inr \<lparr>vbase = ?a, vsize = n\<rparr> else Inl (Errno ENOMEM))"
    using assms by (intro allocate_range_specific_eq round_up_aligned round_up_less) (simp_all add: admissible_size_def)
  then show ?case using Cons by (auto simp: Let_def)
qed simp

lemma allocate_range_randomized_cases:
  assumes "tree_inv t" "admissible_size n alignment"
  obtains r where "allocate_range_randomized env t n alignment = Inr r" "tree_free t r" "vsize r = n"
  | "allocate_range_randomized env t n alignment = Inl (Errno EOVERFLOW)" "\<not> n + alignment < 2 ^ 64"
  | "allocate_range_randomized env t n alignment = Inl (Errno ENOMEM)"
    "\<And>b. \<not> {b..<b + (n + alignment)} \<subseteq> addresses (m_total_range t) - occupied (m_regions t)"
proof -
  define rs where "rs = map (vm_random env) [0..<1000]"
  have eq: "allocate_range_randomized env t n alignment = tryE (try_random_addresses t n alignment rs) (\<lambda>found.
      case found of Some r \<Rightarrow> Inr r | None \<Rightarrow> allocate_range_anywhere t n alignment)"
    using assms(2) by (simp add: allocate_range_randomized_def admissible_size_def rs_def)
  show ?thesis
  proof (cases "try_random_addresses t n alignment rs = Inr None")
    case True
    then have "allocate_range_randomized env t n alignment = allocate_range_anywhere t n alignment" using eq by simp
    then show ?thesis by (cases rule: allocate_range_anywhere_cases [OF assms]) (auto intro: that)
  qed (use eq try_random_addresses_cases [OF assms, of rs] that(1) in auto)
qed

section \<open>Changes of the tree\<close>

lemma set_insert_region [simp]: "set (insert_region r rs) = insert r (set rs)"
  unfolding insert_region_def by (metis (no_types, lifting) Un_insert_right append_Cons append_Nil list.simps(15) set_append takeWhile_dropWhile_id)

lemma regions_ok_insert:
  assumes "regions_ok lo hi rs" "free_range lo hi rs (m_range r)"
  shows "regions_ok lo hi (insert_region r rs)"
  using assms
proof (induction rs arbitrary: lo)
  case Nil then show ?case by (simp add: insert_region_def regions_ok_Cons free_range_def)
next
  case (Cons q rs)
  from Cons.prems(1) have q: "proper (m_range q)" "lo \<le> vaddr q" "vend (m_range q) \<le> hi" "regions_ok (vend (m_range q)) hi rs"
    by (simp_all add: regions_ok_Cons)
  from Cons.prems(2) have r: "proper (m_range r)" "lo \<le> vaddr r" "vend (m_range r) \<le> hi"
    "addresses (m_range r) \<inter> addresses (m_range q) = {}" "addresses (m_range r) \<inter> occupied rs = {}" by (auto simp: free_range_def)
  have cases: "vend (m_range r) \<le> vaddr q \<or> vend (m_range q) \<le> vaddr r" using r(4) addresses_disjoint_iff [OF r(1) q(1)] by simp
  show ?case
  proof (cases "vaddr q \<le> vaddr r")
    case True
    then have "vend (m_range q) \<le> vaddr r" using cases proper_less [OF r(1)] by simp
    then have "regions_ok (vend (m_range q)) hi (insert_region r rs)" using Cons.IH [OF q(4)] r by (simp add: free_range_def)
    then show ?thesis using True q by (simp add: insert_region_def regions_ok_Cons)
  next
    case False
    then have "vend (m_range r) \<le> vaddr q" using cases proper_less [OF q(1)] by simp
    then show ?thesis using False q r by (simp add: insert_region_def regions_ok_Cons)
  qed
qed

lemma tree_inv_insert:
  assumes "tree_inv t" "tree_free t (m_range r)"
  shows "tree_inv (t\<lparr>m_regions := insert_region r (m_regions t)\<rparr>)"
  using assms regions_ok_insert by (simp add: tree_inv_def)

lemma tree_inv_remove: "tree_inv t \<Longrightarrow> tree_inv (t\<lparr>m_regions := remove_region key (m_regions t)\<rparr>)"
  using regions_ok_subset by (simp add: tree_inv_def remove_region_def)

lemma tree_inv_update:
  assumes "tree_inv t" "\<And>r. m_range (f r) = m_range r"
  shows "tree_inv (t\<lparr>m_regions := update_region key f (m_regions t)\<rparr>)"
  using assms by (auto simp: tree_inv_def update_region_def intro!: regions_ok_map)

end
