(* ===== verification/Address_Space_Facts.thy ===== *)
theory Address_Space_Facts
  imports Address_Space Region_Tree_Facts
begin

text \<open>
  The address space as its user sees it: a partial function from addresses to pages, where a page is what a
  region says of one address. Unmapping and splitting are related to this view: which pages go, which stay,
  and that a page that stays is backed by the same place of the same memory object as before.
\<close>

section \<open>The invariant\<close>

definition region_ok :: "region \<Rightarrow> bool" where
  "region_ok r \<longleftrightarrow> PAGE_SIZE dvd m_offset_in_vmobject r \<and>
     m_offset_in_vmobject r + vsize (m_range r) \<le> vm_size (m_vmobject r) \<and> vm_size (m_vmobject r) < 2 ^ 64 \<and>
     (is_shared_inode (m_vmobject r) \<longrightarrow> m_shared r) \<and> m_access r AND 7 = m_access r"

definition space_inv :: "vm_env \<Rightarrow> address_space \<Rightarrow> bool" where
  "space_inv env s \<longleftrightarrow> tree_inv (m_region_tree s) \<and>
     vend (m_total_range (m_region_tree s)) \<le> USER_RANGE_CEILING (kernel_mapping_base env) \<and>
     (\<forall>r \<in> set (regions s). region_ok r)"

lemma regions_with_regions [simp]: "regions (with_regions f s) = f (regions s)"
  by (simp add: with_regions_def)

lemma total_with_regions [simp]: "m_total_range (m_region_tree (with_regions f s)) = m_total_range (m_region_tree s)"
  by (simp add: with_regions_def)

abbreviation space_bounds :: "address_space \<Rightarrow> nat \<times> nat" where
  "space_bounds s \<equiv> (vbase (m_total_range (m_region_tree s)), vend (m_total_range (m_region_tree s)))"

lemma space_regions_ok: "space_inv env s \<Longrightarrow> regions_ok (fst (space_bounds s)) (snd (space_bounds s)) (regions s)"
  by (simp add: space_inv_def tree_inv_def)

lemma space_region:
  assumes "space_inv env s" "r \<in> set (regions s)"
  shows "proper (m_range r)" "region_ok r" "USER_RANGE_BASE \<le> vaddr r" "vend (m_range r) \<le> USER_RANGE_CEILING (kernel_mapping_base env)"
  using assms regions_ok_memD [OF space_regions_ok [OF assms(1)] assms(2)] by (auto simp: space_inv_def tree_inv_def)

section \<open>Pages\<close>

text \<open>What a region says of the page at an address: everything but where the region starts and ends, whether it
  is attached to the page directory, and what it has been.\<close>

definition page_of :: "region \<Rightarrow> nat \<Rightarrow> region" where
  "page_of r a = r\<lparr>m_range := \<lparr>vbase = 0, vsize = 0\<rparr>, m_offset_in_vmobject := m_offset_in_vmobject r + (a - vaddr r),
     m_initially_loaded_executable_segment := False, m_has_been_readable := False, m_has_been_writable := False,
     m_has_been_executable := False, m_page_directory := False\<rparr>"

definition view :: "region list \<Rightarrow> nat \<Rightarrow> region option" where
  "view rs a = map_option (\<lambda>r. page_of r a) (List.find (\<lambda>r. a \<in> addresses (m_range r)) rs)"

lemma view_None: "view rs a = None \<longleftrightarrow> a \<notin> occupied rs"
  by (auto simp: view_def find_None_iff occupied_def)

lemma view_mem:
  assumes "regions_ok lo hi rs" "r \<in> set rs" "a \<in> addresses (m_range r)"
  shows "view rs a = Some (page_of r a)"
proof -
  obtain q where q: "List.find (\<lambda>r. a \<in> addresses (m_range r)) rs = Some q"
    using assms(2,3) by (cases "List.find (\<lambda>r. a \<in> addresses (m_range r)) rs") (auto simp: find_None_iff)
  then have "q \<in> set rs" "a \<in> addresses (m_range q)" by (auto simp: find_Some_iff)
  then have "q = r" using regions_ok_unique [OF assms(1)] assms(2,3) by blast
  then show ?thesis using q by (simp add: view_def)
qed

lemma view_SomeE:
  assumes "view rs a = Some p"
  obtains r where "r \<in> set rs" "a \<in> addresses (m_range r)" "p = page_of r a"
proof -
  obtain r where "List.find (\<lambda>r. a \<in> addresses (m_range r)) rs = Some r" "p = page_of r a" using assms by (auto simp: view_def)
  then show ?thesis using that [of r] by (auto simp: find_Some_iff)
qed

lemma view_not_mem: "a \<notin> occupied rs \<Longrightarrow> view rs a = None"
  by (simp add: view_None)

lemma view_cong:
  assumes "regions_ok lo hi rs" "regions_ok lo' hi' rs'"
    and "\<And>r. r \<in> set rs \<Longrightarrow> a \<in> addresses (m_range r) \<Longrightarrow> \<exists>r' \<in> set rs'. a \<in> addresses (m_range r') \<and> page_of r' a = page_of r a"
    and "\<And>r'. r' \<in> set rs' \<Longrightarrow> a \<in> addresses (m_range r') \<Longrightarrow> \<exists>r \<in> set rs. a \<in> addresses (m_range r)"
  shows "view rs' a = view rs a"
proof (cases "view rs a")
  case None
  then have "a \<notin> occupied rs'" using assms(4) by (auto simp: view_None occupied_def)
  then show ?thesis using None by (simp add: view_not_mem)
next
  case (Some p)
  then obtain r where "r \<in> set rs" "a \<in> addresses (m_range r)" "p = page_of r a" by (rule view_SomeE)
  then show ?thesis using assms(3) [of r] view_mem [OF assms(2)] Some by fastforce
qed

lemma view_insert:
  assumes "regions_ok lo hi rs" "free_range lo hi rs (m_range r)"
  shows "view (insert_region r rs) a = (if a \<in> addresses (m_range r) then Some (page_of r a) else view rs a)"
proof -
  have ok: "regions_ok lo hi (insert_region r rs)" by (rule regions_ok_insert [OF assms])
  show ?thesis
  proof (cases "a \<in> addresses (m_range r)")
    case False
    then have "view (insert_region r rs) a = view rs a" by (intro view_cong [OF assms(1) ok]) auto
    then show ?thesis using False by simp
  qed (simp add: view_mem [OF ok])
qed

lemma view_remove:
  assumes "regions_ok lo hi rs" "r \<in> set rs"
  shows "view (remove_region (vaddr r) rs) a = (if a \<in> addresses (m_range r) then None else view rs a)"
proof -
  have ok: "regions_ok lo hi (remove_region (vaddr r) rs)" using regions_ok_subset [OF assms(1)] by (simp add: remove_region_def)
  have mem: "q \<in> set (remove_region (vaddr r) rs) \<longleftrightarrow> q \<in> set rs \<and> q \<noteq> r" for q
    using regions_ok_key [OF assms(1)] assms(2) by (auto simp: remove_region_def)
  show ?thesis
  proof (cases "a \<in> addresses (m_range r)")
    case True
    then have "a \<notin> occupied (remove_region (vaddr r) rs)"
      using regions_ok_unique [OF assms(1) _ assms(2)] by (auto simp: occupied_def mem)
    then show ?thesis using True by (simp add: view_None)
  next
    case False
    then have "view (remove_region (vaddr r) rs) a = view rs a" by (intro view_cong [OF assms(1) ok]) (use mem in blast)+
    then show ?thesis using False by simp
  qed
qed

lemma view_update:
  assumes "regions_ok lo hi rs" "r \<in> set rs" "m_range (f r) = m_range r"
  shows "view (update_region (vaddr r) f rs) a = (if a \<in> addresses (m_range r) then Some (page_of (f r) a) else view rs a)"
proof -
  have eq: "update_region (vaddr r) f rs = map (\<lambda>q. if q = r then f r else q) rs"
    using regions_ok_key [OF assms(1) _ assms(2)] by (auto simp: update_region_def)
  have ok: "regions_ok lo hi (update_region (vaddr r) f rs)" unfolding eq by (rule regions_ok_map [OF assms(1)]) (use assms(3) in auto)
  have fr: "f r \<in> set (update_region (vaddr r) f rs)" unfolding eq using assms(2) by force
  show ?thesis
  proof (cases "a \<in> addresses (m_range r)")
    case True then show ?thesis using view_mem [OF ok fr] assms(3) by simp
  next
    case False
    have "view (update_region (vaddr r) f rs) a = view rs a"
      by (rule view_cong [OF assms(1) ok]) (use False assms(3) in \<open>force simp: eq split: if_splits\<close>)+
    then show ?thesis using False by simp
  qed
qed

section \<open>Mapping\<close>

lemma map_pages_total:
  assumes "proper (m_range r)" "USER_RANGE_BASE \<le> vaddr r" "vend (m_range r) \<le> USER_RANGE_CEILING (kernel_mapping_base env)"
    and "\<forall>i \<in> set is. i < page_count r"
  shows "\<exists>b. map_pages env r is = Inr b"
  using assms(4)
proof (induction "is")
  case (Cons i "is")
  have "i * PAGE_SIZE < vsize (m_range r)"
  proof -
    have "i < vsize (m_range r) div 4096" using Cons.prems by (simp add: page_count_def)
    moreover have "vsize (m_range r) div 4096 * 4096 \<le> vsize (m_range r)" by simp
    ultimately show ?thesis by linarith
  qed
  then have "vaddr_from_page_index r i = vaddr r + i * PAGE_SIZE" "vaddr r + i * PAGE_SIZE < vend (m_range r)"
    using assms(1) vend_less [OF assms(1)] by (simp_all add: vaddr_from_page_index_def vend_eq size_add_eq)
  then have "map_individual_page_impl env r i = Inr (pte_available env (vaddr_from_page_index r i))"
    using assms(2,3) by (simp add: map_individual_page_impl_def is_user_address_def Let_def)
  then show ?case using Cons by (cases "pte_available env (vaddr_from_page_index r i)") auto
qed auto

lemma Region_map_total:
  assumes "space_inv env s" "r \<in> set (regions s)"
  shows "\<exists>b. Region_map env r = Inr (r\<lparr>m_page_directory := True\<rparr>, b)"
  using map_pages_total [of r env "[0..<page_count r]"] space_region [OF assms]
  by (auto simp: Region_map_def region_ok_def)

lemma space_update:
  assumes "space_inv env s" "r \<in> set (regions s)" "m_range (f r) = m_range r" "region_ok (f r)"
  shows "space_inv env (with_regions (update_region (vaddr r) f) s)"
proof -
  note ok = space_regions_ok [OF assms(1)]
  have eq: "update_region (vaddr r) f (regions s) = map (\<lambda>q. if q = r then f r else q) (regions s)"
    using regions_ok_key [OF ok _ assms(2)] by (auto simp: update_region_def)
  have "regions_ok (fst (space_bounds s)) (snd (space_bounds s)) (update_region (vaddr r) f (regions s))"
    unfolding eq by (rule regions_ok_map [OF ok]) (use assms(3) in auto)
  moreover have "\<forall>q \<in> set (update_region (vaddr r) f (regions s)). region_ok q"
    unfolding eq using assms(1,4) by (auto simp: space_inv_def)
  ultimately show ?thesis using assms(1) by (simp add: space_inv_def tree_inv_def)
qed

definition attached :: "region \<Rightarrow> region" where
  "attached r = r\<lparr>m_page_directory := True\<rparr>"

lemma attached_simps [simp]: "m_range (attached r) = m_range r" "page_of (attached r) = page_of r" "region_ok (attached r) = region_ok r"
  by (auto simp: attached_def page_of_def region_ok_def fun_eq_iff)

lemma map_region_ok:
  assumes "space_inv env s" "r \<in> set (regions s)"
  shows "\<exists>b s'. map_region env (vaddr r) s = (if b then Inr () else Inl (Errno ENOMEM), s') \<and>
    s' = with_regions (update_region (vaddr r) (\<lambda>_. attached r)) s \<and> space_inv env s' \<and> view (regions s') = view (regions s)"
proof -
  let ?s' = "with_regions (update_region (vaddr r) (\<lambda>_. attached r)) s"
  obtain b where b: "Region_map env r = Inr (attached r, b)" using Region_map_total [OF assms] by (auto simp: attached_def)
  have "find_region (regions s) (vaddr r) = Some r" using find_region_Some [OF space_regions_ok [OF assms(1)]] assms(2) by simp
  then have "map_region env (vaddr r) s = (if b then Inr () else Inl (Errno ENOMEM), ?s')" using b by (simp add: map_region_def)
  moreover have "space_inv env ?s'" using space_update [OF assms] space_region(2) [OF assms] by simp
  moreover have "view (regions ?s') = view (regions s)"
    by (rule ext) (use view_update [OF space_regions_ok [OF assms(1)] assms(2), of "\<lambda>_. attached r"] view_mem [OF space_regions_ok [OF assms(1)] assms(2)] in simp)
  ultimately show ?thesis by blast
qed

definition same_frame :: "address_space \<Rightarrow> address_space \<Rightarrow> bool" where
  "same_frame s s' \<longleftrightarrow> m_total_range (m_region_tree s') = m_total_range (m_region_tree s) \<and>
     m_enforces_syscall_regions s' = m_enforces_syscall_regions s"

lemma same_frame_refl [simp]: "same_frame s s"
  by (simp add: same_frame_def)

lemma same_frame_with [simp]: "same_frame s (with_regions f s)"
  by (simp add: same_frame_def with_regions_def)

lemma same_frame_trans: "same_frame s t \<Longrightarrow> same_frame t u \<Longrightarrow> same_frame s u"
  by (simp add: same_frame_def)

lemma vaddr_update: "vaddr ` set (update_region (vaddr r) (\<lambda>_. attached r) rs) = vaddr ` set rs"
proof -
  have "map vaddr (update_region (vaddr r) (\<lambda>_. attached r) rs) = map vaddr rs" by (simp add: update_region_def)
  then show ?thesis by (metis set_map)
qed

lemma map_regions_ok:
  assumes "space_inv env s" "set ks \<subseteq> vaddr ` set (regions s)"
  shows "\<exists>res s'. map_regions env ks s = (res, s') \<and> (res = Inr () \<or> res = Inl (Errno ENOMEM)) \<and>
    space_inv env s' \<and> view (regions s') = view (regions s) \<and> vaddr ` set (regions s') = vaddr ` set (regions s) \<and> same_frame s s' \<and>
    {q \<in> set (regions s). vaddr q \<notin> set ks} \<subseteq> set (regions s')"
  using assms
proof (induction ks arbitrary: s)
  case (Cons k ks)
  then obtain r where r: "r \<in> set (regions s)" "k = vaddr r" by auto
  obtain b s' where s': "map_region env (vaddr r) s = (if b then Inr () else Inl (Errno ENOMEM), s')"
    "s' = with_regions (update_region (vaddr r) (\<lambda>_. attached r)) s" "space_inv env s'" "view (regions s') = view (regions s)"
    using map_region_ok [OF Cons.prems(1) r(1)] by blast
  have v: "vaddr ` set (regions s') = vaddr ` set (regions s)" using s'(2) vaddr_update by simp
  have keep: "{q \<in> set (regions s). vaddr q \<noteq> k} \<subseteq> set (regions s')" using s'(2) r(2) by (auto simp: update_region_def image_iff)
  have frame: "same_frame s s'" using s'(2) by simp
  show ?case
  proof (cases b)
    case True
    have "set ks \<subseteq> vaddr ` set (regions s')" using Cons.prems(2) v by auto
    from Cons.IH [OF s'(3) this] obtain res t where t: "map_regions env ks s' = (res, t)" "res = Inr () \<or> res = Inl (Errno ENOMEM)"
      "space_inv env t" "view (regions t) = view (regions s')" "vaddr ` set (regions t) = vaddr ` set (regions s')" "same_frame s' t"
      "{q \<in> set (regions s'). vaddr q \<notin> set ks} \<subseteq> set (regions t)" by (elim exE conjE) (rule that)
    have "{q \<in> set (regions s). vaddr q \<notin> set (k # ks)} \<subseteq> set (regions t)" using keep t(7) by auto
    then show ?thesis using t s'(1,4) True v r(2) same_frame_trans [OF frame] by (intro exI [of _ res] exI [of _ t]) simp
  next
    case False
    have "{q \<in> set (regions s). vaddr q \<notin> set (k # ks)} \<subseteq> set (regions s')" using keep by auto
    then show ?thesis using s'(1,3,4) False v r(2) frame by (intro exI [of _ "Inl (Errno ENOMEM)"] exI [of _ s']) simp
  qed
qed auto

section \<open>Taking and splitting\<close>

lemma space_remove: "space_inv env s \<Longrightarrow> space_inv env (with_regions (remove_region k) s)"
  using regions_ok_subset [OF space_regions_ok, of env s] by (auto simp: space_inv_def tree_inv_def remove_region_def)

lemma take_region_eq:
  assumes "space_inv env s" "r \<in> set (regions s)"
  shows "take_region r s = (Inr r, with_regions (remove_region (vaddr r)) s)"
  using find_region_Some [OF space_regions_ok [OF assms(1)], of "vaddr r" r] assms(2) by (simp add: take_region_def)

abbreviation space_free :: "address_space \<Rightarrow> virtual_range \<Rightarrow> bool" where
  "space_free s rng \<equiv> tree_free (m_region_tree s) rng"

lemma space_insert:
  assumes "space_inv env s" "space_free s (m_range r)" "region_ok r"
  shows "space_inv env (with_regions (insert_region r) s)"
  using assms tree_inv_insert [of "m_region_tree s" r] by (simp add: space_inv_def with_regions_def)

text \<open>The part of a region for a range inside it.\<close>

definition split_of :: "region \<Rightarrow> virtual_range \<Rightarrow> region" where
  "split_of r rng =
     r\<lparr>m_range := rng, m_offset_in_vmobject := m_offset_in_vmobject r + (vbase rng - vaddr r),
       m_immutable := False, m_initially_loaded_executable_segment := False,
       m_has_been_readable := is_readable r, m_has_been_writable := is_writable r,
       m_has_been_executable := is_executable r, m_page_directory := False\<rparr>"

lemma split_of_ok:
  assumes "proper (m_range r)" "proper rng" "addresses rng \<subseteq> addresses (m_range r)" "region_ok r"
  shows "region_ok (split_of r rng)" "m_range (split_of r rng) = rng"
    "a \<in> addresses rng \<Longrightarrow> \<not> m_immutable r \<Longrightarrow> page_of (split_of r rng) a = page_of r a"
proof -
  have b: "vaddr r \<le> vbase rng" "vbase rng + vsize rng \<le> vaddr r + vsize (m_range r)"
    using assms(1-3) unfolding addresses_def by (auto simp: proper_def)
  obtain d where d: "vbase rng = vaddr r + d" using b(1) le_Suc_ex by blast
  have "PAGE_SIZE dvd vaddr r + d" "PAGE_SIZE dvd vaddr r" using assms(1,2) d by (simp_all add: proper_def)
  then have "PAGE_SIZE dvd d" by (simp add: dvd_add_right_iff)
  then show "region_ok (split_of r rng)" using assms(4) b(2) by (simp add: region_ok_def split_of_def d)
  show "m_range (split_of r rng) = rng" by (simp add: split_of_def)
  assume "a \<in> addresses rng" "\<not> m_immutable r"
  then show "page_of (split_of r rng) a = page_of r a" using b by (simp add: page_of_def split_of_def addresses_def)
qed

lemma split_of_eq:
  "set_mmap (m_mmap r) (m_mmapped_from_readable r) (m_mmapped_from_writable r)
     ((create_unplaced (m_vmobject r) offset (m_name r) (m_access r) (m_memory_type r) (m_shared r))\<lparr>m_syscall_region := m_syscall_region r\<rparr>)
     \<lparr>m_stack := m_stack r, m_range := rng\<rparr> = (split_of r rng)\<lparr>m_offset_in_vmobject := offset\<rparr>"
  by (simp add: set_mmap_def create_unplaced_def split_of_def is_readable_def is_writable_def is_executable_def)

lemma split_offset:
  assumes "proper (m_range r)" "proper rng" "addresses rng \<subseteq> addresses (m_range r)" "region_ok r"
  shows "size_add (m_offset_in_vmobject r) (size_sub (vbase rng) (vaddr r)) = m_offset_in_vmobject r + (vbase rng - vaddr r)"
proof -
  have b: "vaddr r \<le> vbase rng" "vbase rng + vsize rng \<le> vaddr r + vsize (m_range r)" "0 < vsize rng" "vbase rng < 2 ^ 64"
    using assms(1-3) unfolding addresses_def by (auto simp: proper_def)
  have e: "size_sub (vbase rng) (vaddr r) = vbase rng - vaddr r" using b by (simp add: size_sub_eq)
  have "m_offset_in_vmobject r + (vbase rng - vaddr r) < 2 ^ 64" using b assms(4) unfolding region_ok_def by linarith
  then show ?thesis unfolding e by (rule size_add_eq)
qed

lemma range_eta [simp]: "\<lparr>vbase = vbase r, vsize = vsize r\<rparr> = (r :: virtual_range)"
  by simp

lemma try_allocate_split_region_ok:
  assumes "space_inv env s" "proper (m_range r)" "region_ok r" "proper rng" "addresses rng \<subseteq> addresses (m_range r)" "space_free s rng"
  defines "offset \<equiv> size_add (m_offset_in_vmobject r) (size_sub (vbase rng) (vaddr r))"
  shows "try_allocate_split_region env r rng offset s = (Inl (Errno ENOMEM), s) \<or>
    try_allocate_split_region env r rng offset s = (Inr (vbase rng), with_regions (insert_region (split_of r rng)) s)"
proof -
  have o: "(split_of r rng)\<lparr>m_offset_in_vmobject := offset\<rparr> = split_of r rng"
    unfolding offset_def split_offset [OF assms(2,4,5,3)] by (simp add: split_of_def)
  have b: "vbase rng < 2 ^ 64" "vsize rng < 2 ^ 64" "0 < vsize rng" "PAGE_SIZE dvd vbase rng" "PAGE_SIZE dvd vsize rng"
    using assms(4) by (auto simp: proper_def)
  have t: "tree_inv (m_region_tree s)" using assms(1) by (simp add: space_inv_def)
  have "allocate_range_specific (m_region_tree s) (vbase rng) (vsize rng) = Inr rng"
    using allocate_range_specific_eq [OF t b(4,5,3,1,2)] assms(6) by simp
  then show ?thesis
    by (simp add: try_allocate_split_region_def place_specifically_def Let_def split_of_eq o with_regions_def)
qed

lemma free_after_insert:
  assumes "space_free s q" "addresses q \<inter> addresses (m_range r) = {}"
  shows "space_free (with_regions (insert_region r) s) q"
  using assms by (auto simp: free_range_def occupied_def)

abbreviation parts :: "address_space \<Rightarrow> region \<Rightarrow> nat set" where
  "parts s r \<equiv> vaddr ` {q \<in> set (regions s). addresses (m_range q) \<subseteq> addresses (m_range r)}"

text \<open>The replacements of a region that has been taken out of the tree: those that are made have the pages of the
  region.\<close>

lemma make_replacement_regions_ok:
  assumes "space_inv env s" "proper (m_range r)" "region_ok r" "\<not> m_immutable r"
    and "\<forall>q \<in> set qs. proper q \<and> addresses q \<subseteq> addresses (m_range r) \<and> space_free s q" "sorted_wrt (\<lambda>a b. addresses a \<inter> addresses b = {}) qs"
  shows "\<exists>res s' D. make_replacement_regions env r qs s = (res, s') \<and> space_inv env s' \<and>
    m_total_range (m_region_tree s') = m_total_range (m_region_tree s) \<and> m_enforces_syscall_regions s' = m_enforces_syscall_regions s \<and>
    set (regions s) \<subseteq> set (regions s') \<and> D \<subseteq> (\<Union>q \<in> set qs. addresses q) \<and>
    (\<forall>a. view (regions s') a = (if a \<in> D then Some (page_of r a) else view (regions s) a)) \<and>
    (res = Inl (Errno ENOMEM) \<or> res = Inr (map vbase qs) \<and> D = (\<Union>q \<in> set qs. addresses q) \<and> vbase ` set qs \<subseteq> parts s' r)"
  using assms(1,5,6)
proof (induction qs arbitrary: s)
  case Nil
  then show ?case by (intro exI [of _ "Inr []"] exI [of _ s] exI [of _ "{}"]) simp
next
  case (Cons q qs)
  let ?off = "size_add (m_offset_in_vmobject r) (size_sub (vbase q) (vaddr r))"
  have q: "proper q" "addresses q \<subseteq> addresses (m_range r)" "space_free s q" using Cons.prems(2) by auto
  have c: "contains_range (m_range r) q" using contains_range_iff [OF assms(2) q(1)] q(2) by simp
  consider "try_allocate_split_region env r q ?off s = (Inl (Errno ENOMEM), s)"
    | "try_allocate_split_region env r q ?off s = (Inr (vbase q), with_regions (insert_region (split_of r q)) s)"
    using try_allocate_split_region_ok [OF Cons.prems(1) assms(2,3) q] by blast
  then show ?case
  proof cases
    case 1
    then have "make_replacement_regions env r (q # qs) s = (Inl (Errno ENOMEM), s)" using c by (simp add: Let_def)
    then show ?thesis using Cons.prems(1) by (intro exI [of _ "Inl (Errno ENOMEM)"] exI [of _ s] exI [of _ "{}"]) simp
  next
    case 2
    let ?s = "with_regions (insert_region (split_of r q)) s"
    note sp = split_of_ok [OF assms(2) q(1,2) assms(3)]
    have inv: "space_inv env ?s" using space_insert [OF Cons.prems(1)] q(3) sp(1,2) by simp
    have "\<forall>p \<in> set qs. proper p \<and> addresses p \<subseteq> addresses (m_range r) \<and> space_free ?s p"
      using Cons.prems(2,3) free_after_insert [of s _ "split_of r q"] sp(2) by (auto simp: Int_commute)
    from Cons.IH [OF inv this] Cons.prems(3) obtain res s' D where IH:
      "make_replacement_regions env r qs ?s = (res, s')" "space_inv env s'"
      "m_total_range (m_region_tree s') = m_total_range (m_region_tree s)" "m_enforces_syscall_regions s' = m_enforces_syscall_regions s"
      "set (regions ?s) \<subseteq> set (regions s')" "D \<subseteq> (\<Union>q \<in> set qs. addresses q)"
      "\<And>a. view (regions s') a = (if a \<in> D then Some (page_of r a) else view (regions ?s) a)"
      "res = Inl (Errno ENOMEM) \<or> res = Inr (map vbase qs) \<and> D = (\<Union>q \<in> set qs. addresses q) \<and> vbase ` set qs \<subseteq> parts s' r"
      by (auto simp: with_regions_def)
    have v: "view (regions ?s) a = (if a \<in> addresses q then Some (page_of r a) else view (regions s) a)" for a
      using view_insert [OF space_regions_ok [OF Cons.prems(1)], of "split_of r q" a] q(3) sp(2) sp(3) [of a] assms(4) by simp
    have mem: "split_of r q \<in> set (regions s')" "set (regions s) \<subseteq> set (regions s')" using IH(5) by auto
    have "vbase q \<in> parts s' r" using mem(1) sp(2) q(2) by (intro image_eqI [of _ _ "split_of r q"]) auto
    then show ?thesis using 2 c IH v mem(2)
      by (intro exI [of _ "tryE res (\<lambda>ks. Inr (vbase q # ks))"] exI [of _ s'] exI [of _ "D \<union> addresses q"])
        (auto simp: Let_def)
  qed
qed

lemma carve_ok:
  assumes "proper r" "proper taken" "addresses r \<inter> addresses taken \<noteq> {}"
  shows "\<exists>qs. carve r taken = Inr qs \<and> (\<forall>q \<in> set qs. proper q \<and> addresses q \<subseteq> addresses r) \<and>
    (\<Union>q \<in> set qs. addresses q) = addresses r - addresses taken \<and> sorted_wrt (\<lambda>a b. addresses a \<inter> addresses b = {}) qs \<and>
    length qs = (if vbase taken > vbase r then 1 else 0) + (if vend taken < vend r then 1 else 0)"
proof -
  have o: "vbase taken < vend r" "vbase r < vend taken" using assms(3) addresses_disjoint_iff [OF assms(1,2)] by auto
  have e: "vend r < 2 ^ 64" "vend taken < 2 ^ 64" using vend_less assms(1,2) by blast+
  have b: "PAGE_SIZE dvd vbase r" "PAGE_SIZE dvd vend r" "PAGE_SIZE dvd vbase taken" "PAGE_SIZE dvd vend taken"
    using assms(1,2) by (auto simp: vend_eq) (auto simp: proper_def)
  let ?l = "\<lparr>vbase = vbase r, vsize = vbase taken - vbase r\<rparr>" and ?h = "\<lparr>vbase = vend taken, vsize = vend r - vend taken\<rparr>"
  have l: "proper ?l" "addresses ?l = {vbase r..<vbase taken}" if "vbase taken > vbase r"
    using that b o e by (auto simp: proper_def addresses_def intro: dvd_diff_nat)
  have h: "proper ?h" "addresses ?h = {vend taken..<vend r}" if "vend taken < vend r"
    using that b o e by (auto simp: proper_def addresses_def intro: dvd_diff_nat)
  define qs where "qs = (if vbase taken > vbase r then [?l] else []) @ (if vend taken < vend r then [?h] else [])"
  have "taken = r \<Longrightarrow> qs = []" by (simp add: qs_def)
  moreover have "size_sub (vbase taken) (vbase r) = vbase taken - vbase r" if "vbase taken > vbase r" using that o e by (simp add: size_sub_eq)
  moreover have "size_sub (vend r) (vend taken) = vend r - vend taken" if "vend taken < vend r" using that e by (simp add: size_sub_eq)
  ultimately have c: "carve r taken = Inr qs" using assms(2) by (auto simp: carve_def qs_def proper_def)
  have p: "\<forall>q \<in> set qs. proper q \<and> addresses q \<subseteq> addresses r" using l h o by (auto simp: qs_def addresses_vend [OF assms(1)])
  have "(\<Union>q \<in> set qs. addresses q) =
      (if vbase taken > vbase r then {vbase r..<vbase taken} else {}) \<union> (if vend taken < vend r then {vend taken..<vend r} else {})"
    using l(2) h(2) by (simp add: qs_def)
  also have "\<dots> = {vbase r..<vend r} - {vbase taken..<vend taken}"
  proof (rule set_eqI)
    fix a
    show "a \<in> (if vbase taken > vbase r then {vbase r..<vbase taken} else {}) \<union> (if vend taken < vend r then {vend taken..<vend r} else {})
        \<longleftrightarrow> a \<in> {vbase r..<vend r} - {vbase taken..<vend taken}"
      using o by (simp split: if_splits) linarith
  qed
  finally have u: "(\<Union>q \<in> set qs. addresses q) = addresses r - addresses taken"
    unfolding addresses_vend [OF assms(1)] addresses_vend [OF assms(2)] .
  have "sorted_wrt (\<lambda>a b. addresses a \<inter> addresses b = {}) qs" using l(2) h(2) proper_less [OF assms(2)] by (auto simp: qs_def)
  moreover have "length qs = (if vbase taken > vbase r then 1 else 0) + (if vend taken < vend r then 1 else 0)" by (simp add: qs_def)
  ultimately show ?thesis using c p u by (intro exI [of _ qs] conjI)
qed

lemma addresses_subset_iff: "proper q \<Longrightarrow> proper r \<Longrightarrow> addresses q \<subseteq> addresses r \<longleftrightarrow> vbase r \<le> vbase q \<and> vend q \<le> vend r"
  using proper_less [of q] by (auto simp: addresses_vend atLeastLessThan_subset_iff)

lemma free_mono: "space_free s r \<Longrightarrow> proper q \<Longrightarrow> addresses q \<subseteq> addresses r \<Longrightarrow> space_free s q"
  using addresses_subset_iff [of q r] by (auto simp: free_range_def)

lemma try_split_region_ok:
  assumes "space_inv env s" "proper (m_range r)" "region_ok r" "\<not> m_immutable r" "space_free s (m_range r)"
    and "proper rng" "addresses (m_range r) \<inter> addresses rng \<noteq> {}" "\<not> addresses (m_range r) \<subseteq> addresses rng"
  obtains res s' D where "try_split_region_around_range env r rng s = (res, s')" "space_inv env s'" "same_frame s s'"
    "set (regions s) \<subseteq> set (regions s')" "D \<subseteq> addresses (m_range r) - addresses rng"
    "\<forall>a. view (regions s') a = (if a \<in> D then Some (page_of r a) else view (regions s) a)"
    "res = Inl (Errno ENOMEM) \<or> (\<exists>ks. res = Inr ks \<and> D = addresses (m_range r) - addresses rng \<and>
       set ks \<subseteq> parts s' r \<and>
       length ks = (if vbase rng > vaddr r then 1 else 0) + (if vend rng < vend (m_range r) then 1 else 0))"
proof -
  obtain qs where qs: "carve (m_range r) rng = Inr qs" "\<forall>q \<in> set qs. proper q \<and> addresses q \<subseteq> addresses (m_range r)"
    "(\<Union>q \<in> set qs. addresses q) = addresses (m_range r) - addresses rng" "sorted_wrt (\<lambda>a b. addresses a \<inter> addresses b = {}) qs"
    "length qs = (if vbase rng > vaddr r then 1 else 0) + (if vend rng < vend (m_range r) then 1 else 0)"
    using carve_ok [OF assms(2,6,7)] by (elim exE conjE) (rule that)
  have ne: "qs \<noteq> []" using qs(3) assms(8) by auto
  have "\<forall>q \<in> set qs. proper q \<and> addresses q \<subseteq> addresses (m_range r) \<and> space_free s q" using qs(2) free_mono [OF assms(5)] by blast
  from make_replacement_regions_ok [OF assms(1-4) this qs(4)] obtain res s' D where m:
    "make_replacement_regions env r qs s = (res, s')" "space_inv env s'" "m_total_range (m_region_tree s') = m_total_range (m_region_tree s)"
    "m_enforces_syscall_regions s' = m_enforces_syscall_regions s" "set (regions s) \<subseteq> set (regions s')" "D \<subseteq> (\<Union>q \<in> set qs. addresses q)"
    "\<forall>a. view (regions s') a = (if a \<in> D then Some (page_of r a) else view (regions s) a)"
    "res = Inl (Errno ENOMEM) \<or> res = Inr (map vbase qs) \<and> D = (\<Union>q \<in> set qs. addresses q) \<and> vbase ` set qs \<subseteq> parts s' r"
    by (elim exE conjE) (rule that)
  have "try_split_region_around_range env r rng s = (res, s')" using qs(1) ne m(1) by (simp add: try_split_region_around_range_def)
  moreover have "same_frame s s'" using m(3,4) by (simp add: same_frame_def)
  moreover have "res = Inl (Errno ENOMEM) \<or> (\<exists>ks. res = Inr ks \<and> D = addresses (m_range r) - addresses rng \<and>
       set ks \<subseteq> parts s' r \<and>
       length ks = (if vbase rng > vaddr r then 1 else 0) + (if vend rng < vend (m_range r) then 1 else 0))"
    using m(8) qs(3,5) by auto
  ultimately show ?thesis using m(2,5,6,7) qs(3) by (intro that [of res s' D]) simp_all
qed

lemma view_taken:
  assumes "space_inv env s" "r \<in> set (regions s)"
  shows "view (regions (with_regions (remove_region (vaddr r)) s)) = view (regions s) |` (- addresses (m_range r))"
  using view_remove [OF space_regions_ok [OF assms(1)] assms(2)] by (auto simp: restrict_map_def fun_eq_iff)

lemma free_taken:
  assumes "space_inv env s" "r \<in> set (regions s)"
  shows "space_free (with_regions (remove_region (vaddr r)) s) (m_range r)"
proof -
  have "a \<notin> occupied (remove_region (vaddr r) (regions s))" if "a \<in> addresses (m_range r)" for a
    using view_remove [OF space_regions_ok [OF assms(1)] assms(2), of a] view_None [of "remove_region (vaddr r) (regions s)" a] that by simp
  then show ?thesis using regions_ok_memD [OF space_regions_ok [OF assms(1)] assms(2)] by (auto simp: free_range_def)
qed

lemma kept_taken:
  assumes "space_inv env s" "r \<in> set (regions s)"
  shows "set (regions (with_regions (remove_region (vaddr r)) s)) = set (regions s) - {r}"
  using regions_ok_key [OF space_regions_ok [OF assms(1)] _ assms(2)] assms(2) by (auto simp: remove_region_def)

text \<open>Replacing a region by the parts of it outside a range keeps the pages of a set \<open>D\<close> of these parts, all of
  them when it succeeds.\<close>

lemma replace_region_ok:
  assumes "space_inv env s" "r \<in> set (regions s)" "\<not> m_immutable r"
    and "proper rng" "addresses (m_range r) \<inter> addresses rng \<noteq> {}" "\<not> addresses (m_range r) \<subseteq> addresses rng"
  obtains res s' D where
    "try_split_region_around_range env r rng (with_regions (remove_region (vaddr r)) s) = (res, s')" "space_inv env s'" "same_frame s s'"
    "set (regions s) - {r} \<subseteq> set (regions s')" "D \<subseteq> addresses (m_range r) - addresses rng"
    "view (regions s') = view (regions s) |` (- (addresses (m_range r) - D))"
    "res = Inl (Errno ENOMEM) \<or> (\<exists>ks. res = Inr ks \<and> D = addresses (m_range r) - addresses rng \<and>
       set ks \<subseteq> parts s' r \<and>
       length ks = (if vbase rng > vaddr r then 1 else 0) + (if vend rng < vend (m_range r) then 1 else 0))"
proof -
  let ?s = "with_regions (remove_region (vaddr r)) s"
  note r = space_region [OF assms(1,2)]
  obtain res s' D where d: "try_split_region_around_range env r rng ?s = (res, s')" "space_inv env s'" "same_frame ?s s'"
    "set (regions ?s) \<subseteq> set (regions s')" "D \<subseteq> addresses (m_range r) - addresses rng"
    "\<forall>a. view (regions s') a = (if a \<in> D then Some (page_of r a) else view (regions ?s) a)"
    "res = Inl (Errno ENOMEM) \<or> (\<exists>ks. res = Inr ks \<and> D = addresses (m_range r) - addresses rng \<and>
       set ks \<subseteq> parts s' r \<and>
       length ks = (if vbase rng > vaddr r then 1 else 0) + (if vend rng < vend (m_range r) then 1 else 0))"
    by (rule try_split_region_ok [OF space_remove [OF assms(1)] r(1,2) assms(3) free_taken [OF assms(1,2)] assms(4-6)])
  have "view (regions s') a = (view (regions s) |` (- (addresses (m_range r) - D))) a" for a
    using d(5,6) view_mem [OF space_regions_ok [OF assms(1)] assms(2), of a] view_taken [OF assms(1,2)] by (auto simp: restrict_map_def)
  then have "view (regions s') = view (regions s) |` (- (addresses (m_range r) - D))" by blast
  moreover have "same_frame s s'" using d(3) same_frame_trans [of s ?s s'] by simp
  ultimately show ?thesis using d kept_taken [OF assms(1,2)] by (intro that [of res s' D]) simp_all
qed

section \<open>Unmapping several regions\<close>

lemma intersect_ok:
  assumes "proper r" "proper rng" "addresses r \<inter> addresses rng \<noteq> {}"
  obtains c where "intersect r rng = Inr c" "proper c" "addresses c = addresses r \<inter> addresses rng"
proof -
  have o: "vbase rng < vend r" "vbase r < vend rng" using assms(3) addresses_disjoint_iff [OF assms(1,2)] by auto
  note lt = proper_less [OF assms(1)] proper_less [OF assms(2)]
  have e: "vend r < 2 ^ 64" "vend rng < 2 ^ 64" using vend_less assms(1,2) by blast+
  have b: "PAGE_SIZE dvd vbase r" "PAGE_SIZE dvd vend r" "PAGE_SIZE dvd vbase rng" "PAGE_SIZE dvd vend rng"
    using assms(1,2) by (auto simp: vend_eq) (auto simp: proper_def)
  define nb ne where "nb = max (vbase r) (vbase rng)" and "ne = min (vend r) (vend rng)"
  have n: "nb < ne" "ne < 2 ^ 64" "PAGE_SIZE dvd nb" "PAGE_SIZE dvd ne" using o lt e b by (auto simp: nb_def ne_def max_def min_def)
  show ?thesis
  proof (cases "r = rng")
    case True then show ?thesis using that [of r] assms(1) by (simp add: intersect_def)
  next
    case False
    let ?c = "\<lparr>vbase = nb, vsize = ne - nb\<rparr>"
    have "intersect r rng = Inr ?c" using False n by (simp add: intersect_def nb_def [symmetric] ne_def [symmetric] Let_def size_sub_eq)
    moreover have "proper ?c" using n by (auto simp: proper_def intro: dvd_diff_nat)
    moreover have "addresses ?c = addresses r \<inter> addresses rng"
      using n unfolding addresses_vend [OF assms(1)] addresses_vend [OF assms(2)] by (auto simp: addresses_def nb_def ne_def)
    ultimately show ?thesis by (rule that)
  qed
qed

lemma proper_card: "vsize r = card (addresses r)"
  by (simp add: addresses_def)

lemma proper_full: "proper c \<Longrightarrow> proper r \<Longrightarrow> addresses c \<subseteq> addresses r \<Longrightarrow> vsize c = vsize r \<longleftrightarrow> addresses c = addresses r"
  unfolding proper_card by (metis addresses_def card_subset_eq finite_atLeastLessThan)

lemma unmap_regions_ok:
  assumes "space_inv env s" "set olds \<subseteq> set (regions s)" "distinct olds" "proper rng"
    and "\<forall>r \<in> set olds. \<not> m_immutable r \<and> addresses (m_range r) \<inter> addresses rng \<noteq> {}"
  shows "\<exists>res s' G. unmap_regions env rng olds s = (res, s') \<and> space_inv env s' \<and> same_frame s s' \<and>
    set (regions s) - set olds \<subseteq> set (regions s') \<and> G \<subseteq> (\<Union>r \<in> set olds. addresses (m_range r)) \<and>
    view (regions s') = view (regions s) |` (- G) \<and>
    (res = Inl (Errno ENOMEM) \<or> (\<exists>ks. res = Inr ks \<and> G = addresses rng \<inter> (\<Union>r \<in> set olds. addresses (m_range r)) \<and>
       set ks \<subseteq> vaddr ` set (regions s')))"
  using assms(1-3,5)
proof (induction olds arbitrary: s)
  case Nil
  then show ?case by (intro exI [of _ "Inr []"] exI [of _ s] exI [of _ "{}"]) (simp add: fun_eq_iff restrict_map_def)
next
  case (Cons r olds)
  have r: "r \<in> set (regions s)" "\<not> m_immutable r" "addresses (m_range r) \<inter> addresses rng \<noteq> {}" using Cons.prems by auto
  note pr = space_region(1) [OF Cons.prems(1) r(1)]
  obtain c where c: "intersect (m_range r) rng = Inr c" "proper c" "addresses c = addresses (m_range r) \<inter> addresses rng"
    by (rule intersect_ok [OF pr assms(4) r(3)])
  have full: "vsize c = vsize (m_range r) \<longleftrightarrow> addresses (m_range r) \<subseteq> addresses rng" using proper_full [OF c(2) pr] c(3) by blast
  let ?s = "with_regions (remove_region (vaddr r)) s"
  note kept = kept_taken [OF Cons.prems(1) r(1)]
  show ?case
  proof (cases "addresses (m_range r) \<subseteq> addresses rng")
    case True
    have inv: "space_inv env ?s" by (rule space_remove [OF Cons.prems(1)])
    have "set olds \<subseteq> set (regions ?s)" using Cons.prems(2,3) kept by auto
    from Cons.IH [OF inv this] Cons.prems(3,4) obtain res s' G where IH: "unmap_regions env rng olds ?s = (res, s')" "space_inv env s'"
      "same_frame ?s s'" "set (regions ?s) - set olds \<subseteq> set (regions s')" "G \<subseteq> (\<Union>r \<in> set olds. addresses (m_range r))"
      "view (regions s') = view (regions ?s) |` (- G)"
      "res = Inl (Errno ENOMEM) \<or> (\<exists>ks. res = Inr ks \<and> G = addresses rng \<inter> (\<Union>r \<in> set olds. addresses (m_range r)) \<and>
         set ks \<subseteq> vaddr ` set (regions s'))" by auto
    have "unmap_regions env rng (r # olds) s = (res, s')"
      using c(1) full True IH(1) take_region_eq [OF Cons.prems(1) r(1)] by (simp add: deallocate_region_def)
    moreover have "view (regions s') = view (regions s) |` (- (addresses (m_range r) \<union> G))"
      using IH(6) view_taken [OF Cons.prems(1) r(1)] by (auto simp: fun_eq_iff restrict_map_def)
    moreover have "same_frame s s'" using IH(3) same_frame_trans [of s ?s s'] by simp
    ultimately show ?thesis using IH(2,4,5,7) kept True
      by (intro exI [of _ res] exI [of _ s'] exI [of _ "addresses (m_range r) \<union> G"]) auto
  next
    case False
    obtain res1 s1 D where s1: "try_split_region_around_range env r rng ?s = (res1, s1)" "space_inv env s1" "same_frame s s1"
      "set (regions s) - {r} \<subseteq> set (regions s1)" "D \<subseteq> addresses (m_range r) - addresses rng"
      "view (regions s1) = view (regions s) |` (- (addresses (m_range r) - D))"
      "res1 = Inl (Errno ENOMEM) \<or> (\<exists>ks. res1 = Inr ks \<and> D = addresses (m_range r) - addresses rng \<and>
         set ks \<subseteq> parts s1 r \<and>
         length ks = (if vbase rng > vaddr r then 1 else 0) + (if vend rng < vend (m_range r) then 1 else 0))"
      by (rule replace_region_ok [OF Cons.prems(1) r(1,2) assms(4) r(3) False])
    have take: "take_region r s = (Inr r, ?s)" by (rule take_region_eq [OF Cons.prems(1) r(1)])
    from s1(7) show ?thesis
    proof (elim disjE exE conjE)
      assume "res1 = Inl (Errno ENOMEM)"
      then have "unmap_regions env rng (r # olds) s = (Inl (Errno ENOMEM), s1)" using c(1) full False take s1(1) by simp
      then show ?thesis using s1(2-6)
        by (intro exI [of _ "Inl (Errno ENOMEM)"] exI [of _ s1] exI [of _ "addresses (m_range r) - D"]) auto
    next
      fix ks
      assume ks: "res1 = Inr ks" "D = addresses (m_range r) - addresses rng" "set ks \<subseteq> parts s1 r"
      have "set olds \<subseteq> set (regions s1)" using Cons.prems(2,3) s1(4) by auto
      from Cons.IH [OF s1(2) this] Cons.prems(3,4) obtain res s' G where IH: "unmap_regions env rng olds s1 = (res, s')" "space_inv env s'"
        "same_frame s1 s'" "set (regions s1) - set olds \<subseteq> set (regions s')" "G \<subseteq> (\<Union>r \<in> set olds. addresses (m_range r))"
        "view (regions s') = view (regions s1) |` (- G)"
        "res = Inl (Errno ENOMEM) \<or> (\<exists>ks. res = Inr ks \<and> G = addresses rng \<inter> (\<Union>r \<in> set olds. addresses (m_range r)) \<and>
           set ks \<subseteq> vaddr ` set (regions s'))" by auto
      have "q \<notin> set olds" if "q \<in> set (regions s1)" "addresses (m_range q) \<subseteq> addresses (m_range r)" for q
      proof
        assume q: "q \<in> set olds"
        then have "q \<in> set (regions s)" "q \<noteq> r" using Cons.prems(2,3) by auto
        moreover have "vaddr q \<in> addresses (m_range q)" using space_region(1) [OF s1(2) that(1)] proper_less by (simp add: addresses_vend)
        ultimately show False using regions_ok_unique [OF space_regions_ok [OF Cons.prems(1)] _ r(1)] that(2) by blast
      qed
      then have "set ks \<subseteq> vaddr ` set (regions s')" using ks(3) IH(4) by blast
      moreover have "unmap_regions env rng (r # olds) s = (tryE res (\<lambda>new. Inr (ks @ new)), s')"
        using c(1) full False take s1(1) ks(1) IH(1) by (cases res) simp_all
      moreover have "view (regions s') = view (regions s) |` (- (addresses (m_range r) \<inter> addresses rng \<union> G))"
        using IH(6) s1(6) ks(2) by (auto simp: fun_eq_iff restrict_map_def)
      moreover have "same_frame s s'" using IH(3) s1(3) same_frame_trans by blast
      ultimately show ?thesis using IH(2,4,5,7) s1(4)
        by (intro exI [of _ "tryE res (\<lambda>new. Inr (ks @ new))"] exI [of _ s'] exI [of _ "addresses (m_range r) \<inter> addresses rng \<union> G"]) auto
    qed
  qed
qed

section \<open>Finding regions\<close>

abbreviation overlapping :: "virtual_range \<Rightarrow> region \<Rightarrow> bool" where
  "overlapping rng r \<equiv> addresses (m_range r) \<inter> addresses rng \<noteq> {}"

text \<open>The regions collected are the first of those that overlap the range, not always all of them.\<close>

lemma collect_intersecting_ok:
  assumes "\<forall>r \<in> set rs. proper (m_range r)" "proper rng"
  shows "\<exists>k. collect_intersecting env rng n rs = Inl (Errno ENOMEM) \<or>
    collect_intersecting env rng n rs = Inr (take k (filter (overlapping rng) rs))"
  using assms(1)
proof (induction rs arbitrary: n)
  case (Cons r rs)
  have pr: "proper (m_range r)" using Cons.prems by simp
  have o: "vaddr r < vend rng \<and> vend (m_range r) > vbase rng \<longleftrightarrow> overlapping rng r"
    using addresses_disjoint_iff [OF pr assms(2)] by auto
  show ?case
  proof (cases "overlapping rng r")
    case False
    then have "\<not> (vaddr r < vend rng \<and> vend (m_range r) > vbase rng)" using o by simp
    then have "collect_intersecting env rng n (r # rs) = collect_intersecting env rng n rs" by (simp only: collect_intersecting.simps if_False)
    then show ?thesis using Cons False by simp
  next
    case True
    obtain c where c: "intersect (m_range r) rng = Inr c" by (rule intersect_ok [OF pr assms(2) True])
    define m where "m = size_add n (size_sub (vsize (m_range r)) (vsize c))"
    obtain k where k: "collect_intersecting env rng m rs = Inl (Errno ENOMEM) \<or>
      collect_intersecting env rng m rs = Inr (take k (filter (overlapping rng) rs))" using Cons by auto
    have eq: "collect_intersecting env rng n (r # rs) = (if \<not> vector_memory env then Inl (Errno ENOMEM)
      else if m = vsize rng then Inr [r] else tryE (collect_intersecting env rng m rs) (\<lambda>found. Inr (r # found)))"
      using True o c by (simp add: m_def Let_def)
    show ?thesis
    proof (cases "vector_memory env \<and> m = vsize rng")
      case True then show ?thesis using eq \<open>overlapping rng r\<close> by (intro exI [of _ 1]) simp
    next
      case False then show ?thesis using eq \<open>overlapping rng r\<close> k by (intro exI [of _ "Suc k"]) auto
    qed
  qed
qed simp

lemma find_regions_intersecting_ok:
  assumes "space_inv env s" "proper rng"
  shows "find_regions_intersecting env s rng = Inl (Errno ENOMEM) \<or>
    (\<exists>rs. find_regions_intersecting env s rng = Inr rs \<and> set rs \<subseteq> {r \<in> set (regions s). overlapping rng r} \<and> distinct rs)"
proof (cases "find_largest_not_above (regions s) (vbase rng)")
  case (Some q)
  define rs where "rs = dropWhile (\<lambda>r. r \<noteq> q) (regions s)"
  have sub: "set rs \<subseteq> set (regions s)" "distinct rs"
    using regions_ok_distinct [OF space_regions_ok [OF assms(1)]] set_dropWhileD by (auto simp: rs_def distinct_dropWhile)
  then have "\<forall>r \<in> set rs. proper (m_range r)" using space_region(1) [OF assms(1)] by blast
  from collect_intersecting_ok [OF this assms(2), of env 0] obtain k where
    k: "collect_intersecting env rng 0 rs = Inl (Errno ENOMEM) \<or> collect_intersecting env rng 0 rs = Inr (take k (filter (overlapping rng) rs))"
    by blast
  have "set (take k (filter (overlapping rng) rs)) \<subseteq> {r \<in> set (regions s). overlapping rng r}"
    using sub(1) set_take_subset [of k "filter (overlapping rng) rs"] by auto
  then show ?thesis using k sub(2) Some by (auto simp: find_regions_intersecting_def rs_def)
qed (simp add: find_regions_intersecting_def)

lemma find_region_from_range_Some:
  assumes "space_inv env s" "proper rng"
  shows "find_region_from_range s rng = Some r \<longleftrightarrow> r \<in> set (regions s) \<and> m_range r = rng"
proof -
  have "vsize rng < 2 ^ 64" "PAGE_SIZE dvd vsize rng" using assms(2) by (auto simp: proper_def)
  then have "page_round_up (vsize rng) = Inr (vsize rng)" using page_round_up_aligned by blast
  then have eq: "find_region_from_range s rng = (case find_region (regions s) (vbase rng) of None \<Rightarrow> None
      | Some r \<Rightarrow> if m_range r = rng then Some r else None)"
  proof (cases "find_region (regions s) (vbase rng)")
    case (Some q)
    then have "vaddr q = vbase rng" using find_region_Some [OF space_regions_ok [OF assms(1)]] by blast
    then have "vsize rng = vsize (m_range q) \<longleftrightarrow> m_range q = rng" by auto
    then show ?thesis using Some \<open>page_round_up (vsize rng) = Inr (vsize rng)\<close> by (simp add: find_region_from_range_def)
  qed (simp add: find_region_from_range_def)
  show ?thesis
  proof
    assume "r \<in> set (regions s) \<and> m_range r = rng"
    moreover from this have "find_region (regions s) (vbase rng) = Some r"
      using find_region_Some [OF space_regions_ok [OF assms(1)], of "vbase rng" r] by simp
    ultimately show "find_region_from_range s rng = Some r" using eq by simp
  next
    assume "find_region_from_range s rng = Some r"
    then have "find_region (regions s) (vbase rng) = Some r" "m_range r = rng" by (auto simp: eq split: option.splits if_splits)
    then show "r \<in> set (regions s) \<and> m_range r = rng" using find_region_Some [OF space_regions_ok [OF assms(1)]] by blast
  qed
qed

lemma find_containing_Some:
  assumes "space_inv env s" "proper rng"
  shows "find_region_containing (m_region_tree s) rng = Some r \<longleftrightarrow> r \<in> set (regions s) \<and> addresses rng \<subseteq> addresses (m_range r)"
  using find_region_containing_Some [OF _ assms(2)] assms(1) by (simp add: space_inv_def)

lemma expand_ok:
  assumes "addr < 2 ^ 64" "n < 2 ^ 64"
  obtains "expand_to_page_boundaries addr n = Inl (Errno EINVAL)"
  | rng where "expand_to_page_boundaries addr n = Inr rng" "{addr..<addr + n} \<subseteq> addresses rng"
    "vbase rng = page_round_down addr" "addr + n \<le> vbase rng + vsize rng" "vbase rng + vsize rng < addr + n + PAGE_SIZE"
    "0 < n \<Longrightarrow> proper rng"
proof (cases "addr + n < 2 ^ 64")
  case False
  then show ?thesis using that(1) size_add_wraps [OF False assms] by (simp add: expand_to_page_boundaries_def)
next
  case True
  then have sa: "size_add addr n = addr + n" by (rule size_add_eq)
  note b = page_round_down_ok [of addr]
  show ?thesis
  proof (cases "addr + n" rule: page_round_up_cases)
    case 1 then show ?thesis using that(1) sa by (simp add: expand_to_page_boundaries_def)
  next
    case (2 e)
    have lt: "page_round_down addr \<le> e" "e < 2 ^ 64"
      using 2 b(2) True page_round_up_cases [of "addr + n"] by (auto simp: page_round_up_def split: if_splits)
    let ?r = "\<lparr>vbase = page_round_down addr, vsize = e - page_round_down addr\<rparr>"
    have eq: "expand_to_page_boundaries addr n = Inr ?r" using sa 2 lt by (simp add: expand_to_page_boundaries_def size_sub_eq Let_def)
    moreover have "0 < n \<Longrightarrow> proper ?r" using b 2 lt by (auto simp: proper_def intro: dvd_diff_nat)
    moreover have "{addr..<addr + n} \<subseteq> addresses ?r" using b 2 lt by (auto simp: addresses_def)
    ultimately show ?thesis using that(2) [of ?r] 2 lt by simp
  qed
qed

section \<open>Unmapping\<close>

lemma vbase_mem: "proper r \<Longrightarrow> vbase r \<in> addresses r"
  using proper_less [of r] by (simp add: addresses_vend)

lemma addresses_inj: "proper r \<Longrightarrow> proper q \<Longrightarrow> addresses r = addresses q \<Longrightarrow> r = q"
  using addresses_subset_iff [of r q] addresses_subset_iff [of q r] by (cases r; cases q) (auto simp: vend_eq)

text \<open>What an unmapping comes to: the pages of a set \<open>G\<close>, all mapped by \<^verbatim>\<open>mmap\<close> and none immutable, are gone and
  nothing else changes.\<close>

definition unmapped :: "vm_env \<Rightarrow> address_space \<Rightarrow> address_space \<Rightarrow> nat set \<Rightarrow> bool" where
  "unmapped env s s' G \<longleftrightarrow> space_inv env s' \<and> same_frame s s' \<and> view (regions s') = view (regions s) |` (- G) \<and>
     (\<forall>a \<in> G. \<forall>p. view (regions s) a = Some p \<longrightarrow> m_mmap p \<and> \<not> m_immutable p)"

lemma page_of_flags [simp]: "m_mmap (page_of r a) = m_mmap r" "m_immutable (page_of r a) = m_immutable r" "m_access (page_of r a) = m_access r"
  by (simp_all add: page_of_def)

lemma page_flags:
  assumes "space_inv env s" "\<forall>r \<in> set rs. r \<in> set (regions s) \<and> m_mmap r \<and> \<not> m_immutable r" "G \<subseteq> (\<Union>r \<in> set rs. addresses (m_range r))"
  shows "\<forall>a \<in> G. \<forall>p. view (regions s) a = Some p \<longrightarrow> m_mmap p \<and> \<not> m_immutable p"
proof (intro ballI allI impI)
  fix a p
  assume "a \<in> G" "view (regions s) a = Some p"
  moreover obtain r where "r \<in> set rs" "a \<in> addresses (m_range r)" using assms(3) \<open>a \<in> G\<close> by blast
  ultimately show "m_mmap p \<and> \<not> m_immutable p" using view_mem [OF space_regions_ok [OF assms(1)], of r a] assms(2) by auto
qed

lemma unmap_part_ok:
  assumes "space_inv env s" "r \<in> set (regions s)" "m_mmap r" "\<not> m_immutable r"
    and "proper rng" "addresses rng \<subseteq> addresses (m_range r)" "m_range r \<noteq> rng"
  shows "\<exists>res s' G. tryS (take_region r s) (\<lambda>region s. tryS (try_split_region_around_range env region rng s) (\<lambda>new_regions s.
      map_regions env new_regions s)) = (res, s') \<and> unmapped env s s' G \<and>
    (res = Inl (Errno ENOMEM) \<or> res = Inr () \<and> G = addresses rng)"
proof -
  note pr = space_region(1) [OF assms(1,2)]
  have o: "addresses (m_range r) \<inter> addresses rng \<noteq> {}" using assms(6) vbase_mem [OF assms(5)] by blast
  have nsub: "\<not> addresses (m_range r) \<subseteq> addresses rng" using addresses_inj [OF pr assms(5)] assms(6,7) by blast
  let ?s = "with_regions (remove_region (vaddr r)) s"
  obtain res1 s1 D where s1: "try_split_region_around_range env r rng ?s = (res1, s1)" "space_inv env s1" "same_frame s s1"
    "set (regions s) - {r} \<subseteq> set (regions s1)" "D \<subseteq> addresses (m_range r) - addresses rng"
    "view (regions s1) = view (regions s) |` (- (addresses (m_range r) - D))"
    "res1 = Inl (Errno ENOMEM) \<or> (\<exists>ks. res1 = Inr ks \<and> D = addresses (m_range r) - addresses rng \<and>
       set ks \<subseteq> parts s1 r \<and>
       length ks = (if vbase rng > vaddr r then 1 else 0) + (if vend rng < vend (m_range r) then 1 else 0))"
    by (rule replace_region_ok [OF assms(1,2,4,5) o nsub])
  have flags: "\<forall>a \<in> addresses (m_range r) - D. \<forall>p. view (regions s) a = Some p \<longrightarrow> m_mmap p \<and> \<not> m_immutable p"
    by (rule page_flags [OF assms(1), of "[r]"]) (use assms(2-4) in auto)
  have take: "take_region r s = (Inr r, ?s)" by (rule take_region_eq [OF assms(1,2)])
  from s1(7) show ?thesis
  proof (elim disjE exE conjE)
    assume "res1 = Inl (Errno ENOMEM)"
    then show ?thesis using take s1(1-3,6) flags
      by (intro exI [of _ "Inl (Errno ENOMEM)"] exI [of _ s1] exI [of _ "addresses (m_range r) - D"]) (simp add: unmapped_def)
  next
    fix ks
    assume ks: "res1 = Inr ks" "D = addresses (m_range r) - addresses rng" "set ks \<subseteq> parts s1 r"
    then have "set ks \<subseteq> vaddr ` set (regions s1)" by blast
    from map_regions_ok [OF s1(2) this] obtain res s' where m: "map_regions env ks s1 = (res, s')"
      "res = Inr () \<or> res = Inl (Errno ENOMEM)" "space_inv env s'" "view (regions s') = view (regions s1)"
      "vaddr ` set (regions s') = vaddr ` set (regions s1)" "same_frame s1 s'"
      "{q \<in> set (regions s1). vaddr q \<notin> set ks} \<subseteq> set (regions s')" by (elim exE conjE) (rule that)
    moreover have G: "addresses (m_range r) - D = addresses rng" using ks(2) assms(6) by blast
    ultimately show ?thesis using take s1(1,6) ks(1) flags same_frame_trans [OF s1(3)]
      by (intro exI [of _ res] exI [of _ s'] exI [of _ "addresses rng"]) (auto simp: unmapped_def)
  qed
qed

lemma unmap_several_ok:
  assumes "space_inv env s" "proper rng"
  shows "\<exists>res s' G. tryS (find_regions_intersecting env s rng, s) (\<lambda>old_regions s.
      if old_regions = [] then (Inr (), s)
      else if \<exists>r \<in> set old_regions. \<not> m_mmap r \<or> m_immutable r then (Inl (Errno EPERM), s)
      else tryS (unmap_regions env rng old_regions s) (\<lambda>new_regions s. map_regions env new_regions s)) = (res, s') \<and> unmapped env s s' G \<and>
    (res = Inl (Errno ENOMEM) \<or> res = Inr () \<and> G \<subseteq> addresses rng \<or> res = Inl (Errno EPERM) \<and> s' = s)"
proof -
  have unchanged: "unmapped env s s {}" using assms(1) by (simp add: unmapped_def fun_eq_iff restrict_map_def)
  from find_regions_intersecting_ok [OF assms] show ?thesis
  proof (elim disjE exE conjE)
    assume "find_regions_intersecting env s rng = Inl (Errno ENOMEM)"
    then show ?thesis using unchanged by (intro exI [of _ "Inl (Errno ENOMEM)"] exI [of _ s] exI [of _ "{}"]) simp
  next
    fix rs
    assume rs: "find_regions_intersecting env s rng = Inr rs" "set rs \<subseteq> {r \<in> set (regions s). overlapping rng r}" "distinct rs"
    show ?thesis
    proof (cases "rs \<noteq> [] \<and> (\<forall>r \<in> set rs. m_mmap r \<and> \<not> m_immutable r)")
      case False
      show ?thesis
      proof (cases "rs = []")
        case True
        then show ?thesis using unchanged rs(1) by (intro exI [of _ "Inr ()"] exI [of _ s] exI [of _ "{}"]) simp
      next
        case ne: False
        then have "\<exists>r \<in> set rs. \<not> m_mmap r \<or> m_immutable r" using False by blast
        then show ?thesis using unchanged rs(1) ne by (intro exI [of _ "Inl (Errno EPERM)"] exI [of _ s] exI [of _ "{}"]) simp
      qed
    next
      case True
      have sub: "set rs \<subseteq> set (regions s)" "\<forall>r \<in> set rs. \<not> m_immutable r \<and> overlapping rng r" using rs(2) True by auto
      obtain res s1 G where u: "unmap_regions env rng rs s = (res, s1)" "space_inv env s1" "same_frame s s1"
        "set (regions s) - set rs \<subseteq> set (regions s1)" "G \<subseteq> (\<Union>r \<in> set rs. addresses (m_range r))" "view (regions s1) = view (regions s) |` (- G)"
        "res = Inl (Errno ENOMEM) \<or> (\<exists>ks. res = Inr ks \<and> G = addresses rng \<inter> (\<Union>r \<in> set rs. addresses (m_range r)) \<and>
          set ks \<subseteq> vaddr ` set (regions s1))"
        using unmap_regions_ok [OF assms(1) sub(1) rs(3) assms(2) sub(2)] by (elim exE conjE) (rule that)
      have flags: "\<forall>a \<in> G. \<forall>p. view (regions s) a = Some p \<longrightarrow> m_mmap p \<and> \<not> m_immutable p"
        by (rule page_flags [OF assms(1) _ u(5)]) (use sub(1) True in auto)
      have un: "unmapped env s s1 G" using u(2,3,6) flags by (simp add: unmapped_def)
      from u(7) show ?thesis
      proof (elim disjE exE conjE)
        assume "res = Inl (Errno ENOMEM)"
        then show ?thesis using rs(1) True u(1) un
          by (intro exI [of _ "Inl (Errno ENOMEM)"] exI [of _ s1] exI [of _ G]) auto
      next
        fix ks
        assume ks: "res = Inr ks" "G = addresses rng \<inter> (\<Union>r \<in> set rs. addresses (m_range r))" "set ks \<subseteq> vaddr ` set (regions s1)"
        obtain res' s' where m: "map_regions env ks s1 = (res', s')" "res' = Inr () \<or> res' = Inl (Errno ENOMEM)" "space_inv env s'"
          "view (regions s') = view (regions s1)" "vaddr ` set (regions s') = vaddr ` set (regions s1)" "same_frame s1 s'"
          "{q \<in> set (regions s1). vaddr q \<notin> set ks} \<subseteq> set (regions s')"
          using map_regions_ok [OF u(2) ks(3)] by (elim exE conjE) (rule that)
        have "unmapped env s s' G" using m(3,4,6) u(3,6) flags same_frame_trans [of s s1] by (simp add: unmapped_def)
        then show ?thesis using rs(1) True u(1) ks(1,2) m(1,2)
          by (intro exI [of _ res'] exI [of _ s'] exI [of _ G]) auto
      qed
    qed
  qed
qed

lemma unmap_mmap_range_ok:
  assumes "space_inv env s" "addr < 2 ^ 64" "n < 2 ^ 64"
  shows "\<exists>res s' G. unmap_mmap_range env addr n s = (res, s') \<and> unmapped env s s' G \<and>
    (res = Inr () \<and> (\<exists>rng. expand_to_page_boundaries addr n = Inr rng \<and> proper rng \<and> G \<subseteq> addresses rng \<and>
        ((\<exists>r \<in> set (regions s). addresses rng \<subseteq> addresses (m_range r)) \<longrightarrow> G = addresses rng))
     \<or> res = Inl (Errno ENOMEM) \<or> s' = s \<and> res \<in> {Inl (Errno EINVAL), Inl (Errno EFAULT), Inl (Errno EPERM)})"
proof -
  have unchanged: "unmapped env s s {}" using assms(1) by (simp add: unmapped_def fun_eq_iff restrict_map_def)
  have refused: ?thesis if "unmap_mmap_range env addr n s = (Inl e, s)" "e \<in> {Errno EINVAL, Errno EFAULT, Errno EPERM}" for e
    using that by (intro exI [of _ "Inl e"] exI [of _ s] exI [of _ "{}"]) (auto simp: unchanged)
  show ?thesis
  proof (cases "n = 0")
    case True then show ?thesis by (intro refused [of "Errno EINVAL"]) (simp_all add: unmap_mmap_range_def)
  next
    case False
    show ?thesis
    proof (cases rule: expand_ok [OF assms(2,3)])
      case 1 then show ?thesis using False by (intro refused [of "Errno EINVAL"]) (simp_all add: unmap_mmap_range_def)
    next
      case (2 rng)
      have rng: "proper rng" using 2(6) False by simp
      show ?thesis
      proof (cases "is_user_range (kernel_mapping_base env) (vbase rng) (vsize rng)")
        case u: False then show ?thesis using 2(1) False by (intro refused [of "Errno EFAULT"]) (simp_all add: unmap_mmap_range_def)
      next
        case u: True
        let ?rest = "tryS (find_regions_intersecting env s rng, s) (\<lambda>old_regions s.
            if old_regions = [] then (Inr (), s)
            else if \<exists>r \<in> set old_regions. \<not> m_mmap r \<or> m_immutable r then (Inl (Errno EPERM), s)
            else tryS (unmap_regions env rng old_regions s) (\<lambda>new_regions s. map_regions env new_regions s))"
        have unf: "unmap_mmap_range env addr n s = (case find_region_from_range s rng of
            Some r \<Rightarrow> if \<not> m_mmap r then (Inl (Errno EPERM), s) else if m_immutable r then (Inl (Errno EPERM), s) else deallocate_region r s
          | None \<Rightarrow> (case find_region_containing (m_region_tree s) rng of
              Some r \<Rightarrow> if \<not> m_mmap r then (Inl (Errno EPERM), s) else if m_immutable r then (Inl (Errno EPERM), s)
                else tryS (take_region r s) (\<lambda>region s. tryS (try_split_region_around_range env region rng s) (\<lambda>new_regions s.
                  map_regions env new_regions s))
            | None \<Rightarrow> ?rest))"
          using False 2(1) u by (simp add: unmap_mmap_range_def)
        have success: ?thesis if "unmap_mmap_range env addr n s = (res, s')" "unmapped env s s' G" "G \<subseteq> addresses rng"
          "(\<exists>r \<in> set (regions s). addresses rng \<subseteq> addresses (m_range r)) \<longrightarrow> G = addresses rng" "res = Inr ()" for res s' G
          using that 2(1) rng by (intro exI [of _ "Inr ()"] exI [of _ s'] exI [of _ G]) simp
        have nomem: ?thesis if "unmap_mmap_range env addr n s = (Inl (Errno ENOMEM), s')" "unmapped env s s' G" for s' G
          using that by (intro exI [of _ "Inl (Errno ENOMEM)"] exI [of _ s'] exI [of _ G]) simp
        consider (whole) r where "find_region_from_range s rng = Some r"
          | (part) r where "find_region_from_range s rng = None" "find_region_containing (m_region_tree s) rng = Some r"
          | (several) "find_region_from_range s rng = None" "find_region_containing (m_region_tree s) rng = None" by fastforce
        then show ?thesis
        proof cases
          case whole
          have r: "r \<in> set (regions s)" "m_range r = rng" using find_region_from_range_Some [OF assms(1) rng, of r] whole by simp_all
          show ?thesis
          proof (cases "m_mmap r \<and> \<not> m_immutable r")
            case True
            let ?s = "with_regions (remove_region (vaddr r)) s"
            have "unmapped env s ?s (addresses rng)"
              unfolding unmapped_def using space_remove [OF assms(1)] view_taken [OF assms(1) r(1)] page_flags [OF assms(1), of "[r]" "addresses rng"] True r
              by simp
            moreover have "unmap_mmap_range env addr n s = (Inr (), ?s)"
              unfolding unf using whole True take_region_eq [OF assms(1) r(1)] by (simp add: deallocate_region_def)
            ultimately show ?thesis using success by blast
          next
            case False
            then have "unmap_mmap_range env addr n s = (Inl (Errno EPERM), s)" unfolding unf using whole by auto
            then show ?thesis by (rule refused) simp
          qed
        next
          case part
          have r: "r \<in> set (regions s)" "addresses rng \<subseteq> addresses (m_range r)" "m_range r \<noteq> rng"
            using find_containing_Some [OF assms(1) rng] find_region_from_range_Some [OF assms(1) rng, of r] part by auto
          show ?thesis
          proof (cases "m_mmap r \<and> \<not> m_immutable r")
            case True
            then have "m_mmap r" "\<not> m_immutable r" by simp_all
            from unmap_part_ok [OF assms(1) r(1) this rng r(2,3)] obtain res s' G where
              p: "tryS (take_region r s) (\<lambda>region s. tryS (try_split_region_around_range env region rng s) (\<lambda>new_regions s.
                map_regions env new_regions s)) = (res, s')" "unmapped env s s' G" "res = Inl (Errno ENOMEM) \<or> res = Inr () \<and> G = addresses rng"
              by (elim exE conjE) (rule that)
            have "unmap_mmap_range env addr n s = (res, s')" unfolding unf using part True p(1) by simp
            then show ?thesis using p(2,3) success nomem by blast
          next
            case False
            then have "unmap_mmap_range env addr n s = (Inl (Errno EPERM), s)" unfolding unf using part by auto
            then show ?thesis by (rule refused) simp
          qed
        next
          case several
          then have none: "\<not> (\<exists>r \<in> set (regions s). addresses rng \<subseteq> addresses (m_range r))" using find_containing_Some [OF assms(1) rng] by force
          have eq: "unmap_mmap_range env addr n s = ?rest" unfolding unf using several by simp
          obtain res s' G where s': "?rest = (res, s')" "unmapped env s s' G"
            "res = Inl (Errno ENOMEM) \<or> res = Inr () \<and> G \<subseteq> addresses rng \<or> res = Inl (Errno EPERM) \<and> s' = s"
            using unmap_several_ok [OF assms(1) rng] by (elim exE conjE) (rule that)
          have op: "unmap_mmap_range env addr n s = (res, s')" using eq s'(1) by simp
          from s'(3) show ?thesis
          proof (elim disjE conjE)
            assume "res = Inl (Errno ENOMEM)" then show ?thesis using nomem [of s' G] op s'(2) by simp
          next
            assume "res = Inr ()" "G \<subseteq> addresses rng" then show ?thesis using success [OF op s'(2)] none by blast
          next
            assume "res = Inl (Errno EPERM)" "s' = s" then show ?thesis using refused [of "Errno EPERM"] op by simp
          qed
        qed
      qed
    qed
  qed
qed

end
