(* ===== verification/Mmap_Facts.thy ===== *)
theory Mmap_Facts
  imports Mmap Address_Space_Facts
begin

text \<open>
  The system calls on the address space: what each does to the pages of the process, that none of them panics,
  that no page is ever writable and executable at once, and that an immutable mapping stays as it is.
\<close>

section \<open>Access bits\<close>

lemma word_bits_eq: "a = b \<longleftrightarrow> (\<forall>n. bit a n = bit b n)" for a b :: "'a::len word"
  by (auto intro: bit_eqI)

lemma access_flags_ok: "prot_to_region_access_flags prot AND 7 = prot_to_region_access_flags prot"
  by (auto simp: prot_to_region_access_flags_def Let_def)

lemma and_bit: "a AND push_bit n 1 = (if bit a n then push_bit n 1 else 0)" for a :: "'a::len word"
  by (rule bit_eqI) (auto simp: bit_simps)

lemma and_bits: "a AND 1 = (if bit a 0 then 1 else 0)" "a AND 2 = (if bit a 1 then 2 else 0)" "a AND 4 = (if bit a 2 then 4 else 0)"
  for a :: "'a::len word"
  using and_bit [of a 0] and_bit [of a 1] and_bit [of a 2] by (simp_all add: push_bit_eq_mult)

lemma prot_has_iff: "prot_has prot PROT_READ \<longleftrightarrow> prot AND PROT_READ = PROT_READ"
  "prot_has prot PROT_WRITE \<longleftrightarrow> prot AND PROT_WRITE = PROT_WRITE" "prot_has prot PROT_EXEC \<longleftrightarrow> prot AND PROT_EXEC = PROT_EXEC"
  by (simp_all add: prot_has_def and_bits)

text \<open>The three setters leave the bits of the protection, whatever the access was.\<close>

lemma low_bits: "a AND 7 = (a :: u8) \<longleftrightarrow> (\<forall>n. bit a n \<longrightarrow> n < 3)"
proof -
  have "7 = (mask 3 :: u8)" by (simp add: mask_eq_exp_minus_1)
  then show ?thesis by (auto simp: word_bits_eq bit_simps)
qed

lemma bits_of_bits: "bit (1 :: u8) n \<longleftrightarrow> n = 0" "bit (2 :: u8) n \<longleftrightarrow> n = 1" "bit (4 :: u8) n \<longleftrightarrow> n = 2"
proof -
  have "(1 :: u8) = push_bit 0 1" "(2 :: u8) = push_bit 1 1" "(4 :: u8) = push_bit 2 1" by simp_all
  then show "bit (1 :: u8) n \<longleftrightarrow> n = 0" "bit (2 :: u8) n \<longleftrightarrow> n = 1" "bit (4 :: u8) n \<longleftrightarrow> n = 2"
    by (simp_all only: bit_push_bit_iff) (auto simp: bit_simps)
qed

lemma low_or: "a AND 7 = a \<Longrightarrow> b AND 7 = b \<Longrightarrow> (a OR b) AND 7 = a OR (b :: u8)"
  by (metis bit.conj_disj_distrib2)

lemma low_and: "a AND 7 = a \<Longrightarrow> (a AND b) AND 7 = a AND (b :: u8)"
  by (metis and.assoc and.commute)

lemma set_prot_low: "m_access r AND 7 = m_access r \<Longrightarrow> m_access (set_prot prot r) AND 7 = m_access (set_prot prot r)"
  unfolding set_prot_def set_readable_def set_writable_def set_executable_def set_access_bit_def Let_def
  by (cases "prot_has prot PROT_READ"; cases "prot_has prot PROT_WRITE"; cases "prot_has prot PROT_EXEC")
    (simp_all add: low_or low_and)

lemma set_prot_access:
  assumes "m_access r AND 7 = m_access r"
  shows "m_access (set_prot prot r) = prot_to_region_access_flags prot"
proof -
  have "bit (m_access (set_prot prot r)) n = bit (prot_to_region_access_flags prot) n" for n
  proof (cases "n < 3")
    case True
    then have "n = 0 \<or> n = 1 \<or> n = 2" by linarith
    then show ?thesis
      by (elim disjE) (simp_all add: set_prot_def set_readable_def set_writable_def set_executable_def set_access_bit_def Let_def
        prot_to_region_access_flags_def prot_has_iff bit_simps bits_of_bits)
  next
    case False
    then show ?thesis using set_prot_low [OF assms] access_flags_ok [of prot] low_bits by blast
  qed
  then show ?thesis by (simp add: word_bits_eq)
qed

lemma writable_iff: "is_writable r \<longleftrightarrow> bit (m_access r) 1" "is_executable r \<longleftrightarrow> bit (m_access r) 2" "is_readable r \<longleftrightarrow> bit (m_access r) 0"
  by (simp_all add: is_writable_def is_executable_def is_readable_def and_bits)

lemma flags_bits:
  "bit (prot_to_region_access_flags prot) 1 \<longleftrightarrow> prot_has prot PROT_WRITE"
  "bit (prot_to_region_access_flags prot) 2 \<longleftrightarrow> prot_has prot PROT_EXEC"
  "bit (prot_to_region_access_flags prot) 0 \<longleftrightarrow> prot_has prot PROT_READ"
  by (auto simp: prot_to_region_access_flags_def prot_has_iff Let_def bit_simps bits_of_bits)

section \<open>Changing the protection\<close>

text \<open>A page with another protection, and the two ways the pages can end up: all pages of a set have the new
  protection and nothing else changes; or, when the kernel runs out of memory on the way, pages of the regions
  involved may also be lost.\<close>

abbreviation with_access :: "u8 \<Rightarrow> region option \<Rightarrow> region option" where
  "with_access fl \<equiv> map_option (\<lambda>p. p\<lparr>m_access := fl\<rparr>)"

definition reprotected :: "address_space \<Rightarrow> address_space \<Rightarrow> nat set \<Rightarrow> u8 \<Rightarrow> bool" where
  "reprotected s s' A fl \<longleftrightarrow>
     (\<forall>a. view (regions s') a = (if a \<in> A then with_access fl (view (regions s) a) else view (regions s) a))"

definition degraded :: "address_space \<Rightarrow> address_space \<Rightarrow> nat set \<Rightarrow> nat set \<Rightarrow> u8 \<Rightarrow> bool" where
  "degraded s s' R A fl \<longleftrightarrow> (\<forall>a. (a \<notin> R \<longrightarrow> view (regions s') a = view (regions s) a) \<and>
     (view (regions s') a = None \<or> view (regions s') a = view (regions s) a \<or>
      a \<in> A \<and> view (regions s') a = with_access fl (view (regions s) a)))"

definition well_supplied :: "vm_env \<Rightarrow> region list \<Rightarrow> bool" where
  "well_supplied env rs \<longleftrightarrow> (\<forall>a. pte_available env a) \<and> (\<forall>r \<in> set rs. m_page_directory r)"

lemma reprotected_degraded: "reprotected s s' A fl \<Longrightarrow> A \<subseteq> R \<Longrightarrow> degraded s s' R A fl"
  unfolding reprotected_def degraded_def by (metis in_mono)

lemma reprotected_refl: "reprotected s s {} fl"
  by (simp add: reprotected_def)

lemma reprotected_trans:
  assumes "reprotected s t A fl" "reprotected t u B fl"
  shows "reprotected s u (A \<union> B) fl"
proof -
  have "with_access fl (with_access fl x) = with_access fl x" for x by (cases x) simp_all
  then show ?thesis using assms by (auto simp: reprotected_def)
qed

lemma reprotected_degraded_trans:
  assumes "reprotected s t A fl" "degraded t u R B fl" "A \<subseteq> R"
  shows "degraded s u R (A \<union> B) fl"
proof -
  have w: "with_access fl (with_access fl x) = with_access fl x" for x by (cases x) simp_all
  show ?thesis unfolding degraded_def
  proof (intro allI conjI impI)
    fix a
    have t: "view (regions t) a = (if a \<in> A then with_access fl (view (regions s) a) else view (regions s) a)"
      using assms(1) by (simp add: reprotected_def)
    have u: "a \<notin> R \<longrightarrow> view (regions u) a = view (regions t) a" "view (regions u) a = None \<or> view (regions u) a = view (regions t) a \<or>
      a \<in> B \<and> view (regions u) a = with_access fl (view (regions t) a)" using assms(2) by (simp_all add: degraded_def)
    show "view (regions u) a = view (regions s) a" if "a \<notin> R" using that t u(1) assms(3) by auto
    show "view (regions u) a = None \<or> view (regions u) a = view (regions s) a \<or>
      a \<in> A \<union> B \<and> view (regions u) a = with_access fl (view (regions s) a)" using t u(2) w by (auto split: if_splits)
  qed
qed

lemma degraded_mono: "degraded s s' R A fl \<Longrightarrow> R \<subseteq> R' \<Longrightarrow> A \<subseteq> A' \<Longrightarrow> degraded s s' R' A' fl"
  unfolding degraded_def by (meson subset_iff)

lemma set_prot_simps [simp]:
  "m_range (set_prot prot r) = m_range r" "m_page_directory (set_prot prot r) = m_page_directory r"
  "m_vmobject (set_prot prot r) = m_vmobject r" "m_shared (set_prot prot r) = m_shared r"
  "m_offset_in_vmobject (set_prot prot r) = m_offset_in_vmobject r"
  by (simp_all add: set_prot_def set_readable_def set_writable_def set_executable_def set_access_bit_def Let_def)

lemma page_of_set_prot:
  "region_ok r \<Longrightarrow> page_of (set_prot prot r) a = (page_of r a)\<lparr>m_access := prot_to_region_access_flags prot\<rparr>"
  using set_prot_access [of r prot]
  by (simp add: region_ok_def) (auto simp: page_of_def set_prot_def set_readable_def set_writable_def set_executable_def set_access_bit_def Let_def)

lemma region_ok_set_prot: "region_ok r \<Longrightarrow> region_ok (set_prot prot r)"
  using set_prot_low by (simp add: region_ok_def)

lemma Region_map_supplied:
  assumes "space_inv env s" "r \<in> set (regions s)" "\<forall>a. pte_available env a"
  shows "Region_map env r = Inr (attached r, True)"
proof -
  have m: "\<exists>b. map_pages env r is = Inr b \<Longrightarrow> map_pages env r is = Inr True" for "is"
    using assms(3) by (induction "is") (auto simp: tryE_def map_individual_page_impl_def Let_def verifyE_def split: sum.splits if_splits)
  have "vsize (m_range r) > 0" "PAGE_SIZE dvd vsize (m_range r)" using space_region(1) [OF assms(1,2)] by (simp_all add: proper_def)
  then have "page_count r > 0" by (auto simp: page_count_def dvd_def)
  moreover have "map_pages env r [0..<page_count r] = Inr True"
    using m [of "[0..<page_count r]"] map_pages_total [of r env "[0..<page_count r]"] space_region [OF assms(1,2)] by simp
  ultimately show ?thesis using Region_map_total [OF assms(1,2)] by (auto simp: Region_map_def attached_def verifyE_def split: if_splits)
qed

lemma updated_mem: "r \<in> set rs \<Longrightarrow> f r \<in> set (update_region (vaddr r) f rs)"
  by (force simp: update_region_def)

lemma updated_others:
  assumes "space_inv env s" "r \<in> set (regions s)" "q \<in> set (regions s)" "q \<noteq> r"
  shows "q \<in> set (regions (with_regions (update_region (vaddr r) f) s))"
  using regions_ok_key [OF space_regions_ok [OF assms(1)] assms(2,3)] assms(3,4) by (auto simp: update_region_def image_iff)

lemma view_reprotect:
  assumes "space_inv env s" "r \<in> set (regions s)"
  shows "reprotected s (with_regions (update_region (vaddr r) (set_prot prot)) s) (addresses (m_range r)) (prot_to_region_access_flags prot)"
  using view_update [OF space_regions_ok [OF assms(1)] assms(2), of "set_prot prot"] view_mem [OF space_regions_ok [OF assms(1)] assms(2)]
    page_of_set_prot [OF space_region(2) [OF assms]] by (simp add: reprotected_def)

lemma protect_whole_region_ok:
  assumes "space_inv env s" "r \<in> set (regions s)"
  shows "\<exists>res s'. protect_whole_region env prot r s = (res, s') \<and> space_inv env s' \<and> same_frame s s' \<and>
    reprotected s s' (addresses (m_range r)) (prot_to_region_access_flags prot) \<and> set (regions s) - {r} \<subseteq> set (regions s') \<and>
    (res = Inr () \<or> res = Inl Verification_failed \<and> \<not> well_supplied env [r])"
proof -
  let ?q = "set_prot prot r" and ?s = "with_regions (update_region (vaddr r) (set_prot prot)) s"
  have q: "?q \<in> set (regions ?s)" using updated_mem [OF assms(2)] by simp
  have inv: "space_inv env ?s" using space_update [OF assms] space_region(2) [OF assms] region_ok_set_prot by simp
  have view: "reprotected s ?s (addresses (m_range r)) (prot_to_region_access_flags prot)" by (rule view_reprotect [OF assms])
  have keep: "set (regions s) - {r} \<subseteq> set (regions ?s)" using updated_others [OF assms] by blast
  obtain b where b: "Region_map env ?q = Inr (attached ?q, b)" using Region_map_total [OF inv q] by (auto simp: attached_def)
  show ?thesis
  proof (cases "m_page_directory r \<and> b")
    case False
    then have "\<not> well_supplied env [r]"
      using Region_map_supplied [OF inv q] b assms(2) by (auto simp: well_supplied_def)
    moreover have "protect_whole_region env prot r s = (Inl Verification_failed, ?s)"
      using False b by (auto simp: protect_whole_region_def Region_remap_def verifyE_def)
    ultimately show ?thesis using inv view keep by (intro exI [of _ "Inl Verification_failed"] exI [of _ ?s]) simp
  next
    case True
    let ?t = "with_regions (update_region (vaddr ?q) (\<lambda>_. attached ?q)) ?s"
    have "protect_whole_region env prot r s = (Inr (), ?t)" using True b by (simp add: protect_whole_region_def Region_remap_def)
    moreover have "space_inv env ?t" using space_update [OF inv q] space_region(2) [OF inv q] by (simp del: set_prot_simps)
    moreover have "view (regions ?t) = view (regions ?s)"
      by (rule ext) (use view_update [OF space_regions_ok [OF inv] q, of "\<lambda>_. attached ?q"] view_mem [OF space_regions_ok [OF inv] q] in simp)
    moreover have "set (regions s) - {r} \<subseteq> set (regions ?t)"
    proof
      fix p assume p: "p \<in> set (regions s) - {r}"
      then have "p \<in> set (regions ?s)" "vaddr p \<noteq> vaddr r" using keep regions_ok_key [OF space_regions_ok [OF assms(1)] assms(2), of p] by auto
      then show "p \<in> set (regions ?t)" by (auto simp: update_region_def image_iff)
    qed
    moreover have "same_frame s ?t" by (rule same_frame_trans [OF same_frame_with same_frame_with])
    ultimately show ?thesis using view by (intro exI [of _ "Inr ()"] exI [of _ ?t]) (simp add: reprotected_def)
  qed
qed

lemma insert_protected_ok:
  fixes prot :: prot
  assumes "space_inv env s" "space_free s (m_range q)" "region_ok q" "set ks \<subseteq> vaddr ` set (regions s)"
  defines "s1 \<equiv> with_regions (update_region (vaddr q) (set_prot prot)) (with_regions (insert_region q) s)"
  shows "\<exists>res s'. tryS (map_regions env ks s1) (\<lambda>_ s. map_region env (vaddr q) s) = (res, s') \<and> space_inv env s' \<and> same_frame s s' \<and>
    (res = Inr () \<or> res = Inl (Errno ENOMEM)) \<and> {p \<in> set (regions s). vaddr p \<notin> set ks \<and> vaddr p \<noteq> vaddr q} \<subseteq> set (regions s') \<and>
    (\<forall>a. view (regions s') a = (if a \<in> addresses (m_range q) then Some ((page_of q a)\<lparr>m_access := prot_to_region_access_flags prot\<rparr>)
       else view (regions s) a))"
proof -
  let ?t = "with_regions (insert_region q) s"
  have t: "space_inv env ?t" "q \<in> set (regions ?t)" using space_insert [OF assms(1-3)] by simp_all
  have q: "set_prot prot q \<in> set (regions s1)" using updated_mem [OF t(2), of "set_prot prot"] by (simp add: s1_def)
  have inv: "space_inv env s1" using space_update [OF t] region_ok_set_prot [OF assms(3)] by (simp add: s1_def)
  have view: "view (regions s1) a = (if a \<in> addresses (m_range q) then Some ((page_of q a)\<lparr>m_access := prot_to_region_access_flags prot\<rparr>)
       else view (regions s) a)" for a
    using view_update [OF space_regions_ok [OF t(1)] t(2), of "set_prot prot" a] page_of_set_prot [OF assms(3), of prot a]
      view_insert [OF space_regions_ok [OF assms(1)], of q a] assms(2) by (simp add: s1_def)
  have keys: "vaddr ` set (regions s1) = insert (vaddr q) (vaddr ` set (regions s))"
  proof -
    have "map vaddr (regions s1) = map vaddr (insert_region q (regions s))" by (simp add: s1_def update_region_def)
    then have "vaddr ` set (regions s1) = vaddr ` set (insert_region q (regions s))" by (metis set_map)
    then show ?thesis by simp
  qed
  have keep: "{p \<in> set (regions s). vaddr p \<noteq> vaddr q} \<subseteq> set (regions s1)" by (auto simp: s1_def update_region_def image_iff)
  have "set ks \<subseteq> vaddr ` set (regions s1)" using assms(4) keys by auto
  from map_regions_ok [OF inv this] obtain res s2 where s2: "map_regions env ks s1 = (res, s2)" "res = Inr () \<or> res = Inl (Errno ENOMEM)"
    "space_inv env s2" "view (regions s2) = view (regions s1)" "vaddr ` set (regions s2) = vaddr ` set (regions s1)" "same_frame s1 s2"
    "{p \<in> set (regions s1). vaddr p \<notin> set ks} \<subseteq> set (regions s2)" by (elim exE conjE) (rule that)
  have frame: "same_frame s s2" using s2(6) same_frame_trans [of s s1 s2] same_frame_trans [of s ?t s1] by (simp add: s1_def)
  have keep2: "{p \<in> set (regions s). vaddr p \<notin> set ks \<and> vaddr p \<noteq> vaddr q} \<subseteq> set (regions s2)" using keep s2(7) by auto
  from s2(2) show ?thesis
  proof
    assume "res = Inl (Errno ENOMEM)"
    then show ?thesis using s2(1,3,4) frame keep2 view by (intro exI [of _ "Inl (Errno ENOMEM)"] exI [of _ s2]) simp
  next
    assume r: "res = Inr ()"
    have "vaddr q \<in> vaddr ` set (regions s2)" using s2(5) keys by simp
    then obtain p where p: "p \<in> set (regions s2)" "vaddr p = vaddr q" by force
    from map_region_ok [OF s2(3) p(1)] obtain b s3 where s3: "map_region env (vaddr p) s2 = (if b then Inr () else Inl (Errno ENOMEM), s3)"
      "s3 = with_regions (update_region (vaddr p) (\<lambda>_. attached p)) s2" "space_inv env s3" "view (regions s3) = view (regions s2)"
      by (elim exE conjE) (rule that)
    have "{p \<in> set (regions s). vaddr p \<notin> set ks \<and> vaddr p \<noteq> vaddr q} \<subseteq> set (regions s3)"
      using keep2 s3(2) p(2) by (auto simp: update_region_def image_iff)
    moreover have "same_frame s s3" using frame same_frame_trans [of s s2 s3] s3(2) by simp
    moreover have "tryS (map_regions env ks s1) (\<lambda>_ s. map_region env (vaddr q) s) = (if b then Inr () else Inl (Errno ENOMEM), s3)"
      using s2(1) r s3(1) p(2) by simp
    ultimately show ?thesis using s3(3,4) s2(4) view
      by (intro exI [of _ "if b then Inr () else Inl (Errno ENOMEM)"] exI [of _ s3]) simp
  qed
qed

text \<open>The parts around the range keep their pages; the range gets a region of its own.\<close>

lemma protect_part_of_region_ok:
  assumes "space_inv env s" "r \<in> set (regions s)" "\<not> m_immutable r"
    and "proper rng" "addresses rng \<subseteq> addresses (m_range r)" "m_range r \<noteq> rng"
    and "single \<longrightarrow> vbase rng = vaddr r \<or> vend rng = vend (m_range r)"
  shows "\<exists>res s'. protect_part_of_region env prot r rng single s = (res, s') \<and> space_inv env s' \<and> same_frame s s' \<and>
    set (regions s) - {r} \<subseteq> set (regions s') \<and>
    (res = Inr () \<and> reprotected s s' (addresses rng) (prot_to_region_access_flags prot) \<or>
     res = Inl (Errno ENOMEM) \<and> degraded s s' (addresses (m_range r)) (addresses rng) (prot_to_region_access_flags prot))"
proof -
  let ?fl = "prot_to_region_access_flags prot"
  note pr = space_region(1,2) [OF assms(1,2)]
  have o: "addresses (m_range r) \<inter> addresses rng \<noteq> {}" using assms(5) vbase_mem [OF assms(4)] by blast
  have nsub: "\<not> addresses (m_range r) \<subseteq> addresses rng" using addresses_inj [OF pr(1) assms(4)] assms(5,6) by blast
  let ?s = "with_regions (remove_region (vaddr r)) s"
  obtain res1 s1 D where s1: "try_split_region_around_range env r rng ?s = (res1, s1)" "space_inv env s1" "same_frame s s1"
    "set (regions s) - {r} \<subseteq> set (regions s1)" "D \<subseteq> addresses (m_range r) - addresses rng"
    "view (regions s1) = view (regions s) |` (- (addresses (m_range r) - D))"
    "res1 = Inl (Errno ENOMEM) \<or> (\<exists>ks. res1 = Inr ks \<and> D = addresses (m_range r) - addresses rng \<and>
       set ks \<subseteq> parts s1 r \<and>
       length ks = (if vbase rng > vaddr r then 1 else 0) + (if vend rng < vend (m_range r) then 1 else 0))"
    by (rule replace_region_ok [OF assms(1-4) o nsub])
  have take: "take_region r s = (Inr r, ?s)" by (rule take_region_eq [OF assms(1,2)])
  have lost: "degraded s s1 (addresses (m_range r)) (addresses rng) ?fl" using s1(6) by (auto simp: degraded_def restrict_map_def)
  from s1(7) show ?thesis
  proof (elim disjE exE conjE)
    assume "res1 = Inl (Errno ENOMEM)"
    then show ?thesis using take s1(1-4) lost
      by (intro exI [of _ "Inl (Errno ENOMEM)"] exI [of _ s1]) (simp add: protect_part_of_region_def)
  next
    fix ks
    assume ks: "res1 = Inr ks" "D = addresses (m_range r) - addresses rng" "set ks \<subseteq> parts s1 r"
      "length ks = (if vbase rng > vaddr r then 1 else 0) + (if vend rng < vend (m_range r) then 1 else 0)"
    have bounds: "vaddr r \<le> vbase rng" "vend rng \<le> vend (m_range r)" using addresses_subset_iff [OF assms(4) pr(1)] assms(5) by auto
    have one: "single \<longrightarrow> length ks = 1"
    proof
      assume "single"
      moreover have "vbase rng \<noteq> vaddr r \<or> vend rng \<noteq> vend (m_range r)"
        using nsub bounds addresses_subset_iff [OF pr(1) assms(4)] by auto
      ultimately show "length ks = 1" using ks(4) bounds assms(7) by auto
    qed
    have free: "space_free s1 rng"
    proof -
      have "a \<notin> occupied (regions s1)" if "a \<in> addresses rng" for a
        using that s1(6) ks(2) assms(5) view_None [of "regions s1" a] by (auto simp: restrict_map_def)
      moreover have "space_free ?s rng" by (rule free_mono [OF free_taken [OF assms(1,2)] assms(4,5)])
      ultimately show ?thesis using s1(3) by (auto simp: free_range_def same_frame_def)
    qed
    let ?off = "size_add (m_offset_in_vmobject r) (size_sub (vbase rng) (vaddr r))"
    have eq: "protect_part_of_region env prot r rng single s = tryS (try_allocate_split_region env r rng ?off s1) (\<lambda>new_region s.
        let s = with_regions (update_region new_region (set_prot prot)) s
        in tryS (map_regions env ks s) (\<lambda>_ s. map_region env new_region s))"
      using take s1(1) ks(1) one by (auto simp: protect_part_of_region_def Let_def)
    from try_allocate_split_region_ok [OF s1(2) pr assms(4,5) free] show ?thesis
    proof (elim disjE)
      assume "try_allocate_split_region env r rng ?off s1 = (Inl (Errno ENOMEM), s1)"
      then show ?thesis using eq s1(2-4) lost by (intro exI [of _ "Inl (Errno ENOMEM)"] exI [of _ s1]) simp
    next
      assume new: "try_allocate_split_region env r rng ?off s1 = (Inr (vbase rng), with_regions (insert_region (split_of r rng)) s1)"
      let ?q = "split_of r rng"
      note q = split_of_ok [OF pr(1) assms(4,5) pr(2)]
      have "set ks \<subseteq> vaddr ` set (regions s1)" using ks(3) by blast
      from insert_protected_ok [OF s1(2) _ q(1) this] free q(2) obtain res s' where s':
        "tryS (map_regions env ks (with_regions (update_region (vaddr ?q) (set_prot prot)) (with_regions (insert_region ?q) s1)))
           (\<lambda>_ s. map_region env (vaddr ?q) s) = (res, s')" "space_inv env s'" "same_frame s1 s'"
        "res = Inr () \<or> res = Inl (Errno ENOMEM)" "{p \<in> set (regions s1). vaddr p \<notin> set ks \<and> vaddr p \<noteq> vaddr ?q} \<subseteq> set (regions s')"
        "\<forall>a. view (regions s') a = (if a \<in> addresses (m_range ?q) then Some ((page_of ?q a)\<lparr>m_access := ?fl\<rparr>) else view (regions s1) a)"
        by (metis (no_types, lifting))
      have "protect_part_of_region env prot r rng single s = (res, s')" using eq new s'(1) q(2) by simp
      moreover have "reprotected s s' (addresses rng) ?fl"
        using s'(6) q(2,3) s1(6) ks(2) assms(3,5) view_mem [OF space_regions_ok [OF assms(1)] assms(2)]
        by (auto simp: reprotected_def restrict_map_def)
      moreover have "set (regions s) - {r} \<subseteq> set (regions s')"
      proof
        fix p assume p: "p \<in> set (regions s) - {r}"
        have "vaddr p \<notin> addresses (m_range r)"
          using regions_ok_unique [OF space_regions_ok [OF assms(1)] _ assms(2)] p vbase_mem [OF space_region(1) [OF assms(1)]] by blast
        moreover have "vbase rng \<in> addresses (m_range r)" using vbase_mem [OF assms(4)] assms(5) by blast
        moreover have "set ks \<subseteq> addresses (m_range r)" using ks(3) vbase_mem [OF space_region(1) [OF s1(2)]] by blast
        ultimately show "p \<in> set (regions s')" using p s1(4) s'(5) q(2) by auto
      qed
      moreover have "same_frame s s'" using s1(3) s'(3) same_frame_trans by blast
      ultimately show ?thesis using s'(2,4) reprotected_degraded [of s s' "addresses rng" ?fl "addresses (m_range r)"] assms(5)
        by (intro exI [of _ res] exI [of _ s']) auto
    qed
  qed
qed

lemma protect_regions_ok:
  assumes "space_inv env s" "set olds \<subseteq> set (regions s)" "distinct olds" "proper rng"
    and "\<forall>r \<in> set olds. \<not> m_immutable r \<and> overlapping rng r \<and> \<not> addresses rng \<subseteq> addresses (m_range r)"
  shows "\<exists>res s'. protect_regions env prot rng olds s = (res, s') \<and> space_inv env s' \<and> same_frame s s' \<and>
    (res = Inr () \<and> reprotected s s' (addresses rng \<inter> (\<Union>r \<in> set olds. addresses (m_range r))) (prot_to_region_access_flags prot) \<or>
     (res = Inl (Errno ENOMEM) \<or> res = Inl Verification_failed \<and> \<not> well_supplied env olds) \<and>
       degraded s s' (\<Union>r \<in> set olds. addresses (m_range r)) (addresses rng) (prot_to_region_access_flags prot))"
  using assms(1-3,5)
proof (induction olds arbitrary: s)
  case Nil
  then show ?case using reprotected_refl [of s] by (intro exI [of _ "Inr ()"] exI [of _ s]) simp
next
  case (Cons r olds)
  let ?fl = "prot_to_region_access_flags prot" and ?C = "addresses (m_range r) \<inter> addresses rng"
  let ?R = "\<Union>r \<in> set (r # olds). addresses (m_range r)" and ?R' = "\<Union>r \<in> set olds. addresses (m_range r)"
  have r: "r \<in> set (regions s)" "\<not> m_immutable r" "overlapping rng r" "\<not> addresses rng \<subseteq> addresses (m_range r)" using Cons.prems by auto
  note pr = space_region(1) [OF Cons.prems(1) r(1)]
  define step where "step = (if m_access r = ?fl then (Inr (), s) else
      tryS (intersect rng (m_range r), s) (\<lambda>c s. if c = m_range r then protect_whole_region env prot r s
        else protect_part_of_region env prot r c True s))"
  have unf: "protect_regions env prot rng (r # olds) s = tryS step (\<lambda>_ s. protect_regions env prot rng olds s)"
    by (simp add: step_def tryS_def split: prod.splits sum.splits)
  have "\<exists>res s1. step = (res, s1) \<and> space_inv env s1 \<and> same_frame s s1 \<and> set (regions s) - {r} \<subseteq> set (regions s1) \<and>
    (res = Inr () \<and> reprotected s s1 ?C ?fl \<or>
     (res = Inl (Errno ENOMEM) \<or> res = Inl Verification_failed \<and> \<not> well_supplied env [r]) \<and> degraded s s1 (addresses (m_range r)) (addresses rng) ?fl)"
  proof (cases "m_access r = ?fl")
    case True
    have "reprotected s s ?C ?fl" unfolding reprotected_def
      using view_mem [OF space_regions_ok [OF Cons.prems(1)] r(1)] True by (auto simp: page_of_def)
    then show ?thesis using True Cons.prems(1) by (intro exI [of _ "Inr ()"] exI [of _ s]) (auto simp: step_def)
  next
    case False
    obtain c where c: "intersect rng (m_range r) = Inr c" "proper c" "addresses c = ?C"
      using intersect_ok [OF assms(4) pr] r(3) by (metis Int_commute)
    show ?thesis
    proof (cases "c = m_range r")
      case True
      then have C: "?C = addresses (m_range r)" using c(3) by simp
      show ?thesis using protect_whole_region_ok [OF Cons.prems(1) r(1), of prot] False True c(1) C
          reprotected_degraded [of s _ ?C ?fl "addresses (m_range r)"] degraded_mono [of s _ "addresses (m_range r)" ?C ?fl "addresses (m_range r)" "addresses rng"]
        by (fastforce simp: step_def)
    next
      case nw: False
      have "vbase c = vaddr r \<or> vend c = vend (m_range r)"
      proof (rule ccontr)
        assume "\<not> ?thesis"
        then have "vaddr r < vbase c" "vend c < vend (m_range r)"
          using addresses_subset_iff [OF c(2) pr] c(3) by auto
        moreover have ac: "{vbase c..<vend c} = {max (vaddr r) (vbase rng)..<min (vend (m_range r)) (vend rng)}"
          using c(3) by (auto simp: addresses_vend [OF pr] addresses_vend [OF assms(4)] addresses_vend [OF c(2)])
        have "vbase c \<in> {max (vaddr r) (vbase rng)..<min (vend (m_range r)) (vend rng)}" using ac proper_less [OF c(2)] by auto
        then have "vbase c = max (vaddr r) (vbase rng) \<and> vend c = min (vend (m_range r)) (vend rng)"
          using ac proper_less [OF c(2)] by (subst (asm) atLeastLessThan_eq_iff) auto
        ultimately have "vbase c = vbase rng" "vend c = vend rng" by (auto simp: max_def min_def split: if_splits)
        then have "addresses rng = addresses c" using addresses_vend [OF c(2)] addresses_vend [OF assms(4)] by simp
        then show False using c(3) r(4) by blast
      qed
      then show ?thesis
        using protect_part_of_region_ok [OF Cons.prems(1) r(1,2) c(2), of True prot] c(1,3) nw False
          degraded_mono [of s _ "addresses (m_range r)" ?C ?fl "addresses (m_range r)" "addresses rng"]
        by (fastforce simp: step_def)
    qed
  qed
  then obtain res1 s1 where s1: "step = (res1, s1)" "space_inv env s1" "same_frame s s1" "set (regions s) - {r} \<subseteq> set (regions s1)"
    "res1 = Inr () \<and> reprotected s s1 ?C ?fl \<or>
     (res1 = Inl (Errno ENOMEM) \<or> res1 = Inl Verification_failed \<and> \<not> well_supplied env [r]) \<and> degraded s s1 (addresses (m_range r)) (addresses rng) ?fl"
    by (elim exE conjE) (rule that)
  from s1(5) show ?case
  proof (elim disjE [of "_ \<and> reprotected _ _ _ _"] conjE)
    assume ok: "res1 = Inr ()" "reprotected s s1 ?C ?fl"
    have "set olds \<subseteq> set (regions s1)" using Cons.prems(2,3) s1(4) by auto
    from Cons.IH [OF s1(2) this] Cons.prems(3,4) obtain res s' where IH: "protect_regions env prot rng olds s1 = (res, s')"
      "space_inv env s'" "same_frame s1 s'" "res = Inr () \<and> reprotected s1 s' (addresses rng \<inter> ?R') ?fl \<or>
       (res = Inl (Errno ENOMEM) \<or> res = Inl Verification_failed \<and> \<not> well_supplied env olds) \<and> degraded s1 s' ?R' (addresses rng) ?fl"
      by auto
    have "?C \<union> (addresses rng \<inter> ?R') = addresses rng \<inter> ?R" by auto
    then have "reprotected s1 s' (addresses rng \<inter> ?R') ?fl \<Longrightarrow> reprotected s s' (addresses rng \<inter> ?R) ?fl"
      using reprotected_trans [OF ok(2)] by metis
    moreover have "degraded s1 s' ?R' (addresses rng) ?fl \<Longrightarrow> degraded s s' ?R (addresses rng) ?fl"
    proof -
      assume "degraded s1 s' ?R' (addresses rng) ?fl"
      then have "degraded s1 s' ?R (addresses rng) ?fl" by (rule degraded_mono) auto
      then have "degraded s s' ?R (?C \<union> addresses rng) ?fl" by (rule reprotected_degraded_trans [OF ok(2)]) auto
      then show ?thesis by (rule degraded_mono) auto
    qed
    ultimately show ?thesis using IH unf s1(1,3) ok(1) same_frame_trans [of s s1 s']
      by (intro exI [of _ res] exI [of _ s']) (auto simp: well_supplied_def)
  next
    assume f: "res1 = Inl (Errno ENOMEM) \<or> res1 = Inl Verification_failed \<and> \<not> well_supplied env [r]" "degraded s s1 (addresses (m_range r)) (addresses rng) ?fl"
    have "degraded s s1 ?R (addresses rng) ?fl" by (rule degraded_mono [OF f(2)]) auto
    then show ?thesis using f(1) unf s1(1-3)
      by (intro exI [of _ res1] exI [of _ s1]) (auto simp: well_supplied_def)
  qed
qed

lemma validate_errno: "validate_region_prot P prot r = Inl e \<Longrightarrow> \<exists>x. e = Errno x" "validate_region_inode_prot prot r = Inl e \<Longrightarrow> \<exists>x. e = Errno x"
  by (auto simp: validate_region_prot_def validate_mmap_prot_def validate_region_inode_prot_def validate_inode_mmap_prot_def Let_def
      split: if_splits option.splits)

lemma validate_flags: "validate_region_prot P prot r = Inr u \<Longrightarrow> m_mmap r \<and> \<not> m_immutable r"
  by (auto simp: validate_region_prot_def split: if_splits)

text \<open>The size the check finds is the number of addresses of the range inside the regions.\<close>

lemma check_regions_prot_ok:
  assumes "regions_ok lo hi all" "set rs \<subseteq> set all" "distinct rs" "proper rng" "\<forall>r \<in> set rs. overlapping rng r"
    and "n + card (addresses rng \<inter> (\<Union>r \<in> set rs. addresses (m_range r))) < 2 ^ 64"
  shows "(\<exists>e. check_regions_prot P prot rng n rs = Inl (Errno e)) \<or>
    check_regions_prot P prot rng n rs = Inr (n + card (addresses rng \<inter> (\<Union>r \<in> set rs. addresses (m_range r)))) \<and>
    (\<forall>r \<in> set rs. validate_region_prot P prot r = Inr ())"
  using assms(2,3,5,6)
proof (induction rs arbitrary: n)
  case (Cons r rs)
  let ?C = "addresses (m_range r) \<inter> addresses rng" and ?U = "addresses rng \<inter> (\<Union>r \<in> set rs. addresses (m_range r))"
  have r: "r \<in> set all" "overlapping rng r" "r \<notin> set rs" using Cons.prems by auto
  note pr = conjunct1 [OF regions_ok_memD [OF assms(1) r(1)]]
  obtain c where c: "intersect (m_range r) rng = Inr c" "proper c" "addresses c = ?C" by (rule intersect_ok [OF pr assms(4) r(2)])
  have disj: "?C \<inter> ?U = {}" using regions_ok_unique [OF assms(1) r(1)] Cons.prems(1) r(3) by auto
  have fin: "finite ?C" "finite ?U" by (simp_all add: addresses_def)
  have "addresses rng \<inter> (\<Union>r \<in> set (r # rs). addresses (m_range r)) = ?C \<union> ?U" by auto
  then have card: "card (addresses rng \<inter> (\<Union>r \<in> set (r # rs). addresses (m_range r))) = vsize c + card ?U"
    using card_Un_disjoint [OF fin disj] proper_card [of c] c(3) by simp
  have add: "size_add n (vsize c) = n + vsize c" using Cons.prems(4) card by (simp add: size_add_eq)
  have IH: "(\<exists>e. check_regions_prot P prot rng (n + vsize c) rs = Inl (Errno e)) \<or>
    check_regions_prot P prot rng (n + vsize c) rs = Inr (n + vsize c + card ?U) \<and> (\<forall>r \<in> set rs. validate_region_prot P prot r = Inr ())"
    using Cons.IH [of "n + vsize c"] Cons.prems card by simp
  show ?case
  proof (cases "validate_region_prot P prot r")
    case (Inl e) then show ?thesis using validate_errno(1) by auto
  next
    case v: (Inr u)
    show ?thesis
    proof (cases "validate_region_inode_prot prot r")
      case (Inl e) then show ?thesis using v validate_errno(2) by auto
    next
      case (Inr w)
      then have "check_regions_prot P prot rng n (r # rs) = check_regions_prot P prot rng (n + vsize c) rs" using v c(1) add by simp
      then show ?thesis using IH card v by auto
    qed
  qed
qed simp

text \<open>What \<^verbatim>\<open>mprotect\<close> does to the pages, in every outcome.\<close>

definition mprotect_outcome ::
  "vm_env \<Rightarrow> vm_process \<Rightarrow> virtual_range \<Rightarrow> prot \<Rightarrow> address_space \<Rightarrow> nat kresult \<Rightarrow> address_space \<Rightarrow> nat set \<Rightarrow> bool" where
  "mprotect_outcome env P rng prot s res s' R \<longleftrightarrow> space_inv env s' \<and> same_frame s s' \<and>
     degraded s s' R (addresses rng) (prot_to_region_access_flags prot) \<and>
     (\<forall>a \<in> R. \<forall>p. view (regions s) a = Some p \<longrightarrow> m_mmap p \<and> \<not> m_immutable p) \<and>
     (s' = s \<or> (\<exists>r \<in> set (regions s). validate_region_prot P prot r = Inr ())) \<and>
     (res = Inr 0 \<and> reprotected s s' (addresses rng) (prot_to_region_access_flags prot) \<and> addresses rng \<subseteq> occupied (regions s) \<or>
      (\<exists>e. res = Inl (Errno e) \<and> (e = ENOMEM \<or> s' = s)) \<or>
      res = Inl Verification_failed \<and> \<not> well_supplied env (regions s))"

lemma mprotect_refused: "space_inv env s \<Longrightarrow> mprotect_outcome env P rng prot s (Inl (Errno e)) s {}"
  by (simp add: mprotect_outcome_def degraded_def)

lemma mprotect_same:
  assumes "space_inv env s" "r \<in> set (regions s)" "addresses rng \<subseteq> addresses (m_range r)" "m_access r = prot_to_region_access_flags prot"
  shows "mprotect_outcome env P rng prot s (Inr 0) s {}"
proof -
  have "reprotected s s (addresses rng) (prot_to_region_access_flags prot)" unfolding reprotected_def
    using view_mem [OF space_regions_ok [OF assms(1)] assms(2)] assms(3,4) by (auto simp: page_of_def)
  then show ?thesis using assms(1-3) by (auto simp: mprotect_outcome_def degraded_def occupied_def)
qed

lemma mprotect_one:
  assumes "space_inv env s" "r \<in> set (regions s)" "validate_region_prot P prot r = Inr ()" "addresses rng \<subseteq> addresses (m_range r)"
    and "space_inv env s'" "same_frame s s'"
    and "res = Inr () \<and> reprotected s s' (addresses rng) (prot_to_region_access_flags prot) \<or>
      (res = Inl (Errno ENOMEM) \<or> res = Inl Verification_failed \<and> \<not> well_supplied env [r]) \<and>
      degraded s s' (addresses (m_range r)) (addresses rng) (prot_to_region_access_flags prot)"
  shows "mprotect_outcome env P rng prot s (tryE res (\<lambda>_. Inr 0)) s' (addresses (m_range r))"
proof -
  have "degraded s s' (addresses (m_range r)) (addresses rng) (prot_to_region_access_flags prot)"
    using assms(4,7) reprotected_degraded by blast
  moreover have "\<forall>a \<in> addresses (m_range r). \<forall>p. view (regions s) a = Some p \<longrightarrow> m_mmap p \<and> \<not> m_immutable p"
    by (rule page_flags [OF assms(1), of "[r]"]) (use assms(2) validate_flags [OF assms(3)] in auto)
  moreover have "addresses rng \<subseteq> occupied (regions s)" using assms(2,4) by (auto simp: occupied_def)
  moreover have "\<not> well_supplied env [r] \<Longrightarrow> \<not> well_supplied env (regions s)" using assms(2) by (auto simp: well_supplied_def)
  ultimately show ?thesis using assms(2,3,5-7) by (auto simp: mprotect_outcome_def)
qed

lemma tryS_done: "tryS (m, s) (\<lambda>_ s. (Inr 0, s)) = (tryE m (\<lambda>_. Inr 0), s)"
  by (cases m) simp_all

lemma mprotect_several:
  assumes "space_inv env s" "proper rng" "\<forall>r \<in> set (regions s). \<not> addresses rng \<subseteq> addresses (m_range r)"
  shows "\<exists>res s' R. tryS (find_regions_intersecting env s rng, s) (\<lambda>old_regions s.
      if old_regions = [] then (Inl (Errno EINVAL), s)
      else tryS (check_regions_prot P prot rng 0 old_regions, s) (\<lambda>full_size_found s.
        if full_size_found \<noteq> vsize rng then (Inl (Errno ENOMEM), s)
        else tryS (protect_regions env prot rng old_regions s) (\<lambda>_ s. (Inr 0, s)))) = (res, s') \<and> mprotect_outcome env P rng prot s res s' R"
proof -
  note refused = mprotect_refused [OF assms(1)]
  from find_regions_intersecting_ok [OF assms(1,2)] show ?thesis
  proof (elim disjE exE conjE)
    assume "find_regions_intersecting env s rng = Inl (Errno ENOMEM)"
    then show ?thesis using refused by (intro exI [of _ "Inl (Errno ENOMEM)"] exI [of _ s] exI [of _ "{}"]) simp
  next
    fix rs
    assume rs: "find_regions_intersecting env s rng = Inr rs" "set rs \<subseteq> {r \<in> set (regions s). overlapping rng r}" "distinct rs"
    let ?U = "\<Union>r \<in> set rs. addresses (m_range r)"
    have fin: "finite (addresses rng)" by (simp add: addresses_def)
    have le: "card (addresses rng \<inter> ?U) \<le> vsize rng" using card_mono [OF fin] by (simp add: proper_card)
    then have lt: "0 + card (addresses rng \<inter> ?U) < 2 ^ 64" using assms(2) by (simp add: proper_def)
    have sub: "set rs \<subseteq> set (regions s)" "\<forall>r \<in> set rs. overlapping rng r" using rs(2) by auto
    have chk: "(\<exists>e. check_regions_prot P prot rng 0 rs = Inl (Errno e)) \<or>
      check_regions_prot P prot rng 0 rs = Inr (0 + card (addresses rng \<inter> ?U)) \<and> (\<forall>r \<in> set rs. validate_region_prot P prot r = Inr ())"
      by (rule check_regions_prot_ok [OF space_regions_ok [OF assms(1)] sub(1) rs(3) assms(2) sub(2) lt])
    show ?thesis
    proof (cases "rs \<noteq> [] \<and> check_regions_prot P prot rng 0 rs = Inr (vsize rng)")
      case False
      obtain e where "(if rs = [] then (Inl (Errno EINVAL), s) else tryS (check_regions_prot P prot rng 0 rs, s) (\<lambda>full_size_found s.
          if full_size_found \<noteq> vsize rng then (Inl (Errno ENOMEM), s)
          else tryS (protect_regions env prot rng rs s) (\<lambda>_ s. (Inr (0 :: nat), s)))) = (Inl (Errno e), s)"
        using False chk by (cases "rs = []") auto
      then show ?thesis using rs(1) refused [of P rng prot e]
        by (intro exI [of _ "Inl (Errno e)"] exI [of _ s] exI [of _ "{}"]) (simp only: tryS_simps simp_thms)
    next
      case True
      then have "card (addresses rng \<inter> ?U) = card (addresses rng)" and val: "\<forall>r \<in> set rs. validate_region_prot P prot r = Inr ()"
        using chk by (auto simp: proper_card)
      then have cover: "addresses rng \<inter> ?U = addresses rng" using card_subset_eq [OF fin, of "addresses rng \<inter> ?U"] by simp
      have "\<forall>r \<in> set rs. \<not> m_immutable r \<and> overlapping rng r \<and> \<not> addresses rng \<subseteq> addresses (m_range r)"
        using val validate_flags sub assms(3) by blast
      from protect_regions_ok [OF assms(1) sub(1) rs(3) assms(2) this, of prot] obtain res s' where
        p: "protect_regions env prot rng rs s = (res, s')" "space_inv env s'" "same_frame s s'"
        "res = Inr () \<and> reprotected s s' (addresses rng \<inter> ?U) (prot_to_region_access_flags prot) \<or>
         (res = Inl (Errno ENOMEM) \<or> res = Inl Verification_failed \<and> \<not> well_supplied env rs) \<and>
         degraded s s' ?U (addresses rng) (prot_to_region_access_flags prot)" by (elim exE conjE) (rule that)
      have "degraded s s' ?U (addresses rng) (prot_to_region_access_flags prot)"
        using p(4) reprotected_degraded [of s s' "addresses rng" _ ?U] cover by (metis Int_lower2)
      moreover have "\<forall>a \<in> ?U. \<forall>p. view (regions s) a = Some p \<longrightarrow> m_mmap p \<and> \<not> m_immutable p"
        by (rule page_flags [OF assms(1), of rs]) (use sub(1) val validate_flags in auto)
      moreover have "addresses rng \<subseteq> occupied (regions s)" using cover sub(1) by (auto simp: occupied_def)
      moreover have "\<not> well_supplied env rs \<Longrightarrow> \<not> well_supplied env (regions s)" using sub(1) by (auto simp: well_supplied_def)
      moreover have "\<exists>r \<in> set (regions s). validate_region_prot P prot r = Inr ()" using True val sub(1) by (cases rs) auto
      ultimately have "mprotect_outcome env P rng prot s (tryE res (\<lambda>_. Inr 0)) s' ?U"
        using p(2-4) cover by (auto simp: mprotect_outcome_def)
      then show ?thesis using rs(1) True p(1)
        by (intro exI [of _ "tryE res (\<lambda>_. Inr 0)"] exI [of _ s'] exI [of _ ?U]) (simp add: tryS_done)
    qed
  qed
qed

lemma mprotect_checked:
  assumes "space_inv env s" "r \<in> set (regions s)" "addresses rng \<subseteq> addresses (m_range r)"
    and "validate_region_prot P prot r = Inr () \<Longrightarrow> \<exists>res s' R. g s = (res, s') \<and> mprotect_outcome env P rng prot s res s' R"
  shows "\<exists>res s' R. tryS (validate_region_prot P prot r, s) (\<lambda>_ s. if m_access r = prot_to_region_access_flags prot then (Inr 0, s)
      else tryS (validate_region_inode_prot prot r, s) (\<lambda>_ s. g s)) = (res, s') \<and> mprotect_outcome env P rng prot s res s' R"
proof -
  have refused: ?thesis if "tryS (validate_region_prot P prot r, s) (\<lambda>_ s. if m_access r = prot_to_region_access_flags prot then (Inr 0, s)
      else tryS (validate_region_inode_prot prot r, s) (\<lambda>_ s. g s)) = (Inl (Errno e), s)" for e
    using that mprotect_refused [OF assms(1), of P rng prot e] by (intro exI [of _ "Inl (Errno e)"] exI [of _ s] exI [of _ "{}"] conjI)
  show ?thesis
  proof (cases "validate_region_prot P prot r")
    case (Inl e)
    then obtain x where "e = Errno x" using validate_errno(1) by blast
    then show ?thesis using Inl by (intro refused [of x]) simp
  next
    case v: (Inr u)
    show ?thesis
    proof (cases "m_access r = prot_to_region_access_flags prot")
      case True
      then show ?thesis using v mprotect_same [OF assms(1-3) True] by (intro exI [of _ "Inr 0"] exI [of _ s] exI [of _ "{}"]) simp
    next
      case False
      show ?thesis
      proof (cases "validate_region_inode_prot prot r")
        case (Inl e)
        then obtain x where "e = Errno x" using validate_errno(2) by blast
        then show ?thesis using Inl v False by (intro refused [of x]) simp
      next
        case (Inr w) then show ?thesis using v False assms(4) by simp
      qed
    qed
  qed
qed

lemma mprotect_space_ok:
  assumes "space_inv env s" "proper rng"
  shows "\<exists>res s' R. mprotect_space env P rng prot s = (res, s') \<and> mprotect_outcome env P rng prot s res s' R"
proof -
  consider (whole) r where "find_region_from_range s rng = Some r"
    | (part) r where "find_region_from_range s rng = None" "find_region_containing (m_region_tree s) rng = Some r"
    | (several) "find_region_from_range s rng = None" "find_region_containing (m_region_tree s) rng = None" by fastforce
  then show ?thesis
  proof cases
    case several
    then have "\<forall>r \<in> set (regions s). \<not> addresses rng \<subseteq> addresses (m_range r)" using find_containing_Some [OF assms] by force
    from mprotect_several [OF assms this] show ?thesis using several by (simp add: mprotect_space_def)
  next
    case whole
    have r: "r \<in> set (regions s)" "m_range r = rng" using find_region_from_range_Some [OF assms, of r] whole by simp_all
    have eq: "mprotect_space env P rng prot s = tryS (validate_region_prot P prot r, s) (\<lambda>_ s.
        if m_access r = prot_to_region_access_flags prot then (Inr 0, s)
        else tryS (validate_region_inode_prot prot r, s) (\<lambda>_ s. tryS (protect_whole_region env prot r s) (\<lambda>_ s. (Inr 0, s))))"
      using whole by (simp add: mprotect_space_def)
    from protect_whole_region_ok [OF assms(1) r(1), of prot] obtain res s' where p: "protect_whole_region env prot r s = (res, s')"
      "space_inv env s'" "same_frame s s'" "reprotected s s' (addresses (m_range r)) (prot_to_region_access_flags prot)"
      "set (regions s) - {r} \<subseteq> set (regions s')" "res = Inr () \<or> res = Inl Verification_failed \<and> \<not> well_supplied env [r]"
      by (elim exE conjE) (rule that)
    have "mprotect_outcome env P rng prot s (tryE res (\<lambda>_. Inr 0)) s' (addresses (m_range r))" if "validate_region_prot P prot r = Inr ()"
      by (rule mprotect_one [OF assms(1) r(1) that _ p(2,3)]) (use p(4,6) r(2) reprotected_degraded in auto)
    then have go: "\<exists>res s' R. tryS (protect_whole_region env prot r s) (\<lambda>_ s. (Inr 0, s)) = (res, s') \<and> mprotect_outcome env P rng prot s res s' R"
      if "validate_region_prot P prot r = Inr ()" using that p(1) by (auto simp: tryS_done)
    show ?thesis unfolding eq by (rule mprotect_checked [OF assms(1) r(1)]) (use r(2) go in simp_all)
  next
    case part
    have r: "r \<in> set (regions s)" "addresses rng \<subseteq> addresses (m_range r)" "m_range r \<noteq> rng"
      using find_containing_Some [OF assms] find_region_from_range_Some [OF assms, of r] part by auto
    have eq: "mprotect_space env P rng prot s = tryS (validate_region_prot P prot r, s) (\<lambda>_ s.
        if m_access r = prot_to_region_access_flags prot then (Inr 0, s)
        else tryS (validate_region_inode_prot prot r, s) (\<lambda>_ s. tryS (protect_part_of_region env prot r rng False s) (\<lambda>_ s. (Inr 0, s))))"
      using part by (simp add: mprotect_space_def)
    show ?thesis
    proof (cases "m_immutable r")
      case True
      then show ?thesis unfolding eq using validate_flags [of P prot r] by (intro mprotect_checked [OF assms(1) r(1,2)]) auto
    next
      case False
      obtain res s' where p: "protect_part_of_region env prot r rng False s = (res, s')" "space_inv env s'" "same_frame s s'"
        "set (regions s) - {r} \<subseteq> set (regions s')" "res = Inr () \<and> reprotected s s' (addresses rng) (prot_to_region_access_flags prot) \<or>
         res = Inl (Errno ENOMEM) \<and> degraded s s' (addresses (m_range r)) (addresses rng) (prot_to_region_access_flags prot)"
        using protect_part_of_region_ok [OF assms(1) r(1) False assms(2) r(2,3), of False prot] by auto
      have "mprotect_outcome env P rng prot s (tryE res (\<lambda>_. Inr 0)) s' (addresses (m_range r))" if "validate_region_prot P prot r = Inr ()"
        by (rule mprotect_one [OF assms(1) r(1) that r(2) p(2,3)]) (use p(5) in auto)
      then have go: "\<exists>res s' R. tryS (protect_part_of_region env prot r rng False s) (\<lambda>_ s. (Inr 0, s)) = (res, s') \<and> mprotect_outcome env P rng prot s res s' R"
        if "validate_region_prot P prot r = Inr ()" using that p(1) by (auto simp: tryS_done)
      show ?thesis unfolding eq by (rule mprotect_checked [OF assms(1) r(1,2)]) (rule go)
    qed
  qed
qed

end
