(* ===== verification/Mmap_Calls.thy ===== *)
theory Mmap_Calls
  imports Mmap_Facts
begin

text \<open>
  Sequences of the system calls on the address space, in any order and with any arguments: the invariant of the
  address space, that nothing becomes writable and executable, and that immutable mappings stay.
\<close>

section \<open>Making regions\<close>

definition vm_ok :: "vmobject \<Rightarrow> bool" where
  "vm_ok v \<longleftrightarrow> PAGE_SIZE dvd vm_size v \<and> vm_size v < 2 ^ 64"

lemma place_ok:
  assumes "space_inv env s" "PAGE_SIZE dvd b" "b < 2 ^ 64" "admissible_size n alignment"
  shows "(\<exists>e. place env r randomize b n alignment s = (Inl (Errno e), s)) \<or>
    (\<exists>rng. place env r randomize b n alignment s = (Inr (r\<lparr>m_range := rng\<rparr>), with_regions (insert_region (r\<lparr>m_range := rng\<rparr>)) s) \<and>
      space_free s rng \<and> vsize rng = n \<and> (b \<noteq> 0 \<longrightarrow> vbase rng = b))"
proof -
  have t: "tree_inv (m_region_tree s)" using assms(1) by (simp add: space_inv_def)
  have n: "0 < n" "n < 2 ^ 64" "PAGE_SIZE dvd n" using assms(4) by (auto simp: admissible_size_def)
  define found where "found = (if b = 0 then (if randomize then allocate_range_randomized env (m_region_tree s) n alignment
      else allocate_range_anywhere (m_region_tree s) n alignment) else allocate_range_specific (m_region_tree s) b n)"
  have "(\<exists>e. found = Inl (Errno e)) \<or> (\<exists>rng. found = Inr rng \<and> space_free s rng \<and> vsize rng = n \<and> (b \<noteq> 0 \<longrightarrow> vbase rng = b))"
    unfolding found_def using allocate_range_specific_eq [OF t assms(2) n(3,1) assms(3) n(2)]
      allocate_range_randomized_cases [OF t assms(4), of env] allocate_range_anywhere_cases [OF t assms(4)]
    by (cases "b = 0"; cases randomize) (simp_all, metis+)
  moreover have "place env r randomize b n alignment s = (if \<not> region_memory env \<lparr>vbase = b, vsize = n\<rparr> then (Inl (Errno ENOMEM), s)
      else case found of Inl e \<Rightarrow> (Inl e, s) | Inr rng \<Rightarrow> (Inr (r\<lparr>m_range := rng\<rparr>), with_regions (insert_region (r\<lparr>m_range := rng\<rparr>)) s))"
    by (auto simp: place_def found_def place_anywhere_def place_specifically_def with_regions_def Let_def tryE_def split: sum.splits)
  ultimately show ?thesis by (auto split: if_splits sum.splits)
qed

lemma free_key:
  assumes "space_inv env s" "space_free s (m_range r)" "q \<in> set (regions s)"
  shows "vaddr q \<noteq> vaddr r"
  using vbase_mem [OF space_region(1) [OF assms(1,3)]] assms(2,3) vbase_mem [of "m_range r"]
  unfolding free_range_def occupied_def by (metis UN_I disjoint_iff)

lemma remove_insert:
  assumes "space_inv env s" "space_free s (m_range r)"
  shows "with_regions (remove_region (vaddr r)) (with_regions (insert_region r) s) = s"
proof -
  note ne = free_key [OF assms]
  let ?P = "\<lambda>q. vaddr q \<le> vaddr r"
  have "filter (\<lambda>q. vaddr q \<noteq> vaddr r) (takeWhile ?P (regions s)) = takeWhile ?P (regions s)"
    by (rule filter_True) (use ne set_takeWhileD in metis)
  moreover have "filter (\<lambda>q. vaddr q \<noteq> vaddr r) (dropWhile ?P (regions s)) = dropWhile ?P (regions s)"
    by (rule filter_True) (use ne set_dropWhileD in metis)
  ultimately have "remove_region (vaddr r) (insert_region r (regions s)) = regions s" by (simp add: remove_region_def insert_region_def)
  then show ?thesis by (simp add: with_regions_def)
qed

lemma update_inserted:
  assumes "space_inv env s" "space_free s (m_range r)" "m_range (f r) = m_range r"
  shows "with_regions (update_region (vaddr r) f) (with_regions (insert_region r) s) = with_regions (insert_region (f r)) s"
proof -
  note ne = free_key [OF assms(1,2)]
  let ?g = "\<lambda>q. if vaddr q = vaddr r then f q else q"
  let ?P = "\<lambda>q. vaddr q \<le> vaddr r"
  have "map ?g (takeWhile ?P (regions s)) = takeWhile ?P (regions s)" by (rule map_idI) (use ne set_takeWhileD in fastforce)
  moreover have "map ?g (dropWhile ?P (regions s)) = dropWhile ?P (regions s)" by (rule map_idI) (use ne set_dropWhileD in fastforce)
  ultimately have "update_region (vaddr r) f (insert_region r (regions s)) = insert_region (f r) (regions s)"
    using assms(3) by (simp add: update_region_def insert_region_def)
  then show ?thesis by (simp add: with_regions_def)
qed

definition fresh_region :: "vmobject \<Rightarrow> nat \<Rightarrow> string option \<Rightarrow> prot \<Rightarrow> memory_type \<Rightarrow> bool \<Rightarrow> virtual_range \<Rightarrow> region" where
  "fresh_region v offset name prot memory_type shared rng =
     (create_unplaced v (page_round_down offset) name (prot_to_region_access_flags prot) memory_type shared)\<lparr>m_range := rng\<rparr>"

lemma fresh_region_simps [simp]:
  "m_range (fresh_region v offset name prot memory_type shared rng) = rng"
  "m_access (fresh_region v offset name prot memory_type shared rng) = prot_to_region_access_flags prot"
  "\<not> m_immutable (fresh_region v offset name prot memory_type shared rng)"
  by (simp_all add: fresh_region_def create_unplaced_def)

lemma fresh_region_ok:
  assumes "vm_ok v" "is_shared_inode v \<longrightarrow> shared" "page_round_up n = Inr (vsize rng)" "offset + n \<le> vm_size v"
  shows "region_ok (fresh_region v offset name prot memory_type shared rng)"
proof -
  note o = page_round_down_ok [of offset]
  obtain k where k: "page_round_down offset = 4096 * k" using o(1) by (auto simp: dvd_def)
  obtain m where m: "vsize rng = 4096 * m" "vsize rng < n + 4096" using assms(3) by (cases n rule: page_round_up_cases) (auto simp: dvd_def)
  obtain q where q: "vm_size v = 4096 * q" using assms(1) by (auto simp: vm_ok_def dvd_def)
  have "4096 * k \<le> offset" "4096 * m < n + 4096" "offset + n \<le> 4096 * q" using k m q o(2) assms(4) by simp_all
  then have "4096 * (k + m) < 4096 * Suc q" by (simp add: distrib_left)
  then have "k + m \<le> q" by (simp only: mult_less_cancel1) simp
  then have "4096 * k + 4096 * m \<le> 4096 * q" by simp
  then show ?thesis using assms(1,2) o(1) k m(1) q access_flags_ok [of prot]
    by (simp add: region_ok_def fresh_region_def create_unplaced_def vm_ok_def)
qed

lemma allocate_region_with_vmobject_ok:
  assumes "space_inv env s" "vm_ok v" "is_shared_inode v \<longrightarrow> shared" "b < 2 ^ 64" "0 < n" "0 < alignment"
  shows "(\<exists>e. allocate_region_with_vmobject env randomize b n alignment v offset name prot shared memory_type s = (Inl (Errno e), s)) \<or>
    (\<exists>rng s'. allocate_region_with_vmobject env randomize b n alignment v offset name prot shared memory_type s =
       (Inr (attached (fresh_region v offset name prot memory_type shared rng)), s') \<and>
      s' = with_regions (insert_region (attached (fresh_region v offset name prot memory_type shared rng))) s \<and>
      space_free s rng \<and> page_round_up n = Inr (vsize rng) \<and> (b \<noteq> 0 \<longrightarrow> vbase rng = b) \<and>
      region_ok (fresh_region v offset name prot memory_type shared rng))"
proof (cases "PAGE_SIZE dvd b")
  case False then show ?thesis by (simp add: allocate_region_with_vmobject_def dvd_eq_mod_eq_0)
next
  case b: True
  let ?r = "create_unplaced v (page_round_down offset) name (prot_to_region_access_flags prot) memory_type shared"
  have small: "y < 2 ^ 64" if "page_round_up x = Inr y" for x y using that by (auto simp: page_round_up_def split: if_splits)
  show ?thesis
  proof (cases n rule: page_round_up_cases)
    case 1 then show ?thesis using b by (simp add: allocate_region_with_vmobject_def dvd_eq_mod_eq_0)
  next
    case n: (2 m)
    show ?thesis
    proof (cases alignment rule: page_round_up_cases)
      case 1 then show ?thesis using b n by (simp add: allocate_region_with_vmobject_def dvd_eq_mod_eq_0)
    next
      case a: (2 al)
      show ?thesis
      proof (cases "offset + n < 2 ^ 64 \<and> offset < vm_size v \<and> offset + n \<le> vm_size v")
        case False then show ?thesis using b n a size_overflow [of offset n] by (auto simp: allocate_region_with_vmobject_def dvd_eq_mod_eq_0)
      next
        case True
        have adm: "admissible_size m al" using n a assms(5,6) small by (auto simp: admissible_size_def)
        let ?rest = "\<lambda>r s. if prot = PROT_NONE then
               let r = r\<lparr>m_page_directory := True\<rparr> in (Inr r, with_regions (update_region (vaddr r) (\<lambda>_. r)) s)
             else tryS (Region_map env r, s) (\<lambda>(r, mapped) s. if mapped then (Inr r, with_regions (update_region (vaddr r) (\<lambda>_. r)) s)
               else (Inl (Errno ENOMEM), with_regions (remove_region (vaddr r)) s))"
        have eq: "allocate_region_with_vmobject env randomize b n alignment v offset name prot shared memory_type s =
            tryS (place env ?r randomize b m al s) ?rest"
          using b n a True size_overflow [of offset n] by (simp add: allocate_region_with_vmobject_def dvd_eq_mod_eq_0 Let_def)
        from place_ok [OF assms(1) b assms(4) adm, of ?r randomize] show ?thesis
        proof (elim disjE exE conjE)
          fix e assume "place env ?r randomize b m al s = (Inl (Errno e), s)"
          then show ?thesis using eq by simp
        next
          fix rng
          let ?q = "fresh_region v offset name prot memory_type shared rng"
          assume p: "place env ?r randomize b m al s = (Inr (?r\<lparr>m_range := rng\<rparr>), with_regions (insert_region (?r\<lparr>m_range := rng\<rparr>)) s)"
            "space_free s rng" "vsize rng = m" "b \<noteq> 0 \<longrightarrow> vbase rng = b"
          have q: "?q = ?r\<lparr>m_range := rng\<rparr>" by (simp add: fresh_region_def)
          have ok: "region_ok ?q" using fresh_region_ok [OF assms(2,3)] n(1) p(3) True by simp
          let ?s = "with_regions (insert_region ?q) s"
          have inv: "space_inv env ?s" using space_insert [OF assms(1) _ ok] p(2) by simp
          obtain c where c: "Region_map env ?q = Inr (attached ?q, c)" using Region_map_total [OF inv, of ?q] by (auto simp: attached_def)
          have undo: "with_regions (remove_region (vbase rng)) ?s = s" using remove_insert [OF assms(1), of ?q] p(2) by simp
          have res: "tryS (place env ?r randomize b m al s) ?rest =
              (if prot = PROT_NONE \<or> c then (Inr (attached ?q), with_regions (update_region (vbase rng) (\<lambda>_. attached ?q)) ?s)
               else (Inl (Errno ENOMEM), s))"
            unfolding p(1) q [symmetric] using c undo by (simp add: Let_def attached_def)
          have "page_round_up n = Inr (vsize rng)" using n(1) p(3) by simp
          moreover have "with_regions (update_region (vbase rng) (\<lambda>_. attached ?q)) ?s = with_regions (insert_region (attached ?q)) s"
            using update_inserted [OF assms(1), of ?q "\<lambda>_. attached ?q"] p(2) by simp
          ultimately show ?thesis unfolding eq res using p(2,4) ok by (cases "prot = PROT_NONE \<or> c") auto
        qed
      qed
    qed
  qed
qed

section \<open>mmap\<close>

text \<open>The region a successful \<^verbatim>\<open>mmap\<close> makes.\<close>

definition mapped_region :: "mmap_params \<Rightarrow> vmobject \<times> memory_type \<times> nat \<times> description option \<Rightarrow> virtual_range \<Rightarrow> region" where
  "mapped_region params object rng = (case object of (v, memory_type, offset, d) \<Rightarrow>
     finish_mapping params d (attached (fresh_region v offset None (mm_prot params) memory_type (flag (mm_flags params) MAP_SHARED) rng)))"

lemma finish_mapping_simps [simp]:
  "m_range (finish_mapping params d r) = m_range r" "m_access (finish_mapping params d r) = m_access r"
  "m_immutable (finish_mapping params d r) = m_immutable r" "m_mmap (finish_mapping params d r)"
  "m_vmobject (finish_mapping params d r) = m_vmobject r" "m_offset_in_vmobject (finish_mapping params d r) = m_offset_in_vmobject r"
  by (auto simp: finish_mapping_def Let_def set_mmap_def split: option.splits)

lemma finish_mapping_shared: "m_shared r \<Longrightarrow> m_shared (finish_mapping params d r)"
  by (auto simp: finish_mapping_def Let_def set_mmap_def split: option.splits)

lemma finish_mapping_ok: "region_ok r \<Longrightarrow> region_ok (finish_mapping params d r)"
  using finish_mapping_shared by (auto simp: region_ok_def)

lemma mapped_region_simps [simp]:
  "m_range (mapped_region params object rng) = rng" "m_access (mapped_region params object rng) = prot_to_region_access_flags (mm_prot params)"
  "\<not> m_immutable (mapped_region params object rng)" "m_mmap (mapped_region params object rng)"
  by (cases object, simp add: mapped_region_def attached_def)+

definition object_ok :: "u32 \<Rightarrow> vmobject \<Rightarrow> bool" where
  "object_ok flags v \<longleftrightarrow> vm_ok v \<and> (is_shared_inode v \<longrightarrow> flag flags MAP_SHARED)"

text \<open>What \<^verbatim>\<open>mmap\<close> does once it has the memory object: pages go only for \<^verbatim>\<open>MAP_FIXED\<close>, then a region is made where nothing
  is, or nothing else happens.\<close>

definition mmap_outcome ::
  "vm_env \<Rightarrow> mmap_params \<Rightarrow> virtual_range \<Rightarrow> vmobject \<times> memory_type \<times> nat \<times> description option \<Rightarrow> address_space \<Rightarrow>
   nat kresult \<Rightarrow> address_space \<Rightarrow> address_space \<Rightarrow> nat set \<Rightarrow> bool" where
  "mmap_outcome env params requested object s res s1 s' G \<longleftrightarrow>
     unmapped env s s1 G \<and> (flag (mm_flags params) MAP_FIXED \<or> s1 = s \<and> G = {}) \<and>
     ((\<exists>e. res = Inl (Errno e)) \<and> s' = s1 \<or>
      (\<exists>rng. res = Inr (vbase rng) \<and> space_free s1 rng \<and> vsize rng = vsize requested \<and> (vbase requested \<noteq> 0 \<longrightarrow> rng = requested) \<and>
         s' = with_regions (insert_region (mapped_region params object rng)) s1 \<and> region_ok (mapped_region params object rng)))"

lemma map_into_space_ok:
  assumes "space_inv env s" "object_ok (mm_flags params) (fst object)" "mm_addr params < 2 ^ 64" "mm_size params < 2 ^ 64"
    and "vbase requested < 2 ^ 64" "0 < vsize requested" "page_round_up (vsize requested) = Inr (vsize requested)" "0 < alignment"
  shows "\<exists>res s1 s' G. map_into_space env params alignment requested object s = (res, s') \<and> mmap_outcome env params requested object s res s1 s' G"
proof -
  obtain v memory_type offset d where o: "object = (v, memory_type, offset, d)" by (cases object)
  let ?first = "if flag (mm_flags params) MAP_FIXED then unmap_mmap_range env (mm_addr params) (mm_size params) s else (Inr (), s)"
  have "\<exists>res s1 G. ?first = (res, s1) \<and> unmapped env s s1 G \<and> (flag (mm_flags params) MAP_FIXED \<or> s1 = s \<and> G = {}) \<and> (res = Inr () \<or> (\<exists>e. res = Inl (Errno e)))"
  proof (cases "flag (mm_flags params) MAP_FIXED")
    case True then show ?thesis using unmap_mmap_range_ok [OF assms(1,3,4)] by auto
  next
    case False
    have "unmapped env s s {}" using assms(1) by (simp add: unmapped_def fun_eq_iff restrict_map_def)
    then show ?thesis using False by (intro exI [of _ "Inr ()"] exI [of _ s] exI [of _ "{}"]) simp
  qed
  then obtain r1 s1 G where f: "?first = (r1, s1)" "unmapped env s s1 G" "flag (mm_flags params) MAP_FIXED \<or> s1 = s \<and> G = {}"
    "r1 = Inr () \<or> (\<exists>e. r1 = Inl (Errno e))" by (elim exE conjE) (rule that)
  have inv: "space_inv env s1" using f(2) by (simp add: unmapped_def)
  have ok: "vm_ok v" "is_shared_inode v \<longrightarrow> flag (mm_flags params) MAP_SHARED" using assms(2) o by (simp_all add: object_ok_def)
  let ?alloc = "allocate_region_with_vmobject env (flag (mm_flags params) MAP_RANDOMIZED) (vbase requested) (vsize requested) alignment v offset None
    (mm_prot params) (flag (mm_flags params) MAP_SHARED) memory_type s1"
  let ?fresh = "\<lambda>rng. fresh_region v offset None (mm_prot params) memory_type (flag (mm_flags params) MAP_SHARED) rng"
  have eq: "map_into_space env params alignment requested object s = tryS (r1, s1) (\<lambda>_ _. tryS ?alloc (\<lambda>region s.
      (Inr (vaddr region), with_regions (update_region (vaddr region) (finish_mapping params d)) s)))"
    unfolding o using f(1) by (cases r1) (simp_all add: map_into_space_def Let_def)
  from f(4) show ?thesis
  proof (elim disjE exE)
    fix e assume "r1 = Inl (Errno e)"
    then show ?thesis unfolding eq mmap_outcome_def using f(2,3) by (intro exI [of _ "Inl (Errno e)"] exI [of _ s1] exI [of _ G]) auto
  next
    assume r1: "r1 = Inr ()"
    from allocate_region_with_vmobject_ok [OF inv ok assms(5,6,8), of "flag (mm_flags params) MAP_RANDOMIZED" offset None "mm_prot params" memory_type]
    show ?thesis
    proof (elim disjE exE conjE)
      fix e assume "?alloc = (Inl (Errno e), s1)"
      then show ?thesis unfolding eq mmap_outcome_def using f(2,3) r1 by (intro exI [of _ "Inl (Errno e)"] exI [of _ s1] exI [of _ G]) auto
    next
      fix rng t
      assume a: "?alloc = (Inr (attached (?fresh rng)), t)" "t = with_regions (insert_region (attached (?fresh rng))) s1" "space_free s1 rng"
        "page_round_up (vsize requested) = Inr (vsize rng)" "vbase requested \<noteq> 0 \<longrightarrow> vbase rng = vbase requested" "region_ok (?fresh rng)"
      let ?s' = "with_regions (insert_region (mapped_region params object rng)) s1"
      have "with_regions (update_region (vbase rng) (finish_mapping params d)) t = ?s'"
        using update_inserted [OF inv, of "attached (?fresh rng)" "finish_mapping params d"] a(2,3) o by (simp add: mapped_region_def)
      then have "map_into_space env params alignment requested object s = (Inr (vbase rng), ?s')" unfolding eq using r1 a(1) by simp
      moreover have n: "vsize rng = vsize requested" using a(4) assms(7) by simp
      moreover have "vbase requested \<noteq> 0 \<longrightarrow> rng = requested" using a(5) n by (metis range_eta)
      moreover have "region_ok (mapped_region params object rng)" using finish_mapping_ok [of "attached (?fresh rng)"] a(6) o by (simp add: mapped_region_def)
      ultimately show ?thesis unfolding mmap_outcome_def using f(2,3) a(3)
        by (intro exI [of _ "Inr (vbase rng)"] exI [of _ s1] exI [of _ ?s'] exI [of _ G]) auto
    qed
  qed
qed

section \<open>What every call keeps\<close>

definition keeps_immutable :: "address_space \<Rightarrow> address_space \<Rightarrow> bool" where
  "keeps_immutable s s' \<longleftrightarrow> (\<forall>a p. view (regions s) a = Some p \<longrightarrow> m_immutable p \<longrightarrow> view (regions s') a = Some p)"

definition wx_free :: "address_space \<Rightarrow> bool" where
  "wx_free s \<longleftrightarrow> (\<forall>a p. view (regions s) a = Some p \<longrightarrow> \<not> (is_writable p \<and> is_executable p))"

definition executable_at :: "address_space \<Rightarrow> nat \<Rightarrow> bool" where
  "executable_at s a \<longleftrightarrow> (\<exists>p. view (regions s) a = Some p \<and> is_executable p)"

definition no_exec :: "vm_process \<Rightarrow> bool" where
  "no_exec P \<longleftrightarrow> has_promises (vp_process P) \<and> \<not> has_promised (vp_process P) Pledge_prot_exec"

definition good_step :: "vm_env \<Rightarrow> vm_process \<Rightarrow> address_space \<Rightarrow> address_space \<Rightarrow> bool" where
  "good_step env P s s' \<longleftrightarrow> space_inv env s' \<and> same_frame s s' \<and> keeps_immutable s s' \<and> (\<not> vp_wxallowed P \<longrightarrow> wx_free s \<longrightarrow> wx_free s') \<and>
     (no_exec P \<longrightarrow> (\<forall>a. executable_at s' a \<longrightarrow> executable_at s a))"

lemma good_refl: "space_inv env s \<Longrightarrow> good_step env P s s"
  by (simp add: good_step_def keeps_immutable_def)

lemma good_trans: "good_step env P s t \<Longrightarrow> good_step env P t u \<Longrightarrow> good_step env P s u"
  using same_frame_trans [of s t u] by (auto simp: good_step_def keeps_immutable_def)

lemma unmapped_good: "unmapped env s s' G \<Longrightarrow> good_step env P s s'"
  by (fastforce simp: unmapped_def good_step_def keeps_immutable_def wx_free_def executable_at_def restrict_map_def split: if_splits)

lemma writable_page [simp]: "is_writable (page_of r a) = is_writable r" "is_executable (page_of r a) = is_executable r"
  by (simp_all add: is_writable_def is_executable_def)

lemma good_insert:
  assumes "good_step env P s0 s" "space_free s (m_range q)" "region_ok q"
    and "\<not> vp_wxallowed P \<longrightarrow> wx_free s0 \<longrightarrow> \<not> (is_writable q \<and> is_executable q)"
    and "no_exec P \<longrightarrow> is_executable q \<longrightarrow> (\<forall>a \<in> addresses (m_range q). executable_at s0 a)"
  shows "good_step env P s0 (with_regions (insert_region q) s)"
proof -
  have inv: "space_inv env s" "same_frame s0 s" using assms(1) by (simp_all add: good_step_def)
  have v: "view (insert_region q (regions s)) a = (if a \<in> addresses (m_range q) then Some (page_of q a) else view (regions s) a)" for a
    by (rule view_insert [OF space_regions_ok [OF inv(1)]]) (use assms(2) in simp)
  have n: "view (regions s) a = None" if "a \<in> addresses (m_range q)" for a
    using assms(2) that by (auto simp: view_None free_range_def)
  have "keeps_immutable s0 (with_regions (insert_region q) s)"
    using assms(1) n v unfolding good_step_def keeps_immutable_def by (metis option.distinct(1) regions_with_regions)
  moreover have "wx_free (with_regions (insert_region q) s)" if "\<not> vp_wxallowed P" "wx_free s0"
  proof -
    have "wx_free s" "\<not> (is_writable q \<and> is_executable q)" using assms(1,4) that by (auto simp: good_step_def)
    then show ?thesis using v by (auto simp: wx_free_def split: if_splits)
  qed
  moreover have "executable_at s0 a" if "no_exec P" "executable_at (with_regions (insert_region q) s) a" for a
    using assms(1,5) that v [of a] by (auto simp: good_step_def executable_at_def split: if_splits)
  ultimately show ?thesis using space_insert [OF inv(1) assms(2,3)] same_frame_trans [OF inv(2), of "with_regions (insert_region q) s"]
    by (simp add: good_step_def)
qed

lemma validate_wx:
  "validate_mmap_prot P prot map_stack map_anonymous region = Inr u \<Longrightarrow> \<not> vp_wxallowed P \<Longrightarrow> \<not> (prot_has prot PROT_WRITE \<and> prot_has prot PROT_EXEC)"
  by (auto simp: validate_mmap_prot_def Let_def split: if_splits)

lemma flags_wx: "m_access r = prot_to_region_access_flags prot \<Longrightarrow> is_writable r \<and> is_executable r \<longleftrightarrow> prot_has prot PROT_WRITE \<and> prot_has prot PROT_EXEC"
  using flags_bits by (simp add: writable_iff)

lemma flags_exec: "m_access r = prot_to_region_access_flags prot \<Longrightarrow> is_executable r \<longleftrightarrow> prot_has prot PROT_EXEC"
  using flags_bits by (simp add: writable_iff)

lemma mmap_outcome_good:
  assumes "mmap_outcome env params requested object s res s1 s' G" "\<not> vp_wxallowed P \<longrightarrow> \<not> (prot_has (mm_prot params) PROT_WRITE \<and> prot_has (mm_prot params) PROT_EXEC)"
    and "no_exec P \<longrightarrow> \<not> prot_has (mm_prot params) PROT_EXEC"
  shows "good_step env P s s'"
proof -
  have u: "good_step env P s s1" using assms(1) unmapped_good by (auto simp: mmap_outcome_def)
  show ?thesis
  proof (cases "s' = s1")
    case False
    then obtain rng where "space_free s1 rng" "s' = with_regions (insert_region (mapped_region params object rng)) s1" "region_ok (mapped_region params object rng)"
      using assms(1) by (auto simp: mmap_outcome_def)
    then show ?thesis using good_insert [OF u, of "mapped_region params object rng"] assms(2,3) flags_wx [of "mapped_region params object rng" "mm_prot params"]
      flags_exec [of "mapped_region params object rng" "mm_prot params"] by auto
  qed (use u in simp)
qed

lemma with_access_page: "with_access fl (view rs a) = Some p \<Longrightarrow> m_access p = fl"
  by auto

lemma mprotect_outcome_good:
  assumes "mprotect_outcome env P rng prot s res s' R" "no_exec P \<longrightarrow> \<not> prot_has prot PROT_EXEC"
  shows "good_step env P s s'"
proof -
  note o = assms(1) [unfolded mprotect_outcome_def]
  have d: "degraded s s' R (addresses rng) (prot_to_region_access_flags prot)" using o by simp
  have v: "view (regions s') a = None \<or> view (regions s') a = view (regions s) a \<or>
      view (regions s') a = with_access (prot_to_region_access_flags prot) (view (regions s) a)" for a
    using d unfolding degraded_def by metis
  have "wx_free s'" if "wx_free s" "\<not> vp_wxallowed P"
  proof (cases "s' = s")
    case False
    then obtain r where "validate_region_prot P prot r = Inr ()" using o by auto
    then have "\<not> (prot_has prot PROT_WRITE \<and> prot_has prot PROT_EXEC)" using validate_wx [OF _ that(2)]
      by (auto simp: validate_region_prot_def split: if_splits)
    then have "\<not> (is_writable p \<and> is_executable p)" if "m_access p = prot_to_region_access_flags prot" for p using flags_wx [OF that] by simp
    then show ?thesis using that(1) with_access_page v unfolding wx_free_def by (metis option.distinct(1))
  qed (use that in simp)
  moreover have "view (regions s') a = Some p" if "view (regions s) a = Some p" "m_immutable p" for a p
  proof -
    have "a \<notin> R" using o that by blast
    then show ?thesis using d that(1) unfolding degraded_def by metis
  qed
  moreover have "executable_at s a" if "no_exec P" "executable_at s' a" for a
    using that v [of a] assms(2) with_access_page flags_exec unfolding executable_at_def by (metis option.distinct(1))
  ultimately show ?thesis using o by (simp add: good_step_def keeps_immutable_def)
qed

lemma update_good:
  assumes "space_inv env s" "r \<in> set (regions s)" "m_range (f r) = m_range r" "m_access (f r) = m_access r" "region_ok (f r)" "\<not> m_immutable r"
  shows "good_step env P s (with_regions (update_region (vaddr r) f) s)"
proof -
  note m = view_mem [OF space_regions_ok [OF assms(1)] assms(2)]
  have v: "view (update_region (vaddr r) f (regions s)) a = (if a \<in> addresses (m_range r) then Some (page_of (f r) a) else view (regions s) a)" for a
    by (rule view_update [OF space_regions_ok [OF assms(1)] assms(2)]) (rule assms(3))
  have "keeps_immutable s (with_regions (update_region (vaddr r) f) s)"
    unfolding keeps_immutable_def using m v assms(6) by (metis option.inject page_of_flags(2) regions_with_regions)
  moreover have "wx_free (with_regions (update_region (vaddr r) f) s)" if "wx_free s"
  proof -
    have "\<not> (is_writable r \<and> is_executable r)"
      using that m [OF vbase_mem [OF space_region(1) [OF assms(1,2)]]] writable_page [of r] unfolding wx_free_def by blast
    then have "\<not> (is_writable (f r) \<and> is_executable (f r))" using assms(4) by (simp add: is_writable_def is_executable_def)
    then show ?thesis using that v by (auto simp: wx_free_def split: if_splits)
  qed
  moreover have "executable_at s a" if "executable_at (with_regions (update_region (vaddr r) f) s) a" for a
    using that m [of a] v [of a] assms(4) writable_page [of r a] writable_page [of "f r" a]
    by (auto simp: executable_at_def is_executable_def split: if_splits)
  moreover have "space_inv env (with_regions (update_region (vaddr r) f) s)" by (rule space_update [OF assms(1,2)]) (use assms(3,5) in simp_all)
  ultimately show ?thesis by (simp add: good_step_def)
qed

section \<open>The calls\<close>

text \<open>What a call gives back: the address space made a good step, the process is as before but for the mark of a broken
  promise, and a failure is an error number unless \<open>C\<close>.\<close>

definition effect :: "vm_env \<Rightarrow> bool \<Rightarrow> vm_process \<Rightarrow> nat kresult \<times> vm_process \<Rightarrow> bool" where
  "effect env C P out \<longleftrightarrow> good_step env P (vp_space P) (vp_space (snd out)) \<and> same_protected (vp_process P) (vp_process (snd out)) \<and>
     vp_axallowed (snd out) = vp_axallowed P \<and> vp_wxallowed (snd out) = vp_wxallowed P \<and> vp_reject_transition (snd out) = vp_reject_transition P \<and>
     (\<forall>e. fst out = Inl e \<longrightarrow> (\<exists>x. e = Errno x) \<or> C)"

abbreviation fails_cleanly :: "'a kresult \<Rightarrow> bool" where
  "fails_cleanly m \<equiv> \<forall>e. m = Inl e \<longrightarrow> (\<exists>x. e = Errno x)"

lemma effect_refl: "space_inv env (vp_space P) \<Longrightarrow> fails_cleanly r \<Longrightarrow> effect env C P (r, P)"
  by (auto simp: effect_def good_refl)

lemma effect_errno: "space_inv env (vp_space P) \<Longrightarrow> effect env C P (Inl (Errno e), P)"
  by (simp add: effect_refl)

lemma effect_gate:
  assumes "space_inv env (vp_space P)" "effect env C P (f () P)"
  shows "effect env C P (tryS (gate mem x P) f)"
proof (cases rule: require_promise_cases [of mem x "vp_process P"])
  case ok then show ?thesis using assms(2) by (simp add: gate_def)
next
  case (violation q) then show ?thesis using assms(1) by (simp add: gate_def effect_def good_refl)
qed

lemma effect_gate_if:
  assumes "space_inv env (vp_space P)" "b \<longrightarrow> \<not> has_promises (vp_process P) \<or> has_promised (vp_process P) x \<Longrightarrow> effect env C P (f () P)"
  shows "effect env C P (tryS (if b then gate mem x P else (Inr (), P)) f)"
proof (cases b)
  case True
  show ?thesis
  proof (cases rule: require_promise_cases [of mem x "vp_process P"])
    case ok then show ?thesis using True assms(2) by (simp add: gate_def)
  next
    case (violation q) then show ?thesis using True assms(1) by (simp add: gate_def effect_def good_refl)
  qed
qed (simp add: assms(2))

lemma effect_try:
  assumes "space_inv env (vp_space P)" "fails_cleanly m" "\<And>x. m = Inr x \<Longrightarrow> effect env C P (f x P)"
  shows "effect env C P (tryS (m, P) f)"
  using assms by (cases m) (auto intro: effect_errno)

lemma effect_space:
  assumes "f (vp_space P) = (res, s')" "good_step env P (vp_space P) s'" "\<forall>e. res = Inl e \<longrightarrow> (\<exists>x. e = Errno x) \<or> C"
  shows "effect env C P (on_space f P)"
  using assms by (simp add: on_space_def effect_def)

lemma effect_if:
  assumes "b \<Longrightarrow> effect env C P x" "\<not> b \<Longrightarrow> effect env C P y"
  shows "effect env C P (if b then x else y)"
  using assms by simp

lemmas effect_rules = effect_gate effect_gate_if effect_try effect_errno effect_if

lemma page_round_up_clean: "fails_cleanly (page_round_up n)"
  by (simp add: page_round_up_def)

lemma expand_clean: "fails_cleanly (expand_range_to_page_boundaries a n)"
  using page_round_up_clean by (auto simp: expand_range_to_page_boundaries_def Let_def tryE_Inl_iff)

lemma expand_same: "expand_range_to_page_boundaries = expand_to_page_boundaries"
  by (simp add: fun_eq_iff expand_range_to_page_boundaries_def expand_to_page_boundaries_def)

lemma validate_clean: "fails_cleanly (validate_mmap_prot P prot a b r)" "fails_cleanly (validate_inode_mmap_prot prot a b c)"
  by (auto simp: validate_mmap_prot_def validate_inode_mmap_prot_def Let_def split: if_splits option.splits)

text \<open>What the kernel hands to a call, and what is asked of it: the memory objects of a file are whole pages, are shared
  only for shared mappings, and requests fail with an error number.\<close>

record kernel_context =
  kc_env :: vm_env
  kc_mem :: bool
  kc_descriptions :: "int \<Rightarrow> description kresult"
  kc_set_volatile :: "vmobject \<Rightarrow> bool \<Rightarrow> bool kresult"
  kc_private :: "vmobject \<Rightarrow> vmobject kresult"

definition description_ok :: "description \<Rightarrow> bool" where
  "description_ok d \<longleftrightarrow> (\<forall>rng offset shared. case vmobject_for_mmap d rng offset shared of
     Inl e \<Rightarrow> (\<exists>x. e = Errno x) | Inr (v, _) \<Rightarrow> vm_ok v \<and> (is_shared_inode v \<longrightarrow> shared))"

definition context_ok :: "kernel_context \<Rightarrow> bool" where
  "context_ok k \<longleftrightarrow> (\<forall>fd. case kc_descriptions k fd of Inl e \<Rightarrow> (\<exists>x. e = Errno x) | Inr d \<Rightarrow> description_ok d) \<and>
     (\<forall>v b. fails_cleanly (kc_set_volatile k v b)) \<and>
     (\<forall>v. case kc_private k v of Inl e \<Rightarrow> (\<exists>x. e = Errno x) | Inr w \<Rightarrow> vm_ok w \<and> \<not> is_shared_inode w)"

section \<open>Each call\<close>

lemma on_space_done: "tryS (on_space f P) (\<lambda>_ P. (Inr 0, P)) = on_space (\<lambda>s. tryS (f s) (\<lambda>_ s. (Inr 0, s))) P"
  by (cases "f (vp_space P)"; cases "fst (f (vp_space P))") (auto simp: on_space_def)

lemma sys_munmap_effect:
  assumes "space_inv env (vp_space P)" "addr < 2 ^ 64" "n < 2 ^ 64"
  shows "effect env C P (sys_munmap env mem addr n P)"
proof -
  obtain res s' G where u: "unmap_mmap_range env addr n (vp_space P) = (res, s')" "unmapped env (vp_space P) s' G" "fails_cleanly res"
    using unmap_mmap_range_ok [OF assms] by auto
  have "effect env C P (on_space (\<lambda>s. tryS (unmap_mmap_range env addr n s) (\<lambda>_ s. (Inr 0, s))) P)"
    by (rule effect_space [where res = "tryE res (\<lambda>_. Inr 0)"]) (use u unmapped_good [OF u(2)] in \<open>auto simp: tryS_done tryE_Inl_iff\<close>)
  then show ?thesis unfolding sys_munmap_def on_space_done by (rule effect_gate [OF assms(1)])
qed

lemma expand_proper:
  assumes "expand_to_page_boundaries addr n = Inr rng" "0 < vsize rng" "addr < 2 ^ 64" "n < 2 ^ 64"
  shows "proper rng"
proof -
  have sa: "size_add addr n = addr + n" using assms(1) size_add_wraps [OF _ assms(3,4)] size_add_eq [of addr n]
    by (cases "addr + n < 2 ^ 64") (simp_all add: expand_to_page_boundaries_def)
  show ?thesis
  proof (cases "addr + n" rule: page_round_up_cases)
    case 1 then show ?thesis using assms(1) sa by (simp add: expand_to_page_boundaries_def)
  next
    case (2 e)
    note b = page_round_down_ok [of addr]
    have e: "e < 2 ^ 64" using 2(1) by (auto simp: page_round_up_def split: if_splits)
    have "rng = \<lparr>vbase = page_round_down addr, vsize = e - page_round_down addr\<rparr>"
      using assms(1) sa 2 b(2) e by (simp add: expand_to_page_boundaries_def Let_def size_sub_eq)
    then show ?thesis using assms(2) 2 b e by (auto simp: proper_def intro: dvd_diff_nat)
  qed
qed

lemma sys_mprotect_effect:
  assumes "space_inv env (vp_space P)" "addr < 2 ^ 64" "n < 2 ^ 64"
  shows "effect env (\<not> well_supplied env (regions (vp_space P))) P (sys_mprotect env mem addr n prot P)"
  unfolding sys_mprotect_def
proof (intro effect_rules assms(1) expand_clean)
  fix rng assume e: "expand_range_to_page_boundaries addr n = Inr rng" "vsize rng \<noteq> 0"
    and x: "prot_has prot PROT_EXEC \<longrightarrow> \<not> has_promises (vp_process P) \<or> has_promised (vp_process P) Pledge_prot_exec"
  have x: "no_exec P \<longrightarrow> \<not> prot_has prot PROT_EXEC" using x by (auto simp: no_exec_def)
  have "proper rng" using e expand_proper [OF _ _ assms(2,3)] by (simp add: expand_same)
  from mprotect_space_ok [OF assms(1) this, of P prot] obtain res s' R
    where m: "mprotect_space env P rng prot (vp_space P) = (res, s')" "mprotect_outcome env P rng prot (vp_space P) res s' R" by (elim exE conjE) (rule that)
  show "effect env (\<not> well_supplied env (regions (vp_space P))) P (on_space (mprotect_space env P rng prot) P)"
    by (rule effect_space [where f = "mprotect_space env P rng prot", OF m(1) mprotect_outcome_good [OF m(2) x]]) (use m(2) in \<open>auto simp: mprotect_outcome_def\<close>)
qed

lemma find_from_range_mem: "find_region_from_range s rng = Some r \<Longrightarrow> r \<in> set (regions s)"
  by (auto simp: find_region_from_range_def find_region_def find_Some_iff split: option.splits sum.splits if_splits)

lemma sys_madvise_effect:
  assumes "space_inv env (vp_space P)" "\<forall>v b. fails_cleanly (set_volatile v b)"
  shows "effect env C P (sys_madvise env mem set_volatile addr n advice P)"
  unfolding sys_madvise_def
  by (intro effect_rules assms(1) expand_clean) (use assms in \<open>auto split: option.split intro!: effect_rules effect_refl\<close>)

lemma sys_set_mmap_name_effect:
  assumes "space_inv env (vp_space P)" "fails_cleanly user_params"
  shows "effect env C P (sys_set_mmap_name mem user_params P)"
proof -
  have "effect env C P (on_space (\<lambda>s. (Inr 0, with_regions (update_region (vaddr r) (\<lambda>r. r\<lparr>m_name := Some name\<rparr>)) s)) P)"
    if "find_region_from_range (vp_space P) rng = Some r" "\<not> m_immutable r" for rng r name
    by (rule effect_space, rule refl, rule update_good)
      (use that assms(1) find_from_range_mem [OF that(1)] space_region(2) [OF assms(1), of r] in \<open>simp_all add: region_ok_def\<close>)
  then show ?thesis unfolding sys_set_mmap_name_def split_def
    by (intro effect_rules assms expand_clean) (auto split: option.split intro!: effect_rules assms(1))
qed

lemma find_containing_mem: "find_region_containing t rng = Some r \<Longrightarrow> r \<in> set (m_regions t)"
  by (auto simp: find_region_containing_def find_largest_not_above_def find_Some_iff split: option.splits if_splits)
    (metis nth_mem set_rev length_rev)

lemma sys_annotate_mapping_effect:
  assumes "space_inv env (vp_space P)"
  shows "effect env C P (sys_annotate_mapping env addr flags P)"
proof -
  have "effect env C P (on_space (\<lambda>s. (Inr 0, with_regions (update_region (vaddr r) (\<lambda>r.
      let r = (if flags AND 1 \<noteq> 0 then r\<lparr>m_syscall_region := True\<rparr> else r) in if flags AND 2 \<noteq> 0 then r\<lparr>m_immutable := True\<rparr> else r)) s)) P)"
    if "find_region_containing (m_region_tree (vp_space P)) rng = Some r" "\<not> m_immutable r" for rng r
    by (rule effect_space, rule refl, rule update_good)
      (use that assms find_containing_mem [OF that(1)] space_region(2) [OF assms, of r] in \<open>simp_all add: region_ok_def Let_def\<close>)
  then show ?thesis unfolding sys_annotate_mapping_def by (auto split: option.split intro!: effect_rules assms)
qed

lemma flags_roundtrip: "a AND 7 = a \<Longrightarrow> prot_to_region_access_flags (region_access_flags_to_prot a) = a"
proof -
  assume a: "a AND 7 = a"
  have "bit (prot_to_region_access_flags (region_access_flags_to_prot a)) n = bit a n" for n
  proof (cases "n < 3")
    case True
    then have "n = 0 \<or> n = 1 \<or> n = 2" by linarith
    then show ?thesis using flags_bits [of "region_access_flags_to_prot a"]
      by (elim disjE) (auto simp: prot_has_iff region_access_flags_to_prot_def Let_def and_bits)
  next
    case False
    then show ?thesis using a access_flags_ok low_bits by blast
  qed
  then show ?thesis by (simp add: word_bits_eq)
qed

lemma remove_unmapped:
  assumes "space_inv env s" "r \<in> set (regions s)" "m_mmap r" "\<not> m_immutable r"
  shows "unmapped env s (with_regions (remove_region (vaddr r)) s) (addresses (m_range r))"
  using space_remove [OF assms(1)] view_remove [OF space_regions_ok [OF assms(1)] assms(2)] view_mem [OF space_regions_ok [OF assms(1)] assms(2)] assms(3,4)
  by (auto simp: unmapped_def fun_eq_iff restrict_map_def)

lemma mremap_private_ok:
  assumes "space_inv env s" "r \<in> set (regions s)" "m_mmap r" "\<not> m_immutable r"
    and "case private_vmobject (m_vmobject r) of Inl e \<Rightarrow> (\<exists>x. e = Errno x) | Inr w \<Rightarrow> vm_ok w \<and> \<not> is_shared_inode w"
  shows "\<exists>res s'. mremap_private env private_vmobject r s = (res, s') \<and> good_step env P s s' \<and> (\<forall>e. res = Inl e \<longrightarrow> (\<exists>x. e = Errno x) \<or> m_name r = None)"
proof (cases "private_vmobject (m_vmobject r)")
  case (Inl e)
  then show ?thesis using assms(5) good_refl [OF assms(1)] by (intro exI [of _ "Inl e"] exI [of _ s]) (auto simp: mremap_private_def)
next
  case (Inr w)
  then have w: "vm_ok w" "is_shared_inode w \<longrightarrow> False" using assms(5) by simp_all
  let ?s1 = "with_regions (remove_region (vaddr r)) s"
  have u: "unmapped env s ?s1 (addresses (m_range r))" by (rule remove_unmapped [OF assms(1-4)])
  have g: "good_step env P s ?s1" by (rule unmapped_good [OF u])
  then have inv: "space_inv env ?s1" by (simp add: good_step_def)
  have dealloc: "deallocate_region r s = (Inr (), ?s1)" using take_region_eq [OF assms(1,2)] by (simp add: deallocate_region_def)
  show ?thesis
  proof (cases "m_name r")
    case None
    then show ?thesis using g dealloc Inr by (intro exI [of _ "Inl Verification_failed"] exI [of _ ?s1]) (simp add: mremap_private_def)
  next
    case (Some name)
    let ?prot = "region_access_flags_to_prot (m_access r)"
    let ?alloc = "allocate_region_with_vmobject env True (vaddr r) (vsize (m_range r)) PAGE_SIZE w (m_offset_in_vmobject r) (Some name) ?prot False Normal_memory ?s1"
    let ?fresh = "\<lambda>rng. fresh_region w (m_offset_in_vmobject r) (Some name) ?prot Normal_memory False rng"
    let ?set = "set_mmap True (m_mmapped_from_readable r) (m_mmapped_from_writable r)"
    have eq: "mremap_private env private_vmobject r s = tryS ?alloc (\<lambda>q s. (Inr (vaddr q), with_regions (update_region (vaddr q) ?set) s))"
      using Inr dealloc Some by (simp add: mremap_private_def)
    have b: "vaddr r < 2 ^ 64" "0 < vsize (m_range r)" using space_region(1) [OF assms(1,2)] by (auto simp: proper_def)
    have pos: "0 < PAGE_SIZE" by simp
    from allocate_region_with_vmobject_ok [OF inv w b pos, of True "m_offset_in_vmobject r" "Some name" ?prot Normal_memory] show ?thesis
    proof (elim disjE exE conjE)
      fix e assume "?alloc = (Inl (Errno e), ?s1)"
      then show ?thesis unfolding eq using g by (intro exI [of _ "Inl (Errno e)"] exI [of _ ?s1]) simp
    next
      fix rng t
      assume a: "?alloc = (Inr (attached (?fresh rng)), t)" "t = with_regions (insert_region (attached (?fresh rng))) ?s1" "space_free ?s1 rng" "region_ok (?fresh rng)"
        "page_round_up (vsize (m_range r)) = Inr (vsize rng)" "vaddr r \<noteq> 0 \<longrightarrow> vbase rng = vaddr r"
      let ?q = "?set (attached (?fresh rng))"
      have simps: "m_range ?q = rng" "m_access ?q = m_access r" "region_ok ?q"
        using a(4) flags_roundtrip [of "m_access r"] space_region(2) [OF assms(1,2)] by (auto simp: set_mmap_def attached_def region_ok_def)
      have wx: "wx_free s \<longrightarrow> \<not> (is_writable ?q \<and> is_executable ?q)"
        using view_mem [OF space_regions_ok [OF assms(1)] assms(2) vbase_mem [OF space_region(1) [OF assms(1,2)]]] writable_page [of r] simps(2)
        unfolding wx_free_def is_writable_def is_executable_def by metis
      have rng: "rng = m_range r"
      proof -
        have "USER_RANGE_BASE \<le> vaddr r" "proper (m_range r)" using space_region [OF assms(1,2)] by simp_all
        then have "vaddr r \<noteq> 0" "vsize rng = vsize (m_range r)" using a(5) page_round_up_aligned [of "vsize (m_range r)"]
          by (auto simp: USER_RANGE_BASE_def proper_def)
        then show ?thesis using a(6) by (metis range_eta)
      qed
      have "executable_at s a" if "is_executable ?q" "a \<in> addresses (m_range ?q)" for a
        using view_mem [OF space_regions_ok [OF assms(1)] assms(2), of a] that simps(1,2) rng by (auto simp: executable_at_def is_executable_def)
      then have "good_step env P s (with_regions (insert_region ?q) ?s1)" using good_insert [OF g, of ?q] simps wx a(3) by simp
      moreover have "with_regions (update_region (vbase rng) ?set) t = with_regions (insert_region ?q) ?s1"
        using update_inserted [OF inv, of "attached (?fresh rng)" ?set] a(2,3) simps(1) by simp
      ultimately show ?thesis unfolding eq using a(1)
        by (intro exI [of _ "Inr (vbase rng)"] exI [of _ "with_regions (insert_region ?q) ?s1"]) simp
    qed
  qed
qed

lemma sys_mremap_effect:
  assumes "space_inv env (vp_space P)" "fails_cleanly user_params"
    and "\<forall>v. case private_vmobject v of Inl e \<Rightarrow> (\<exists>x. e = Errno x) | Inr w \<Rightarrow> vm_ok w \<and> \<not> is_shared_inode w"
  shows "effect env (\<exists>r \<in> set (regions (vp_space P)). is_shared_inode (m_vmobject r) \<and> m_name r = None) P (sys_mremap env mem private_vmobject user_params P)"
    (is "effect env ?C P _")
proof -
  have "effect env ?C P (on_space (mremap_private env private_vmobject r) P)"
    if "find_region_from_range (vp_space P) rng = Some r" "\<not> m_immutable r" "m_mmap r" "is_shared_inode (m_vmobject r)" for rng r
  proof -
    have r: "r \<in> set (regions (vp_space P))" by (rule find_from_range_mem [OF that(1)])
    from mremap_private_ok [OF assms(1) r that(3,2), of private_vmobject P] assms(3) obtain res s' where
      "mremap_private env private_vmobject r (vp_space P) = (res, s')" "good_step env P (vp_space P) s'" "\<forall>e. res = Inl e \<longrightarrow> (\<exists>x. e = Errno x) \<or> m_name r = None"
      by auto
    then show ?thesis using r that(4) by (intro effect_space [where f = "mremap_private env private_vmobject r"]) auto
  qed
  then show ?thesis unfolding sys_mremap_def split_def
    by (intro effect_rules assms expand_clean) (auto split: option.split intro!: effect_rules assms(1))
qed

definition descriptions_ok :: "(int \<Rightarrow> description kresult) \<Rightarrow> bool" where
  "descriptions_ok descriptions \<longleftrightarrow> (\<forall>fd. case descriptions fd of Inl e \<Rightarrow> (\<exists>x. e = Errno x) | Inr d \<Rightarrow> description_ok d)"

lemma page_round_up_facts: "page_round_up x = Inr y \<Longrightarrow> x \<le> y \<and> y < 2 ^ 64 \<and> PAGE_SIZE dvd y"
  by (cases x rule: page_round_up_cases) (auto simp: page_round_up_def split: if_splits)

lemma try_create_ok:
  assumes "PAGE_SIZE dvd n" "n < 2 ^ 64"
  shows "case try_create_with_size env n strategy of Inl e \<Rightarrow> (\<exists>x. e = Errno x) | Inr v \<Rightarrow> vm_ok v \<and> is_anonymous v \<and> vm_size v = n"
    and "case try_create_purgeable_with_size env n strategy of Inl e \<Rightarrow> (\<exists>x. e = Errno x) | Inr v \<Rightarrow> vm_ok v \<and> is_anonymous v \<and> vm_size v = n"
proof -
  obtain k where "n = 4096 * k" using assms(1) by (auto simp: dvd_def)
  then have "(n + 4096 - 1) div 4096 * 4096 = n" by simp
  then show "case try_create_with_size env n strategy of Inl e \<Rightarrow> (\<exists>x. e = Errno x) | Inr v \<Rightarrow> vm_ok v \<and> is_anonymous v \<and> vm_size v = n"
    "case try_create_purgeable_with_size env n strategy of Inl e \<Rightarrow> (\<exists>x. e = Errno x) | Inr v \<Rightarrow> vm_ok v \<and> is_anonymous v \<and> vm_size v = n"
    using assms by (simp_all add: try_create_with_size_def try_create_purgeable_with_size_def vm_ok_def is_anonymous_def)
qed

lemma vmobject_to_map_ok:
  assumes "descriptions_ok descriptions" "PAGE_SIZE dvd n" "n < 2 ^ 64"
  shows "case vmobject_to_map env descriptions params n requested of Inl e \<Rightarrow> (\<exists>x. e = Errno x) | Inr object \<Rightarrow> object_ok (mm_flags params) (fst object)"
proof (cases "flag (mm_flags params) MAP_ANONYMOUS")
  case True
  let ?strategy = "if flag (mm_flags params) MAP_NORESERVE then Strategy_None else Strategy_Reserve"
  define made where "made = (if flag (mm_flags params) MAP_PURGEABLE then try_create_purgeable_with_size env n ?strategy else try_create_with_size env n ?strategy)"
  have "case made of Inl e \<Rightarrow> (\<exists>x. e = Errno x) | Inr v \<Rightarrow> vm_ok v \<and> is_anonymous v \<and> vm_size v = n"
    unfolding made_def using try_create_ok [OF assms(2,3), of env ?strategy] by simp
  moreover have "vmobject_to_map env descriptions params n requested = tryE made (\<lambda>v. Inr (v, Normal_memory, 0, None))"
    using True by (simp add: vmobject_to_map_def made_def Let_def)
  moreover have "is_anonymous v \<Longrightarrow> \<not> is_shared_inode v" for v by (auto simp: is_anonymous_def is_shared_inode_def)
  ultimately show ?thesis by (cases made) (auto simp: object_ok_def)
next
  case False
  have fd: "case descriptions (mm_fd params) of Inl e \<Rightarrow> (\<exists>x. e = Errno x) | Inr d \<Rightarrow> description_ok d" using assms(1) by (simp add: descriptions_ok_def)
  show ?thesis
  proof (cases "descriptions (mm_fd params)")
    case (Inl e) then show ?thesis using False fd by (auto simp: vmobject_to_map_def Let_def)
  next
    case (Inr d)
    let ?found = "vmobject_for_mmap d requested (nat (mm_offset params)) (flag (mm_flags params) MAP_SHARED)"
    let ?valid = "if fd_inode d then validate_inode_mmap_prot (mm_prot params) (fd_readable d) (fd_writable d) (flag (mm_flags params) MAP_SHARED) else Inr ()"
    have "description_ok d" using fd Inr by simp
    then have v: "case ?found of Inl e \<Rightarrow> (\<exists>x. e = Errno x) | Inr (v, _) \<Rightarrow> object_ok (mm_flags params) v"
      unfolding description_ok_def object_ok_def by (elim allE [of _ requested] allE [of _ "nat (mm_offset params)"] allE [of _ "flag (mm_flags params) MAP_SHARED"])
    define rest where "rest = tryE ?valid (\<lambda>_. tryE ?found (\<lambda>(v, memory_type). Inr (v, memory_type, nat (mm_offset params), Some d)))"
    have "fails_cleanly ?valid" using validate_clean(2) by simp
    then have "case rest of Inl e \<Rightarrow> (\<exists>x. e = Errno x) | Inr object \<Rightarrow> object_ok (mm_flags params) (fst object)"
      unfolding rest_def using v by (cases ?valid; cases ?found) auto
    moreover have "vmobject_to_map env descriptions params n requested = (if mm_offset params < 0 then Inl (Errno EINVAL)
        else if nat (mm_offset params) mod PAGE_SIZE \<noteq> 0 then Inl (Errno EINVAL)
        else if is_directory d then Inl (Errno ENODEV) else if \<not> fd_readable d then Inl (Errno EACCES)
        else if flag (mm_flags params) MAP_SHARED \<and> prot_has (mm_prot params) PROT_WRITE \<and> \<not> fd_writable d then Inl (Errno EACCES)
        else rest)"
      unfolding vmobject_to_map_def Let_def rest_def using False Inr by (simp only: if_False tryE_simps)
    ultimately show ?thesis by simp
  qed
qed

lemma mmap_space_ok:
  assumes "space_inv env s" "descriptions_ok descriptions" "mm_addr params < 2 ^ 64" "mm_size params < 2 ^ 64" "mm_size params \<noteq> 0"
    and "page_round_up (mm_size params) = Inr (vsize requested)" "vbase requested < 2 ^ 64" "0 < alignment"
    and "vmobject_to_map env descriptions params (vsize requested) requested = Inr object"
  shows "\<exists>res s1 s' G. map_into_space env params alignment requested object s = (res, s') \<and> mmap_outcome env params requested object s res s1 s' G"
proof -
  note n = page_round_up_facts [OF assms(6)]
  have "object_ok (mm_flags params) (fst object)" using vmobject_to_map_ok [OF assms(2), where n = "vsize requested" and env = env and params = params and requested = requested] n assms(9) by simp
  then show ?thesis using map_into_space_ok [OF assms(1) _ assms(3,4,7) _ _ assms(8)] n assms(5) page_round_up_aligned [of "vsize requested"] by simp
qed

lemma requested_range_simps [simp]:
  "vsize (requested_range_of params n) = n" "vbase (requested_range_of params n) \<le> mm_addr params"
  by (simp_all add: requested_range_of_def)

lemma sys_mmap_effect:
  assumes "space_inv env (vp_space P)" "descriptions_ok descriptions" "fails_cleanly user_params"
    and "\<And>params. user_params = Inr params \<Longrightarrow> mm_addr params < 2 ^ 64 \<and> mm_size params < 2 ^ 64"
  shows "effect env C P (sys_mmap env mem descriptions user_params P)"
proof -
  have mapping: "effect env C P (on_space (map_into_space env params alignment requested object) P)"
    if "user_params = Inr params" "mm_size params \<noteq> 0" "page_round_up (mm_size params) = Inr (vsize requested)" "vbase requested < 2 ^ 64" "0 < alignment"
      "vmobject_to_map env descriptions params (vsize requested) requested = Inr object"
      "validate_mmap_prot P (mm_prot params) a b None = Inr u"
      "prot_has (mm_prot params) PROT_EXEC \<longrightarrow> \<not> has_promises (vp_process P) \<or> has_promised (vp_process P) Pledge_prot_exec" for params requested alignment object a b u
  proof -
    have "\<exists>res s1 s' G. map_into_space env params alignment requested object (vp_space P) = (res, s') \<and> mmap_outcome env params requested object (vp_space P) res s1 s' G"
      by (rule mmap_space_ok [OF assms(1,2) _ _ that(2-6)]) (use assms(4) [OF that(1)] in simp_all)
    then obtain res s1 s' G where m: "map_into_space env params alignment requested object (vp_space P) = (res, s')"
      "mmap_outcome env params requested object (vp_space P) res s1 s' G" by (elim exE conjE) (rule that)
    have "good_step env P (vp_space P) s'" by (rule mmap_outcome_good [OF m(2)]) (use validate_wx [OF that(7)] that(8) in \<open>auto simp: no_exec_def\<close>)
    then show ?thesis by (rule effect_space [where f = "map_into_space env params alignment requested object", OF m(1)]) (use m(2) in \<open>auto simp: mmap_outcome_def\<close>)
  qed
  have clean: "fails_cleanly (vmobject_to_map env descriptions params n requested)" if "page_round_up k = Inr n" for params k n requested
    using vmobject_to_map_ok [OF assms(2), where n = n and env = env and params = params and requested = requested] page_round_up_facts [OF that] by (auto split: sum.splits)
  show ?thesis unfolding sys_mmap_def Let_def
    by (intro effect_rules assms(1,3) page_round_up_clean validate_clean(1) clean mapping)
      (use assms(4) le_less_trans [OF requested_range_simps(2)] in auto)
qed

end
