(* ===== verification/Exec_Space.thy ===== *)
theory Exec_Space
  imports Exec_Facts Mmap_Calls
begin

text \<open>
  Loading a program into an address space: the regions the loader asks for are made by the operations of
  \<^verbatim>\<open>AddressSpace\<close>. Whether a copy into user memory succeeds is an argument.
\<close>

section \<open>Making the regions of a program\<close>

definition prot_bits :: "protection \<Rightarrow> prot" where
  "prot_bits p = (if prot_read p then PROT_READ else 0) OR (if prot_write p then PROT_WRITE else 0) OR (if prot_exec p then PROT_EXEC else 0)"

definition data_name :: "string \<Rightarrow> protection \<Rightarrow> string" where
  "data_name elf_name p = elf_name @ '' (data-'' @ (if prot_read p then ''r'' else []) @ (if prot_write p then ''w'' else []) @ '')''"

definition place_region ::
  "vm_env \<Rightarrow> (nat \<Rightarrow> nat \<Rightarrow> unit kresult) \<Rightarrow> vmobject \<Rightarrow> string \<Rightarrow> region_request \<Rightarrow> address_space \<Rightarrow> (nat \<times> address_space) kresult" where
  "place_region env copy_to_user vmobject elf_name request s =
     (case request of
        Copy_region range_base n prot page_offset start size_in_image \<Rightarrow>
          (case allocate_region env True range_base n PAGE_SIZE (Some (data_name elf_name prot)) (prot_bits prot) Strategy_Reserve s of
             (Inl e, s) \<Rightarrow> Inl e
           | (Inr region, s) \<Rightarrow> tryE (copy_to_user (size_add (vaddr region) page_offset) size_in_image) (\<lambda>_. Inr (vaddr region, s)))
      | Map_region range_base n alignment offset prot should_allow_syscalls \<Rightarrow>
          (case allocate_region_with_vmobject env True range_base n alignment vmobject offset (Some elf_name) (prot_bits prot) True Normal_memory s of
             (Inl e, s) \<Rightarrow> Inl e
           | (Inr region, s) \<Rightarrow>
               Inr (vaddr region, with_regions (update_region (vaddr region) (\<lambda>r.
                 let r = (if prot_exec prot then r\<lparr>m_initially_loaded_executable_segment := True\<rparr> else r)
                 in if should_allow_syscalls then r\<lparr>m_syscall_region := True\<rparr> else r)) s))
      | Stack_region n prot \<Rightarrow>
          (case allocate_region env True 0 n PAGE_SIZE (Some ''Stack (Main thread)'') (prot_bits prot) Strategy_Reserve s of
             (Inl e, s) \<Rightarrow> Inl e
           | (Inr region, s) \<Rightarrow> Inr (vaddr region, with_regions (update_region (vaddr region) (\<lambda>r. r\<lparr>m_stack := True\<rparr>)) s)))"

section \<open>What making a region does\<close>

lemma place_nothing: "place env r randomize b 0 alignment s \<noteq> (Inr q, s')"
  by (auto simp: place_def place_anywhere_def place_specifically_def allocate_range_randomized_def allocate_range_anywhere_def
      allocate_range_specific_def tryE_def split: if_splits)

lemma attached_access [simp]: "m_access (attached r) = m_access r"
  by (simp add: attached_def)

lemma allocate_region_Inr:
  assumes "space_inv env s" "b < 2 ^ 64" "allocate_region env randomize b n PAGE_SIZE name prot strategy s = (Inr r, s')"
  shows "space_free s (m_range r) \<and> region_ok r \<and> m_access r = prot_to_region_access_flags prot \<and> s' = with_regions (insert_region r) s"
proof -
  have b: "PAGE_SIZE dvd b" using assms(3) by (auto simp: allocate_region_def dvd_eq_mod_eq_0 split: if_splits)
  have al: "page_round_up PAGE_SIZE = Inr PAGE_SIZE" by (rule page_round_up_aligned) simp_all
  obtain m v where m: "page_round_up n = Inr m" "try_create_with_size env m strategy = Inr v"
    using assms(3) b al by (auto simp: allocate_region_def dvd_eq_mod_eq_0 tryS_Inr_iff)
  note mf = page_round_up_facts [OF m(1)]
  have v: "vm_ok v" "is_anonymous v" "vm_size v = m" using try_create_ok(1) [of m env strategy] mf m(2) by simp_all
  let ?r = "create_unplaced v 0 name (prot_to_region_access_flags prot) Normal_memory False"
  let ?rest = "\<lambda>r s. tryS (Region_map env r, s) (\<lambda>(r, mapped) s.
    if mapped then (Inr r, with_regions (update_region (vaddr r) (\<lambda>_. r)) s) else (Inl Verification_failed, s))"
  have eq: "tryS (place env ?r randomize b m PAGE_SIZE s) ?rest = (Inr r, s')"
    using assms(3) b al m by (simp add: allocate_region_def dvd_eq_mod_eq_0 Let_def)
  then have "place env ?r randomize b m PAGE_SIZE s \<noteq> (Inl e, t)" for e t by auto
  then have "m \<noteq> 0" using place_nothing [of env ?r randomize b PAGE_SIZE s] by (metis old.sum.exhaust prod.collapse)
  then have adm: "admissible_size m PAGE_SIZE" using mf by (simp add: admissible_size_def)
  obtain rng where p: "place env ?r randomize b m PAGE_SIZE s = (Inr (?r\<lparr>m_range := rng\<rparr>), with_regions (insert_region (?r\<lparr>m_range := rng\<rparr>)) s)"
    "space_free s rng" "vsize rng = m" using place_ok [OF assms(1) b assms(2) adm, of ?r randomize] eq by auto
  let ?q = "?r\<lparr>m_range := rng\<rparr>"
  have ok: "region_ok ?q" using v p(3) access_flags_ok [of prot] mf
    by (auto simp: region_ok_def create_unplaced_def vm_ok_def is_anonymous_def is_shared_inode_def)
  have inv: "space_inv env (with_regions (insert_region ?q) s)" using space_insert [OF assms(1) _ ok] p(2) by simp
  obtain c where "Region_map env ?q = Inr (attached ?q, c)" using Region_map_total [OF inv, of ?q] by (auto simp: attached_def)
  then have "r = attached ?q" "s' = with_regions (update_region (vbase rng) (\<lambda>_. attached ?q)) (with_regions (insert_region ?q) s)"
    using eq p(1) by (auto split: if_splits)
  moreover have "m_access (attached ?q) = prot_to_region_access_flags prot" by (simp add: attached_def create_unplaced_def)
  ultimately show ?thesis using p(2) ok update_inserted [OF assms(1), of ?q "\<lambda>_. attached ?q"] by simp
qed

lemma allocate_with_vmobject_Inr:
  assumes "space_inv env s" "vm_ok v" "b < 2 ^ 64" "0 < alignment"
    and "allocate_region_with_vmobject env randomize b n alignment v offset name prot True memory_type s = (Inr r, s')"
  shows "space_free s (m_range r) \<and> region_ok r \<and> m_access r = prot_to_region_access_flags prot \<and> s' = with_regions (insert_region r) s"
proof (cases "n = 0")
  case True
  then show ?thesis using assms(5) place_nothing
    by (auto simp: allocate_region_with_vmobject_def tryS_Inr_iff page_round_up_def split: if_splits)
next
  case False
  then show ?thesis using allocate_region_with_vmobject_ok [OF assms(1,2) _ assms(3) _ assms(4), of True n randomize offset name prot memory_type] assms(5) by auto
qed

text \<open>A request the loader may make: the base is an address, the alignment is not zero, and nothing is writable and
  executable.\<close>

fun request_ok :: "region_request \<Rightarrow> bool" where
  "request_ok (Copy_region b n prot page_offset start filesz) \<longleftrightarrow> b < 2 ^ 64 \<and> \<not> (prot_write prot \<and> prot_exec prot)"
| "request_ok (Map_region b n alignment offset prot syscalls) \<longleftrightarrow> b < 2 ^ 64 \<and> 0 < alignment \<and> \<not> (prot_write prot \<and> prot_exec prot)"
| "request_ok (Stack_region n prot) \<longleftrightarrow> \<not> (prot_write prot \<and> prot_exec prot)"

fun request_prot :: "region_request \<Rightarrow> protection" where
  "request_prot (Copy_region _ _ prot _ _ _) = prot"
| "request_prot (Map_region _ _ _ _ prot _) = prot"
| "request_prot (Stack_region _ prot) = prot"

lemma prot_bits_has: "prot_has (prot_bits p) PROT_WRITE \<longleftrightarrow> prot_write p" "prot_has (prot_bits p) PROT_EXEC \<longleftrightarrow> prot_exec p"
  by (simp_all add: prot_has_def prot_bits_def)

lemma request_wx:
  assumes "m_access q = prot_to_region_access_flags (prot_bits p)"
  shows "is_writable q \<longleftrightarrow> prot_write p" "is_executable q \<longleftrightarrow> prot_exec p"
  using flags_bits [of "prot_bits p"] assms by (simp_all add: writable_iff prot_bits_has)

lemma place_region_Inr:
  assumes "space_inv env s" "vm_ok v" "request_ok request" "place_region env copy_to_user v elf_name request s = Inr (a, s')"
  shows "\<exists>q. space_free s (m_range q) \<and> region_ok q \<and> s' = with_regions (insert_region q) s \<and> a = vaddr q \<and>
    (is_writable q \<longleftrightarrow> prot_write (request_prot request)) \<and> (is_executable q \<longleftrightarrow> prot_exec (request_prot request)) \<and>
    ((\<exists>n prot. request = Stack_region n prot) \<longrightarrow> m_stack q)"
proof (cases request)
  case (Copy_region b n prot page_offset start filesz)
  then obtain r t where r: "allocate_region env True b n PAGE_SIZE (Some (data_name elf_name prot)) (prot_bits prot) Strategy_Reserve s = (Inr r, t)"
    "a = vaddr r" "s' = t" using assms(4) by (auto simp: place_region_def tryE_Inr_iff split: sum.splits prod.splits)
  have "b < 2 ^ 64" using assms(3) Copy_region by simp
  from allocate_region_Inr [OF assms(1) this r(1)] show ?thesis using Copy_region r(2,3) request_wx [of r prot] by (intro exI [of _ r]) simp
next
  case (Stack_region n prot)
  then obtain r t where r: "allocate_region env True 0 n PAGE_SIZE (Some ''Stack (Main thread)'') (prot_bits prot) Strategy_Reserve s = (Inr r, t)"
    "a = vaddr r" "s' = with_regions (update_region (vaddr r) (\<lambda>r. r\<lparr>m_stack := True\<rparr>)) t"
    using assms(4) by (auto simp: place_region_def split: sum.splits prod.splits)
  from allocate_region_Inr [OF assms(1) _ r(1)] have f: "space_free s (m_range r)" "region_ok r" "m_access r = prot_to_region_access_flags (prot_bits prot)"
    "t = with_regions (insert_region r) s" by simp_all
  let ?q = "r\<lparr>m_stack := True\<rparr>"
  have "s' = with_regions (insert_region ?q) s" using update_inserted [OF assms(1) f(1), of "\<lambda>r. r\<lparr>m_stack := True\<rparr>"] r(3) f(4) by simp
  then show ?thesis using Stack_region r(2) f request_wx [of ?q prot] by (intro exI [of _ ?q]) (simp add: region_ok_def)
next
  case (Map_region b n alignment offset prot syscalls)
  let ?f = "\<lambda>r. let r = (if prot_exec prot then r\<lparr>m_initially_loaded_executable_segment := True\<rparr> else r)
                 in if syscalls then r\<lparr>m_syscall_region := True\<rparr> else r"
  obtain r t where r: "allocate_region_with_vmobject env True b n alignment v offset (Some elf_name) (prot_bits prot) True Normal_memory s = (Inr r, t)"
    "a = vaddr r" "s' = with_regions (update_region (vaddr r) ?f) t"
    using assms(4) Map_region by (auto simp: place_region_def split: sum.splits prod.splits)
  have ok: "b < 2 ^ 64" "0 < alignment" using assms(3) Map_region by simp_all
  from allocate_with_vmobject_Inr [OF assms(1,2) ok r(1)] have f: "space_free s (m_range r)" "region_ok r"
    "m_access r = prot_to_region_access_flags (prot_bits prot)" "t = with_regions (insert_region r) s" by simp_all
  have q: "m_range (?f r) = m_range r" "m_access (?f r) = m_access r" "region_ok (?f r)" using f(2) by (simp_all add: Let_def region_ok_def)
  have "s' = with_regions (insert_region (?f r)) s" using update_inserted [OF assms(1) f(1), of ?f] q(1) r(3) f(4) by simp
  then show ?thesis using Map_region r(2) f q request_wx [of "?f r" prot] by (intro exI [of _ "?f r"]) (simp del: Let_def)
qed

section \<open>Loading\<close>

definition grown :: "vm_env \<Rightarrow> address_space \<Rightarrow> address_space \<Rightarrow> bool" where
  "grown env s s' \<longleftrightarrow> space_inv env s' \<and> (wx_free s \<longrightarrow> wx_free s') \<and> view (regions s) \<subseteq>\<^sub>m view (regions s')"

lemma grown_refl: "space_inv env s \<Longrightarrow> grown env s s"
  by (simp add: grown_def)

lemma grown_trans: "grown env s t \<Longrightarrow> grown env t u \<Longrightarrow> grown env s u"
  using map_le_trans by (auto simp: grown_def)

lemma grown_insert:
  assumes "space_inv env s" "space_free s (m_range q)" "region_ok q" "\<not> (is_writable q \<and> is_executable q)"
  shows "grown env s (with_regions (insert_region q) s)"
proof -
  have v: "view (insert_region q (regions s)) a = (if a \<in> addresses (m_range q) then Some (page_of q a) else view (regions s) a)" for a
    by (rule view_insert [OF space_regions_ok [OF assms(1)]]) (use assms(2) in simp)
  have n: "view (regions s) a = None" if "a \<in> addresses (m_range q)" for a
    using assms(2) that by (auto simp: view_None free_range_def)
  have "view (regions s) \<subseteq>\<^sub>m view (insert_region q (regions s))" using v n by (auto simp: map_le_def)
  moreover have "wx_free (with_regions (insert_region q) s)" if "wx_free s" using that assms(4) v by (auto simp: wx_free_def split: if_splits)
  ultimately show ?thesis using space_insert [OF assms(1-3)] by (simp add: grown_def)
qed

lemma place_grown:
  assumes "space_inv env s" "vm_ok v" "request_ok request" "place_region env copy_to_user v elf_name request s = Inr (a, s')"
  shows "grown env s s'"
proof -
  obtain q where q: "space_free s (m_range q)" "region_ok q" "s' = with_regions (insert_region q) s"
    "is_writable q \<longleftrightarrow> prot_write (request_prot request)" "is_executable q \<longleftrightarrow> prot_exec (request_prot request)"
    using place_region_Inr [OF assms] by (elim exE conjE) (rule that)
  then show ?thesis using grown_insert [OF assms(1) q(1,2)] assms(3) by (cases request) simp_all
qed

lemma segment_base: "segment_range load_offset ph = Inr (b, n) \<Longrightarrow> b < 2 ^ 64"
proof -
  assume "segment_range load_offset ph = Inr (b, n)"
  then have "b = page_round_down (size_add (p_vaddr ph) load_offset)" by (auto simp: segment_range_def Let_def tryE_Inr_iff)
  moreover have "size_add (p_vaddr ph) load_offset < 2 ^ 64" by (simp add: size_add_def)
  ultimately show ?thesis using page_round_down_ok(2) le_less_trans by blast
qed

lemma section_request_ok:
  assumes "section_request img load_offset allow ph = Inr (Some request)" "p_type ph = PT_LOAD \<longrightarrow> 0 < p_align ph"
  shows "request_ok request"
  using assms segment_base [of load_offset ph]
  by (auto simp: section_request_def writable_section_request_def tryE_Inr_iff verifyE_Inr_iff split: if_splits)

lemma load_sections_grown:
  assumes "load_sections (place_region env copy_to_user v elf_name) img load_offset allow phs (base, s) = Inr (base', s')"
    and "space_inv env s" "vm_ok v" "\<forall>ph \<in> set phs. p_type ph = PT_LOAD \<longrightarrow> 0 < p_align ph"
  shows "grown env s s'"
  using assms
proof (induction phs arbitrary: base s)
  case Nil then show ?case by (simp add: grown_refl)
next
  case (Cons ph phs)
  obtain request where r: "section_request img load_offset allow ph = Inr request" using Cons.prems(1) by (auto simp: tryE_Inr_iff)
  show ?case
  proof (cases request)
    case None
    then show ?thesis using Cons.IH [OF _ Cons.prems(2,3)] Cons.prems(1,4) r by auto
  next
    case (Some req)
    obtain a t where p: "place_region env copy_to_user v elf_name req s = Inr (a, t)"
      "\<exists>base. load_sections (place_region env copy_to_user v elf_name) img load_offset allow phs (base, t) = Inr (base', s')"
      using Cons.prems(1) r Some by (auto simp: tryE_Inr_iff)
    have "request_ok req" using section_request_ok [of img load_offset allow ph req] r Some Cons.prems(4) by simp
    then have g: "grown env s t" using place_grown [OF Cons.prems(2,3) _ p(1)] by simp
    then have "space_inv env t" by (simp add: grown_def)
    then show ?thesis using Cons.IH [OF _ _ Cons.prems(3)] p(2) Cons.prems(4) grown_trans [OF g] by auto
  qed
qed

lemma load_elf_object_ok:
  assumes "space_inv env s" "vm_ok v" "length (f_bytes f) < 2 ^ 32" "e_type (Ehdr_at (f_bytes f)) \<noteq> ET_CORE"
    and "load_elf_object (place_region env copy_to_user v elf_name) sm f load_offset allow minimum s = Inr (res, s')"
  shows "grown env s s' \<and> (\<exists>p. view (regions s') (stack_base res) = Some p \<and> m_stack p \<and> is_writable p \<and> \<not> is_executable p)"
proof -
  obtain img where img: "Image_parse sm (f_bytes f) = Inr img" "m_buffer img = f_bytes f" "m_valid img \<longrightarrow> image_wf img \<and>
      (\<forall>ph \<in> set (headers_of (Ehdr_at (f_bytes f)) (f_bytes f)). segment_promises (Ehdr_at (f_bytes f)) (length (f_bytes f)) ph)"
    using Image_parse_ok [OF assms(3), of sm] by blast
  have valid: "m_valid img" using assms(5) img(1) by (auto simp: load_elf_object_def tryE_Inr_iff split: if_splits)
  have hs: "image_program_headers img = Inr (headers_of (Ehdr_at (f_bytes f)) (f_bytes f))" using image_program_headers_eq [of img] img valid by simp
  let ?prot = "\<lparr>prot_read = True, prot_write = True, prot_exec = False\<rparr>"
  obtain n base t u where l: "load_sections (place_region env copy_to_user v elf_name) img load_offset allow (headers_of (Ehdr_at (f_bytes f)) (f_bytes f)) (0, s) = Inr (base, t)"
    "place_region env copy_to_user v elf_name (Stack_region n ?prot) t = Inr (stack_base res, s')"
    using assms(5) img(1) valid hs by (auto simp: load_elf_object_def tryE_Inr_iff Let_def split: if_splits)
  have "\<forall>ph \<in> set (headers_of (Ehdr_at (f_bytes f)) (f_bytes f)). p_type ph = PT_LOAD \<longrightarrow> 0 < p_align ph"
    using img(3) valid assms(4) by (auto simp: segment_promises_def)
  from load_sections_grown [OF l(1) assms(1,2) this] have g: "grown env s t" .
  then have inv: "space_inv env t" by (simp add: grown_def)
  have "request_ok (Stack_region n ?prot)" by simp
  note stack = place_grown [OF inv assms(2) this l(2)] and made = place_region_Inr [OF inv assms(2) this l(2)]
  from made obtain q where q: "space_free t (m_range q)" "region_ok q" "s' = with_regions (insert_region q) t" "stack_base res = vaddr q"
    "is_writable q" "\<not> is_executable q" "m_stack q" by auto
  have "proper (m_range q)" using q(1) by (simp add: free_range_def)
  then have "view (regions s') (vaddr q) = Some (page_of q (vaddr q))"
    using view_insert [OF space_regions_ok [OF inv], of q "vaddr q"] vbase_mem [of "m_range q"] q(1,3) by simp
  moreover have "m_stack (page_of q (vaddr q))" using q(7) by (simp add: page_of_def)
  ultimately show ?thesis using grown_trans [OF g stack] q(4-6) by simp
qed

section \<open>New address spaces\<close>

text \<open>Where the kernel may be mapped: page-aligned, and with room for a process below.\<close>

definition kernel_base_ok :: "nat \<Rightarrow> bool" where
  "kernel_base_ok K \<longleftrightarrow> PAGE_SIZE dvd K \<and> 0x3000000 \<le> K \<and> K < 2 ^ 64"

lemma try_create_space:
  assumes "kernel_base_ok (kernel_mapping_base env)" "AddressSpace_try_create env available random None = Inr s"
  shows "space_inv env s \<and> wx_free s \<and> regions s = []"
proof -
  let ?K = "kernel_mapping_base env"
  let ?o = "page_round_down (unat random mod 2 * (1024 * 1024))"
  note o = page_round_down_ok [of "unat random mod 2 * (1024 * 1024)"]
  have small: "?o \<le> 0x100000" using o(2) by (rule order_trans) (simp add: Suc_leI)
  have K: "PAGE_SIZE dvd ?K" "0x3000000 \<le> ?K" "?K < 2 ^ 64" using assms(1) by (simp_all add: kernel_base_ok_def)
  have c: "USER_RANGE_CEILING ?K = ?K - 0x2000000" using K by (simp add: USER_RANGE_CEILING_def size_sub_eq)
  have b: "size_add USER_RANGE_BASE ?o = 0x10000 + ?o" using small by (simp add: USER_RANGE_BASE_def size_add_eq)
  let ?rng = "\<lparr>vbase = 0x10000 + ?o, vsize = ?K - 0x2000000 - (0x10000 + ?o)\<rparr>"
  have s: "s = \<lparr>m_region_tree = \<lparr>m_regions = [], m_total_range = ?rng\<rparr>, m_enforces_syscall_regions = False\<rparr>"
    using assms(2) c b K(2,3) small by (simp add: AddressSpace_try_create_def Let_def size_sub_eq split: if_splits)
  have "PAGE_SIZE dvd (0x2000000 :: nat)" "PAGE_SIZE dvd (0x10000 :: nat)" by (simp_all add: dvd_eq_mod_eq_0)
  then have "PAGE_SIZE dvd 0x10000 + ?o" "PAGE_SIZE dvd ?K - 0x2000000 - (0x10000 + ?o)" using o(1) K(1) by (intro dvd_add dvd_diff_nat; simp)+
  then have p: "proper ?rng" using K small by (simp add: proper_def)
  then have "vend ?rng = ?K - 0x2000000" using vend_eq [OF p] K(2) small by simp
  then show ?thesis using p c s by (simp add: space_inv_def tree_inv_def regions_ok_def wx_free_def view_def USER_RANGE_BASE_def)
qed

end
