(* ===== verification/Mmap_Sequences.thy ===== *)
theory Mmap_Sequences
  imports Mmap_Calls
begin

text \<open>
  The system calls on the address space as one machine: whatever calls a process makes, in whatever order and with
  whatever arguments, the address space stays well-formed, nothing becomes writable and executable, and immutable
  mappings stay. Then what the single calls do, and what they fail to do.
\<close>

section \<open>Sequences of calls\<close>

datatype vm_call =
    Mmap "mmap_params kresult"
  | Mprotect nat nat prot
  | Munmap nat nat
  | Madvise nat nat int
  | Set_mmap_name "(nat \<times> nat \<times> string) kresult"
  | Mremap "(nat \<times> nat \<times> u32) kresult"
  | Annotate_mapping nat u32

fun serve :: "kernel_context \<Rightarrow> vm_call \<Rightarrow> nat syscall" where
  "serve k (Mmap user_params) P = sys_mmap (kc_env k) (kc_mem k) (kc_descriptions k) user_params P"
| "serve k (Mprotect addr n prot) P = sys_mprotect (kc_env k) (kc_mem k) addr n prot P"
| "serve k (Munmap addr n) P = sys_munmap (kc_env k) (kc_mem k) addr n P"
| "serve k (Madvise addr n advice) P = sys_madvise (kc_env k) (kc_mem k) (kc_set_volatile k) addr n advice P"
| "serve k (Set_mmap_name user_params) P = sys_set_mmap_name (kc_mem k) user_params P"
| "serve k (Mremap user_params) P = sys_mremap (kc_env k) (kc_mem k) (kc_private k) user_params P"
| "serve k (Annotate_mapping addr flags) P = sys_annotate_mapping (kc_env k) addr flags P"

text \<open>Arguments are machine words, and copying from user memory fails with an error number.\<close>

fun call_ok :: "vm_call \<Rightarrow> bool" where
  "call_ok (Mmap user_params) \<longleftrightarrow>
     (case user_params of Inl e \<Rightarrow> e = Errno EFAULT | Inr params \<Rightarrow> mm_addr params < 2 ^ 64 \<and> mm_size params < 2 ^ 64)"
| "call_ok (Mprotect addr n prot) \<longleftrightarrow> addr < 2 ^ 64 \<and> n < 2 ^ 64"
| "call_ok (Munmap addr n) \<longleftrightarrow> addr < 2 ^ 64 \<and> n < 2 ^ 64"
| "call_ok (Madvise addr n advice) \<longleftrightarrow> addr < 2 ^ 64 \<and> n < 2 ^ 64"
| "call_ok (Set_mmap_name user_params) \<longleftrightarrow> (case user_params of Inl e \<Rightarrow> e = Errno EFAULT | Inr (addr, n, _) \<Rightarrow> addr < 2 ^ 64 \<and> n < 2 ^ 64)"
| "call_ok (Mremap user_params) \<longleftrightarrow> (case user_params of Inl e \<Rightarrow> e = Errno EFAULT | Inr (addr, n, _) \<Rightarrow> addr < 2 ^ 64 \<and> n < 2 ^ 64)"
| "call_ok (Annotate_mapping addr flags) \<longleftrightarrow> addr < 2 ^ 64"

text \<open>The states in which a call may panic: changing a protection when a page table cannot be had or a region was left
  unmapped by an earlier failure, and a remapping when a file mapping has no name.\<close>

fun may_panic :: "vm_env \<Rightarrow> address_space \<Rightarrow> vm_call \<Rightarrow> bool" where
  "may_panic env s (Mprotect _ _ _) \<longleftrightarrow> \<not> well_supplied env (regions s)"
| "may_panic env s (Mremap _) \<longleftrightarrow> (\<exists>r \<in> set (regions s). is_shared_inode (m_vmobject r) \<and> m_name r = None)"
| "may_panic env s _ \<longleftrightarrow> False"

lemma serve_effect:
  assumes "context_ok k" "call_ok c" "space_inv (kc_env k) (vp_space P)"
  shows "effect (kc_env k) (may_panic (kc_env k) (vp_space P) c) P (serve k c P)"
proof (cases c)
  case (Mmap user_params)
  have "descriptions_ok (kc_descriptions k)" using assms(1) by (simp add: context_ok_def descriptions_ok_def)
  then show ?thesis unfolding Mmap serve.simps
    by (intro sys_mmap_effect [OF assms(3)]) (use Mmap assms(2) in \<open>auto split: sum.splits\<close>)
next
  case (Mprotect addr n prot) then show ?thesis using assms(2) sys_mprotect_effect [OF assms(3)] by simp
next
  case (Munmap addr n) then show ?thesis using assms(2) sys_munmap_effect [OF assms(3)] by simp
next
  case (Madvise addr n advice) then show ?thesis using assms(1) sys_madvise_effect [OF assms(3)] by (simp add: context_ok_def)
next
  case (Set_mmap_name user_params)
  then show ?thesis using assms(2) sys_set_mmap_name_effect [OF assms(3), of user_params] by (simp split: sum.splits)
next
  case (Mremap user_params)
  then show ?thesis using assms(1,2) sys_mremap_effect [OF assms(3), of user_params] by (simp add: context_ok_def split: sum.splits)
next
  case (Annotate_mapping addr flags) then show ?thesis using sys_annotate_mapping_effect [OF assms(3)] by simp
qed

text \<open>The states a process reaches by its calls. The kernel may answer each call from a different context, the kernel
  mapping stays where it is.\<close>

inductive vm_run :: "nat \<Rightarrow> vm_process \<Rightarrow> vm_process \<Rightarrow> bool" for K where
  start: "vm_run K P P"
| call: "vm_run K P Q \<Longrightarrow> kernel_mapping_base (kc_env k) = K \<Longrightarrow> context_ok k \<Longrightarrow> call_ok c \<Longrightarrow> vm_run K P (snd (serve k c Q))"

lemma space_inv_base: "kernel_mapping_base env = kernel_mapping_base env' \<Longrightarrow> space_inv env s \<Longrightarrow> space_inv env' s"
  by (simp add: space_inv_def)

lemma vm_run_good:
  assumes "vm_run (kernel_mapping_base env) P Q" "space_inv env (vp_space P)"
  shows "good_step env P (vp_space P) (vp_space Q) \<and> vp_wxallowed Q = vp_wxallowed P \<and> same_protected (vp_process P) (vp_process Q)"
  using assms
proof (induction rule: vm_run.induct)
  case start then show ?case by (simp add: good_refl)
next
  case (call P Q k c)
  then have g: "good_step env P (vp_space P) (vp_space Q)" "vp_wxallowed Q = vp_wxallowed P" "same_protected (vp_process P) (vp_process Q)" by simp_all
  have n: "no_exec P = no_exec Q" using same_protectedD(2,3) [OF g(3)] by (simp add: no_exec_def has_promised_def)
  from g(1) have "space_inv (kc_env k) (vp_space Q)" using call.hyps(2) space_inv_base [of env "kc_env k"] by (simp add: good_step_def)
  from serve_effect [OF call.hyps(3,4) this] have "good_step (kc_env k) Q (vp_space Q) (vp_space (snd (serve k c Q)))"
    "vp_wxallowed (snd (serve k c Q)) = vp_wxallowed Q" "same_protected (vp_process Q) (vp_process (snd (serve k c Q)))" by (simp_all add: effect_def)
  moreover from this(1) have "good_step env P (vp_space Q) (vp_space (snd (serve k c Q)))"
    using call.hyps(2) g(2) n space_inv_base [of "kc_env k" env] by (simp add: good_step_def)
  ultimately show ?case using good_trans [OF g(1)] g(2,3) by (simp add: same_protected_def)
qed

section \<open>A process for the examples\<close>

definition example_env :: vm_env where
  "example_env = \<lparr>kernel_mapping_base = 0x2000000000, pte_available = (\<lambda>_. True), region_memory = (\<lambda>_. True),
     anonymous_memory = (\<lambda>_ _. True), fresh_identity = 1, vector_memory = True, vm_random = (\<lambda>_. 0)\<rparr>"

definition example_context :: kernel_context where
  "example_context = \<lparr>kc_env = example_env, kc_mem = True, kc_descriptions = (\<lambda>_. Inl (Errno EINVAL)),
     kc_set_volatile = (\<lambda>_ _. Inr False), kc_private = (\<lambda>_. Inl (Errno ENOMEM))\<rparr>"

definition example_vm :: "region list \<Rightarrow> vm_process" where
  "example_vm rs = \<lparr>vp_process = \<lparr>pid = 7, ppid = 1,
       credentials = \<lparr>uid = 100, gid = 100, euid = 100, egid = 100, suid = 100, sgid = 100, extra_gids = [], sid = 7, pgid = 7\<rparr>,
       process_group = Some 7, tty = None, dumpable = True, has_promises = False, promises = 0, has_execpromises = False,
       execpromises = 0, is_kernel_process = False, is_dead = False, scoped_process_list = None, coredump_properties = [None],
       promise_violation_pending = False\<rparr>,
     vp_space = \<lparr>m_region_tree = \<lparr>m_regions = rs, m_total_range = \<lparr>vbase = 0x10000, vsize = 0x1000000\<rparr>\<rparr>, m_enforces_syscall_regions = False\<rparr>,
     vp_axallowed = True, vp_wxallowed = False, vp_reject_transition = True\<rparr>"

definition example_region :: "nat \<Rightarrow> nat \<Rightarrow> u8 \<Rightarrow> bool \<Rightarrow> region" where
  "example_region b n access been_writable = \<lparr>m_range = \<lparr>vbase = b, vsize = n\<rparr>, m_offset_in_vmobject = 0,
     m_vmobject = \<lparr>vm_identity = b, vm_kind = Anonymous False, vm_size = n\<rparr>, m_name = None, m_access = access, m_shared = False,
     m_stack = False, m_mmap = True, m_syscall_region = False, m_mmapped_from_readable = False, m_mmapped_from_writable = False,
     m_memory_type = Normal_memory, m_immutable = False, m_initially_loaded_executable_segment = False, m_has_been_readable = True,
     m_has_been_writable = been_writable, m_has_been_executable = False, m_page_directory = True\<rparr>"

definition example_params :: "nat \<Rightarrow> prot \<Rightarrow> mmap_params" where
  "example_params n prot = \<lparr>mm_addr = 0, mm_size = n, mm_alignment = 0, mm_prot = prot, mm_flags = 0x22, mm_fd = -1, mm_offset = 0, mm_name = None\<rparr>"

text \<open>The definitions that evaluate a call on an example.\<close>

lemmas vm_eval = example_vm_def example_env_def example_params_def example_region_def gate_def require_promise_def on_space_def Let_def flag_def prot_has_def
  page_round_up_def page_round_down_def is_user_range_def is_user_address_def USER_RANGE_CEILING_def USER_RANGE_BASE_def size_add_def size_sub_def
  validate_mmap_prot_def requested_range_of_def vmobject_to_map_def try_create_with_size_def map_into_space_def
  allocate_region_with_vmobject_def addition_would_overflow_def in_range_def min_of_def max_of_def size_t_def place_def place_anywhere_def allocate_range_anywhere_def allocate_from_window_def
  contains_range_def contains_span_def vend_def round_up_to_power_of_two_def create_unplaced_def prot_to_region_access_flags_def
  insert_region_def update_region_def with_regions_def Region_map_def is_kernel_def is_shared_inode_def page_count_def map_individual_page_impl_def
  vaddr_from_page_index_def finish_mapping_def set_mmap_def verifyE_def upt_rec

lemmas vm_eval_split = sys_mprotect_def expand_range_to_page_boundaries_def expand_to_page_boundaries_def find_region_from_range_def
  find_region_def mprotect_space_def find_region_containing_def find_largest_not_above_def validate_region_prot_def is_anonymous_def
  validate_region_inode_prot_def is_inode_def protect_part_of_region_def take_region_def remove_region_def try_split_region_around_range_def
  carve_def try_allocate_split_region_def place_specifically_def allocate_range_specific_def intersects_def set_prot_def set_readable_def
  set_writable_def set_executable_def set_access_bit_def map_region_def sys_munmap_def unmap_mmap_range_def find_regions_intersecting_def
  intersect_def protect_whole_region_def Region_remap_def

lemma example_context_ok: "context_ok example_context"
  by (simp add: context_ok_def example_context_def)

lemma example_inv: "space_inv example_env (vp_space (example_vm []))"
  by (simp add: space_inv_def tree_inv_def regions_ok_def example_vm_def example_env_def proper_def vend_def size_add_def
      USER_RANGE_BASE_def USER_RANGE_CEILING_def size_sub_def)

lemma example_wx: "wx_free (vp_space (example_vm []))"
  by (simp add: wx_free_def view_def example_vm_def)

section \<open>The invariants\<close>

text \<open>\<^bold>\<open>C3.\<close> From a well-formed address space, whatever memory system calls a process makes, in whatever order, and whether
  they succeed or run out of memory half-way, the address space stays well-formed (regions in order, page-aligned,
  disjoint, inside user space and inside their memory objects), every page of an immutable mapping stays exactly as it
  is, and, unless the program is allowed it, no page is ever writable and executable at once if none is at first.\<close>

theorem memory_calls_keep_invariants:
  assumes "vm_run (kernel_mapping_base env) P Q" "space_inv env (vp_space P)"
  shows "space_inv env (vp_space Q) \<and>
    (\<forall>a p. view (regions (vp_space P)) a = Some p \<longrightarrow> m_immutable p \<longrightarrow> view (regions (vp_space Q)) a = Some p) \<and>
    (\<not> vp_wxallowed P \<longrightarrow> wx_free (vp_space P) \<longrightarrow> wx_free (vp_space Q))"
  using vm_run_good [OF assms] by (simp add: good_step_def keeps_immutable_def)

theorem memory_calls_keep_invariants_witness:
  "let P = snd (serve example_context (Mmap (Inr (example_params 0x2000 3))) (example_vm []));
       Q = snd (serve example_context (Mprotect 0x10000 0x1000 7) P)
   in space_inv example_env (vp_space Q) \<and> wx_free (vp_space Q)"
proof -
  let ?P = "snd (serve example_context (Mmap (Inr (example_params 0x2000 3))) (example_vm []))"
  have base: "kernel_mapping_base (kc_env example_context) = kernel_mapping_base example_env" by (simp add: example_context_def)
  have "vm_run (kernel_mapping_base example_env) (example_vm []) ?P"
    by (rule vm_run.call [OF vm_run.start base example_context_ok]) (simp add: example_params_def)
  from vm_run.call [OF this base example_context_ok, of "Mprotect 0x10000 0x1000 7"]
  have "vm_run (kernel_mapping_base example_env) (example_vm []) (snd (serve example_context (Mprotect 0x10000 0x1000 7) ?P))" by simp
  from memory_calls_keep_invariants [OF this example_inv] example_wx show ?thesis by (simp add: Let_def example_vm_def)
qed



section \<open>munmap after mmap\<close>

lemma gate_Inr [res_simps]: "gate mem x P = (Inr u, Q) \<longleftrightarrow> Q = P \<and> (\<not> has_promises (vp_process P) \<or> has_promised (vp_process P) x)"
  by (cases rule: require_promise_cases [of mem x "vp_process P"]) (auto simp: gate_def)

lemma gate_if_Inr:
  "(if b then gate mem x P else (Inr (), P)) = (Inr u, Q) \<longleftrightarrow> Q = P \<and> (b \<longrightarrow> \<not> has_promises (vp_process P) \<or> has_promised (vp_process P) x)"
  by (auto simp: res_simps)

lemma refuse_Inr: "((if b then (Inl e, P) else out) = (Inr y, Q)) \<longleftrightarrow> \<not> b \<and> out = (Inr y, Q)"
  by simp

lemma sys_mmap_Inr:
  assumes "sys_mmap env mem descriptions (Inr params) P = (Inr a, Q)" "mm_addr params < 2 ^ 64"
  obtains requested object alignment where "\<not> has_promises (vp_process P) \<or> has_promised (vp_process P) Pledge_stdio" "mm_size params \<noteq> 0"
    "page_round_up (mm_size params) = Inr (vsize requested)" "vbase requested < 2 ^ 64" "0 < alignment"
    "vmobject_to_map env descriptions params (vsize requested) requested = Inr object"
    "on_space (map_into_space env params alignment requested object) P = (Inr a, Q)"
proof -
  obtain n object where g: "\<not> has_promises (vp_process P) \<or> has_promised (vp_process P) Pledge_stdio" "mm_size params \<noteq> 0"
    "page_round_up (mm_size params) = Inr n" "vmobject_to_map env descriptions params n (requested_range_of params n) = Inr object"
    "on_space (map_into_space env params (if mm_alignment params \<noteq> 0 then mm_alignment params else PAGE_SIZE) (requested_range_of params n) object) P = (Inr a, Q)"
    using assms(1) unfolding sys_mmap_def Let_def tryS_Inr_iff gate_if_Inr refuse_Inr gate_Inr by blast
  then show ?thesis using assms(2) le_less_trans [OF requested_range_simps(2) assms(2)] by (intro that [of "requested_range_of params n"]) auto
qed

lemma round_up_shift:
  assumes "PAGE_SIZE dvd b" "page_round_up n = Inr m" "b + m < 2 ^ 64"
  shows "page_round_up (b + n) = Inr (b + m)"
proof -
  have m: "n \<le> m" "m < n + 4096" "4096 dvd m" using assms(2) by (cases n rule: page_round_up_cases; simp)+
  obtain y where y: "b + m = 4096 * y" using assms(1) m(3) by (metis dvd_add dvdE)
  have le: "b + n \<le> 0xfffffffffffff000"
  proof -
    have "4096 * y < 4096 * 4503599627370496" using assms(3) y by simp
    then have "y < 4503599627370496" by (simp only: mult_less_cancel1)
    then show ?thesis using y m(1) by linarith
  qed
  show ?thesis
  proof (cases "b + n" rule: page_round_up_cases)
    case 1 then show ?thesis using le by simp
  next
    case (2 e)
    then obtain x where x: "e = 4096 * x" by (auto simp: dvd_def)
    have "4096 * x < 4096 * Suc y" "4096 * y < 4096 * Suc x" using 2 x y m by simp_all
    then have "x = y" by (simp only: mult_less_cancel1) simp
    then show ?thesis using 2(1) x y by simp
  qed
qed

lemma expand_aligned:
  assumes "PAGE_SIZE dvd b" "page_round_up n = Inr m" "b + m < 2 ^ 64"
  shows "expand_to_page_boundaries b n = Inr \<lparr>vbase = b, vsize = m\<rparr>"
proof -
  have "n \<le> m" using assms(2) page_round_up_facts by blast
  then have "size_add b n = b + n" using assms(3) by (simp add: size_add_eq)
  moreover have "page_round_down b = b" using assms(1) by (simp add: page_round_down_def)
  ultimately show ?thesis using round_up_shift [OF assms] assms(3) by (simp add: expand_to_page_boundaries_def Let_def size_sub_eq)
qed

lemma user_range:
  assumes "proper rng" "vend rng \<le> USER_RANGE_CEILING K"
  shows "is_user_range K (vbase rng) (vsize rng)"
proof -
  have p: "0 < vsize rng" "vbase rng + vsize rng < 2 ^ 64" "vbase rng + vsize rng \<le> USER_RANGE_CEILING K"
    using assms by (simp_all add: vend_eq) (simp_all add: proper_def)
  then have "size_add (vbase rng) (vsize rng) = vbase rng + vsize rng" "size_add (vbase rng) (vsize rng - 1) = vbase rng + (vsize rng - 1)"
    by (simp_all add: size_add_eq)
  moreover have "vbase rng + vsize rng - Suc 0 < USER_RANGE_CEILING K" using p(1,3) by linarith
  ultimately show ?thesis using p by (simp add: is_user_range_def is_user_address_def)
qed

lemma unmap_whole:
  assumes "space_inv env s" "r \<in> set (regions s)" "m_mmap r" "\<not> m_immutable r" "expand_to_page_boundaries a n = Inr (m_range r)" "n \<noteq> 0"
  shows "unmap_mmap_range env a n s = (Inr (), with_regions (remove_region (vaddr r)) s)"
proof -
  note r = space_region [OF assms(1,2)]
  have "find_region_from_range s (m_range r) = Some r" using find_region_from_range_Some [OF assms(1) r(1)] assms(2) by simp
  then show ?thesis using assms take_region_eq [OF assms(1,2)] user_range [OF r(1,4)] by (simp add: unmap_mmap_range_def deallocate_region_def)
qed

text \<open>\<^bold>\<open>C9.\<close> Unmapping what \<^verbatim>\<open>mmap\<close> just mapped, by the address it returned and the size that was asked for, succeeds and gives
  back the process exactly as it was, unless the mapping replaced another one (\<^verbatim>\<open>MAP_FIXED\<close>).\<close>

theorem mmap_munmap_roundtrip:
  assumes "space_inv env (vp_space P)" "descriptions_ok descriptions" "mm_addr params < 2 ^ 64" "mm_size params < 2 ^ 64"
    and "\<not> flag (mm_flags params) MAP_FIXED" "sys_mmap env mem descriptions (Inr params) P = (Inr a, Q)"
  shows "sys_munmap env mem a (mm_size params) Q = (Inr 0, P)"
proof -
  obtain requested object alignment where g: "\<not> has_promises (vp_process P) \<or> has_promised (vp_process P) Pledge_stdio" "mm_size params \<noteq> 0"
    "page_round_up (mm_size params) = Inr (vsize requested)" "vbase requested < 2 ^ 64" "0 < alignment"
    "vmobject_to_map env descriptions params (vsize requested) requested = Inr object"
    "on_space (map_into_space env params alignment requested object) P = (Inr a, Q)"
    by (rule sys_mmap_Inr [OF assms(6,3)])
  let ?s = "vp_space P"
  obtain res s1 s' G where m: "map_into_space env params alignment requested object ?s = (res, s')" "mmap_outcome env params requested object ?s res s1 s' G"
    using mmap_space_ok [OF assms(1,2,3,4) g(2-6)] by (elim exE conjE) (rule that)
  have q: "res = Inr a" "Q = P\<lparr>vp_space := s'\<rparr>" using g(7) m(1) by (simp_all add: on_space_def)
  then obtain rng where r: "a = vbase rng" "space_free ?s rng" "vsize rng = vsize requested"
    "s' = with_regions (insert_region (mapped_region params object rng)) ?s" "region_ok (mapped_region params object rng)"
    using m(2) assms(5) by (auto simp: mmap_outcome_def)
  let ?r = "mapped_region params object rng"
  have p: "proper rng" using r(2) by (simp add: free_range_def)
  have inv: "space_inv env s'" using space_insert [OF assms(1), of ?r] r(2,4,5) by simp
  have mem: "?r \<in> set (regions s')" using r(4) by (simp add: insert_region_def)
  have "expand_to_page_boundaries a (mm_size params) = Inr (m_range ?r)"
    using expand_aligned [of "vbase rng" "mm_size params" "vsize rng"] g(3) r(1,3) p by (simp add: proper_def)
  then have "unmap_mmap_range env a (mm_size params) s' = (Inr (), with_regions (remove_region (vbase rng)) s')"
    using unmap_whole [OF inv mem] g(2) by simp
  moreover have "with_regions (remove_region (vbase rng)) s' = ?s" using remove_insert [OF assms(1), of ?r] r(2,4) by simp
  moreover have "gate mem Pledge_stdio Q = (Inr (), Q)" using g(1) q(2) by (simp add: gate_Inr)
  ultimately show ?thesis using q(2) by (simp add: sys_munmap_def on_space_def)
qed

theorem mmap_munmap_roundtrip_witness:
  "fst (sys_mmap example_env True (\<lambda>_. Inl (Errno EINVAL)) (Inr (example_params 0x1800 3)) (example_vm [])) = Inr 0x10000 \<and>
   sys_munmap example_env True 0x10000 0x1800
     (snd (sys_mmap example_env True (\<lambda>_. Inl (Errno EINVAL)) (Inr (example_params 0x1800 3)) (example_vm []))) = (Inr 0, example_vm [])"
proof -
  have m: "fst (sys_mmap example_env True (\<lambda>_. Inl (Errno EINVAL)) (Inr (example_params 0x1800 3)) (example_vm [])) = Inr 0x10000"
    by (simp add: sys_mmap_def vm_eval)
  have "descriptions_ok (\<lambda>_. Inl (Errno EINVAL))" by (simp add: descriptions_ok_def)
  from mmap_munmap_roundtrip [OF example_inv this, of "example_params 0x1800 3" True "0x10000"
    "snd (sys_mmap example_env True (\<lambda>_. Inl (Errno EINVAL)) (Inr (example_params 0x1800 3)) (example_vm []))"] m
  show ?thesis by (simp add: example_params_def flag_def prod_eq_iff)
qed

section \<open>What the calls do to the pages\<close>

text \<open>\<^bold>\<open>C11.\<close> \<^verbatim>\<open>munmap\<close> keeps the address space well-formed and takes away pages only of mappings that are neither the kernel's own
  nor immutable; every other page stays as it is. When it succeeds the pages it takes lie in the range, and it takes
  all of the range if one region covers it. When it fails for any other reason than memory nothing changes.\<close>

theorem munmap_correct:
  assumes "space_inv env (vp_space P)" "addr < 2 ^ 64" "n < 2 ^ 64"
  shows "\<exists>res Q G. sys_munmap env mem addr n P = (res, Q) \<and> space_inv env (vp_space Q) \<and>
    view (regions (vp_space Q)) = view (regions (vp_space P)) |` (- G) \<and>
    (\<forall>a \<in> G. \<forall>p. view (regions (vp_space P)) a = Some p \<longrightarrow> m_mmap p \<and> \<not> m_immutable p) \<and>
    (\<forall>x. res = Inr x \<longrightarrow> (\<exists>rng. expand_to_page_boundaries addr n = Inr rng \<and> G \<subseteq> addresses rng \<and>
       ((\<exists>r \<in> set (regions (vp_space P)). addresses rng \<subseteq> addresses (m_range r)) \<longrightarrow> G = addresses rng))) \<and>
    (\<forall>e. res = Inl e \<longrightarrow> e = Errno ENOMEM \<or> vp_space Q = vp_space P)"
proof (cases rule: require_promise_cases [of mem Pledge_stdio "vp_process P"])
  case (violation q)
  have "view (regions (vp_space P)) = view (regions (vp_space P)) |` (- {})" by (simp add: fun_eq_iff restrict_map_def)
  with violation assms(1) show ?thesis
    by (intro exI [of _ "Inl (Errno EPROMISEVIOLATION)"] exI [of _ "P\<lparr>vp_process := q\<rparr>"] exI [of _ "{}"]) (simp add: sys_munmap_def gate_def)
next
  case ok
  from unmap_mmap_range_ok [OF assms] obtain res s' G where u: "unmap_mmap_range env addr n (vp_space P) = (res, s')" "unmapped env (vp_space P) s' G"
    "res = Inr () \<and> (\<exists>rng. expand_to_page_boundaries addr n = Inr rng \<and> proper rng \<and> G \<subseteq> addresses rng \<and>
        ((\<exists>r \<in> set (regions (vp_space P)). addresses rng \<subseteq> addresses (m_range r)) \<longrightarrow> G = addresses rng))
     \<or> res = Inl (Errno ENOMEM) \<or> s' = vp_space P \<and> res \<in> {Inl (Errno EINVAL), Inl (Errno EFAULT), Inl (Errno EPERM)}"
    by (elim exE conjE) (rule that)
  have "sys_munmap env mem addr n P = (tryE res (\<lambda>_. Inr 0), P\<lparr>vp_space := s'\<rparr>)"
    using ok u(1) by (cases res) (simp_all add: sys_munmap_def gate_def on_space_def)
  with u(2,3) show ?thesis
    by (intro exI [of _ "tryE res (\<lambda>_. Inr 0)"] exI [of _ "P\<lparr>vp_space := s'\<rparr>"] exI [of _ G]) (auto simp: unmapped_def)
qed

theorem munmap_correct_witness:
  "\<exists>res Q G. sys_munmap example_env True 0x10000 0x1000 (example_vm []) = (res, Q) \<and>
     view (regions (vp_space Q)) = view (regions (vp_space (example_vm []))) |` (- G)"
  using munmap_correct [OF example_inv, of "0x10000" "0x1000" True] by auto


lemma example_region_inv:
  assumes "b = 0x20000" "n \<in> {0x1000, 0x2000, 0x3000}" "access AND 7 = access"
  shows "space_inv example_env (vp_space (example_vm [example_region b n access been]))"
  using assms by (auto simp: space_inv_def tree_inv_def regions_ok_def region_ok_def example_vm_def example_env_def example_region_def
      proper_def vend_def size_add_def USER_RANGE_BASE_def USER_RANGE_CEILING_def size_sub_def is_shared_inode_def)


section \<open>What goes wrong\<close>

text \<open>\<^bold>\<open>C36.\<close> \<^verbatim>\<open>munmap\<close> of a range that starts below every region does nothing and reports success, even if the range holds mapped
  pages: the search for the regions starts at the last region not above the start of the range.\<close>

theorem munmap_below_misses:
  assumes "\<not> has_promises (vp_process P) \<or> has_promised (vp_process P) Pledge_stdio" "n \<noteq> 0" "expand_to_page_boundaries addr n = Inr rng"
    and "is_user_range (kernel_mapping_base env) (vbase rng) (vsize rng)" "\<forall>r \<in> set (regions (vp_space P)). vbase rng < vaddr r"
  shows "sys_munmap env mem addr n P = (Inr 0, P)"
proof -
  have "find_largest_not_above (regions (vp_space P)) (vbase rng) = None" "find_region (regions (vp_space P)) (vbase rng) = None"
    using assms(5) by (auto simp: find_largest_not_above_def find_region_def find_None_iff)
  then have "unmap_mmap_range env addr n (vp_space P) = (Inr (), vp_space P)"
    using assms(2-4) by (simp add: unmap_mmap_range_def find_region_from_range_def find_region_containing_def find_regions_intersecting_def)
  moreover have "gate mem Pledge_stdio P = (Inr (), P)" using assms(1) by (simp add: gate_Inr)
  ultimately show ?thesis by (simp add: sys_munmap_def on_space_def)
qed

theorem munmap_below_misses_witness:
  "let P = example_vm [example_region 0x20000 0x1000 3 True]
   in view (regions (vp_space P)) 0x20000 \<noteq> None \<and> sys_munmap example_env True 0x1f000 0x2000 P = (Inr 0, P)"
proof -
  let ?P = "example_vm [example_region 0x20000 0x1000 3 True]"
  have "expand_to_page_boundaries 0x1f000 0x2000 = Inr \<lparr>vbase = 0x1f000, vsize = 0x2000\<rparr>" by (simp add: vm_eval expand_to_page_boundaries_def)
  from munmap_below_misses [OF _ _ this, of ?P example_env True] show ?thesis
    by (simp add: vm_eval view_def addresses_def)
qed



text \<open>\<^verbatim>\<open>mremap\<close> of a shared file mapping that has no name panics: the name is dereferenced without a check. A plain
  \<^verbatim>\<open>mmap\<close> passes no name.\<close>

theorem mremap_unnamed_panics:
  assumes "space_inv env (vp_space P)" "\<not> has_promises (vp_process P) \<or> has_promised (vp_process P) Pledge_stdio"
    and "r \<in> set (regions (vp_space P))" "is_shared_inode (m_vmobject r)" "m_mmap r" "\<not> m_immutable r" "m_name r = None"
    and "private_vmobject (m_vmobject r) = Inr v" "flag flags MAP_PRIVATE" "\<not> flag flags (MAP_ANONYMOUS OR MAP_NORESERVE)"
  shows "fst (sys_mremap env mem private_vmobject (Inr (vaddr r, vsize (m_range r), flags)) P) = Inl Verification_failed"
proof -
  have p: "proper (m_range r)" by (rule space_region(1) [OF assms(1,3)])
  then have "page_round_up (vsize (m_range r)) = Inr (vsize (m_range r))" by (intro page_round_up_aligned) (auto simp: proper_def)
  then have "expand_range_to_page_boundaries (vaddr r) (vsize (m_range r)) = Inr (m_range r)"
    using expand_aligned [of "vaddr r" "vsize (m_range r)" "vsize (m_range r)"] p by (simp add: expand_same proper_def)
  moreover have "find_region_from_range (vp_space P) (m_range r) = Some r" using find_region_from_range_Some [OF assms(1) p] assms(3) by simp
  moreover have "gate mem Pledge_stdio P = (Inr (), P)" using assms(2) by (simp add: gate_Inr)
  moreover have "fst (mremap_private env private_vmobject r (vp_space P)) = Inl Verification_failed"
    using take_region_eq [OF assms(1,3)] assms(7,8) by (simp add: mremap_private_def deallocate_region_def)
  ultimately show ?thesis using assms(4-6,9,10) by (auto simp: sys_mremap_def on_space_def split: prod.split)
qed

theorem mremap_unnamed_panics_witness:
  "let r = (example_region 0x20000 0x1000 1 False)\<lparr>m_vmobject := \<lparr>vm_identity = 1, vm_kind = Shared_inode, vm_size = 0x1000\<rparr>, m_shared := True\<rparr>
   in fst (sys_mremap example_env True (\<lambda>_. Inr \<lparr>vm_identity = 2, vm_kind = Private_inode, vm_size = 0x1000\<rparr>)
        (Inr (0x20000, 0x1000, 2)) (example_vm [r])) = Inl Verification_failed"
proof -
  let ?r = "(example_region 0x20000 0x1000 1 False)\<lparr>m_vmobject := \<lparr>vm_identity = 1, vm_kind = Shared_inode, vm_size = 0x1000\<rparr>, m_shared := True\<rparr>"
  have inv: "space_inv example_env (vp_space (example_vm [?r]))"
    by (simp add: space_inv_def tree_inv_def regions_ok_def region_ok_def example_vm_def example_env_def example_region_def
      proper_def vend_def size_add_def USER_RANGE_BASE_def USER_RANGE_CEILING_def size_sub_def is_shared_inode_def)
  show ?thesis using mremap_unnamed_panics [OF inv, of ?r "\<lambda>_. Inr \<lparr>vm_identity = 2, vm_kind = Private_inode, vm_size = 0x1000\<rparr>" _ 2 True]
    by (simp add: example_vm_def example_region_def is_shared_inode_def flag_def)
qed

end
