(* ===== verification/Program_Example.thy ===== *)
theory Program_Example
  imports Exec_Space Mmap_Sequences
begin

text \<open>
  A small program and its loading into a new address space, for the examples: one executable segment at
  \<^verbatim>\<open>0x400000\<close>, and a stack of 1 MiB that the random number generator puts at \<^verbatim>\<open>0x800000\<close>.
\<close>

definition tiny_file :: exec_file where
  "tiny_file = \<lparr>f_bytes = tiny_elf, f_regular = True, f_vmobject = Inr (), f_kernel_region = Inr (), f_writable_mappings = False\<rparr>"

definition tiny_vmobject :: vmobject where
  "tiny_vmobject = \<lparr>vm_identity = 3, vm_kind = Shared_inode, vm_size = 0x1000\<rparr>"

definition load_env :: vm_env where
  "load_env = example_env\<lparr>vm_random := (\<lambda>_. 0x800000)\<rparr>"

definition fresh_space :: "region list \<Rightarrow> address_space" where
  "fresh_space rs = \<lparr>m_region_tree = \<lparr>m_regions = rs, m_total_range = \<lparr>vbase = 0x10000, vsize = 0x1ffdff0000\<rparr>\<rparr>, m_enforces_syscall_regions = False\<rparr>"

definition loaded_segment :: region where
  "loaded_segment = (create_unplaced tiny_vmobject 0 (Some []) (prot_to_region_access_flags 5) Normal_memory True)
     \<lparr>m_range := \<lparr>vbase = 0x400000, vsize = 0x1000\<rparr>, m_page_directory := True, m_initially_loaded_executable_segment := True\<rparr>"

lemma fresh_space: "AddressSpace_try_create load_env True 0 None = Inr (fresh_space [])"
  by (simp add: AddressSpace_try_create_def load_env_def fresh_space_def vm_eval)

lemma place_segment:
  "place_region load_env (\<lambda>_ _. Inr ()) tiny_vmobject [] (Map_region 0x400000 0x1000 0x1000 0 \<lparr>prot_read = True, prot_write = False, prot_exec = True\<rparr> False) (fresh_space [])
    = Inr (0x400000, fresh_space [loaded_segment])"
  by (simp add: place_region_def vm_eval vm_eval_split prot_bits_def tiny_vmobject_def load_env_def loaded_segment_def fresh_space_def)

lemma first_random: "\<exists>rs. map f [0..<1000] = f (0::nat) # rs"
proof -
  have "[0..<1000] = 0 # [Suc 0..<1000::nat]" by (rule upt_conv_Cons) simp
  then show ?thesis by (simp only: list.map) blast
qed

lemma random_first: "try_random_addresses (m_region_tree (fresh_space [loaded_segment])) 0x100000 0x1000 (vm_random load_env 0 # rs) = Inr (Some \<lparr>vbase = 0x800000, vsize = 0x100000\<rparr>)"
    by (simp add: load_env_def loaded_segment_def example_env_def allocate_range_specific_def contains_span_def vend_def round_up_to_power_of_two_def
        size_add_def size_sub_def intersects_def find_largest_not_above_def in_range_def verifyE_def contains_range_def fresh_space_def create_unplaced_def)

lemma random_stack: "allocate_range_randomized load_env (m_region_tree (fresh_space [loaded_segment])) 0x100000 0x1000 = Inr \<lparr>vbase = 0x800000, vsize = 0x100000\<rparr>"
proof -
  from first_random [of "vm_random load_env"] obtain rs where r: "map (vm_random load_env) [0..<1000] = vm_random load_env 0 # rs" by (elim exE) (rule that)
  show ?thesis by (simp add: allocate_range_randomized_def r random_first verifyE_def del: upt_rec_numeral try_random_addresses.simps)
qed

lemma map_pages_supplied: "\<not> m_mmap r \<Longrightarrow> map_pages load_env r is = Inr True"
  by (induction "is") (simp_all add: tryE_def map_individual_page_impl_def Let_def verifyE_def load_env_def example_env_def)

lemma Region_map_stack:
  "\<not> m_mmap r \<Longrightarrow> \<not> is_shared_inode (m_vmobject r) \<Longrightarrow> page_count r > 0 \<Longrightarrow> Region_map load_env r = Inr (attached r, True)"
  by (simp add: Region_map_def map_pages_supplied verifyE_def attached_def)

lemma place_stack:
  "\<exists>s. place_region load_env (\<lambda>_ _. Inr ()) tiny_vmobject [] (Stack_region 0x100000 \<lparr>prot_read = True, prot_write = True, prot_exec = False\<rparr>) (fresh_space [loaded_segment])
    = Inr (0x800000, s)"
proof -
  have "anonymous_memory load_env Strategy_Reserve 0x100000" "region_memory load_env x" for x by (simp_all add: load_env_def example_env_def)
  then show ?thesis
  by (simp add: place_region_def allocate_region_def prot_bits_def page_round_up_def size_t_def try_create_with_size_def place_def place_anywhere_def random_stack Let_def
     Region_map_stack create_unplaced_def is_shared_inode_def page_count_def attached_def)
qed

lemma tiny_segment:
  "Phdr_at tiny_elf 64 = \<lparr>p_type = PT_LOAD, p_flags = 5, p_offset = 0, p_vaddr = 0x400000, p_paddr = 0x400000, p_filesz = 120, p_memsz = 120, p_align = 0x1000\<rparr>"
  by (simp add: Phdr_at_def field_def tiny_elf_def le_nat_def)
lemma tiny_image: "Image_parse None tiny_elf =
    Inr \<lparr>m_buffer = tiny_elf, m_valid = True, m_symbol_table_section_index = 0, m_string_table_section_index = 0\<rparr>"
proof -
  have "check_program_header (Ehdr_at tiny_elf) 120 None (Phdr_at tiny_elf 64) = Accept"
    unfolding tiny_header tiny_segment check_program_header_def check_segment_def PF_X_def PF_W_def
    by (simp add: addition_would_overflow_def in_range_def size_t_def min_of_def max_of_def)
  then have "validate_program_headers (Ehdr_at tiny_elf) 120 None tiny_elf = Inr (True, None, None)"
    unfolding validate_program_headers_def using core_table tiny_length by (simp add: tiny_header read_Phdr_def upt_rec)
  moreover have "image_header img = Inr (Ehdr_at tiny_elf)" if "m_buffer img = tiny_elf" for img
    using image_header_eq [of img] tiny_length that by simp
  ultimately show ?thesis using tiny_header_valid tiny_length by (simp add: Image_parse_def Let_def section_count_def tiny_header)
qed

lemma load_tiny: "\<exists>res s. load_elf_object (place_region load_env (\<lambda>_ _. Inr ()) tiny_vmobject []) None tiny_file 0 False None (fresh_space []) = Inr (res, s)"
proof -
  let ?img = "\<lparr>m_buffer = tiny_elf, m_valid = True, m_symbol_table_section_index = 0, m_string_table_section_index = 0\<rparr>"
  have wf: "image_wf ?img"
    using validate_elf_header_total [OF Ehdr_at_ok, of 120 tiny_elf] tiny_header_valid tiny_length by (auto simp: image_wf_def)
  have hs: "image_program_headers ?img = Inr [Phdr_at tiny_elf 64]" "image_header ?img = Inr (Ehdr_at tiny_elf)"
    using image_program_headers_eq [OF wf] image_header_eq [of ?img] tiny_length by (simp_all add: headers_of_def tiny_header upt_rec)
  have sr: "section_request ?img 0 False (Phdr_at tiny_elf 64) =
      Inr (Some (Map_region 0x400000 0x1000 0x1000 0 \<lparr>prot_read = True, prot_write = False, prot_exec = True\<rparr> False))"
    by (simp add: section_request_def tiny_segment PF_W_def PF_R_def PF_X_def segment_range_def page_round_up_def page_round_down_def size_add_def
        size_sub_def verifyE_def size_t_def Let_def)
  obtain s where st: "place_region load_env (\<lambda>_ _. Inr ()) tiny_vmobject [] (Stack_region 0x100000 \<lparr>prot_read = True, prot_write = True, prot_exec = False\<rparr>) (fresh_space [loaded_segment])
    = Inr (0x800000, s)" using place_stack by blast
  show ?thesis using hs sr st place_segment tiny_image
    by (simp add: load_elf_object_def tiny_file_def tiny_length page_round_up_def tiny_header size_t_def default_userspace_stack_size_def Let_def size_add_def)
qed

end
