(* ===== verification/Spec2Isabelle.thy ===== *)
theory Spec2Isabelle
  imports Identity Pledge Kernel_Heap_Facts Physical_Region_Facts Program_Example
begin

text \<open>
  This development models parts of the kernel of MixUpOS, an operating system in C++, and of the libraries the kernel is
  built on, and proves what those parts promise. Paths are relative to \<^verbatim>\<open>src/\<close>.

  \<^bold>\<open>The parts and how they interact.\<close> A process makes system calls. Each call first checks the promises of the process
  (\<^verbatim>\<open>require_promise\<close> in \<^verbatim>\<open>Kernel/Tasks/Process.cpp\<close>); identity calls then change its credentials, \<^verbatim>\<open>pledge\<close> its
  promises, and memory calls its address space. An address space is a tree of regions; a region maps a range of pages of a
  memory object. \<^verbatim>\<open>execve\<close> finds an ELF image, validates it with LibELF, and fills a new address space with its segments
  and a stack. Below this, physical pages come from regions of physical memory cut into buddy zones, and the kernel's own
  objects from a heap of chunks; both use the bitmaps of AK. Sizes and addresses are computed with the checked integers
  of AK or with plain 64-bit arithmetic that wraps.

  \<^bold>\<open>How code is modelled.\<close> A class is a record, an enumeration a datatype, a method a function from the old state to the new
  one. A fallible operation returns \<^verbatim>\<open>error + 'a\<close>: the error is an error number, a failed \<^verbatim>\<open>VERIFY\<close> (a kernel panic), or a
  read outside a buffer, so that the absence of panics and of stray reads is a theorem about results. \<^verbatim>\<open>tryE\<close> is \<^verbatim>\<open>TRY\<close>;
  \<^verbatim>\<open>tryS\<close> is \<^verbatim>\<open>TRY\<close> in code that changes state, which keeps what was changed before the error. \<^verbatim>\<open>size_t\<close> and addresses are
  natural numbers with the wrap-around written out (\<^verbatim>\<open>size_add\<close>, \<^verbatim>\<open>size_sub\<close>) where the code computes with them; ids,
  flags, bit masks and bytes are machine words. What the kernel cannot know (whether memory can be had, random numbers,
  user memory, files, the identity of fresh objects) is an argument, so that a theorem holds for every choice of it.

  \<^bold>\<open>The theories.\<close>
  \<^item> \<open>Prelude\<close>: results, the two binds, 64-bit arithmetic, and the collection \<open>res_simps\<close> that takes results apart.
  \<^item> \<open>Process_State\<close>, \<open>Identity\<close>, \<open>Pledge\<close>: \<^verbatim>\<open>Kernel/Tasks/Process.{h,cpp}\<close>, \<^verbatim>\<open>Kernel/Security/Credentials\<close>,
    \<^verbatim>\<open>Kernel/Syscalls/{setuid,getuid,pledge}.cpp\<close>. Every identity call meets a contract, from which it follows that no
    sequence of calls gains a user id; promises only shrink; a promise string is parsed exactly.
  \<^item> \<open>Builtin_Bits\<close>, \<open>Bitmap\<close>, \<open>Bitmap_Facts\<close>, \<open>Bitmap_Search\<close>: \<^verbatim>\<open>AK/BuiltinWrappers.h\<close>, \<^verbatim>\<open>AK/BitmapView.h\<close>,
    \<^verbatim>\<open>AK/Bitmap.h\<close>. Counting, filling and searching by bytes, words and buckets agree with the bits; the
    searches end, or are shown not to.
  \<^item> \<open>Block_Allocator\<close>: the contract of an allocator as a locale, with what follows for any sequence of requests. \<open>Buddy\<close>
    is the abstract buddy system. \<open>Physical_Zone\<close> and its facts (\<^verbatim>\<open>Kernel/Memory/PhysicalZone\<close>) refine the buddy system
    and meet the contract; so does \<open>Kernel_Heap\<close> (\<^verbatim>\<open>Kernel/Heap/Heap.h\<close>). \<open>Physical_Region\<close>
    (\<^verbatim>\<open>Kernel/Memory/PhysicalRegion\<close>) is shown against the set of its free pages.
  \<^item> \<open>Checked_Integer\<close>, \<open>Elf\<close>, \<open>Elf_Facts\<close>: \<^verbatim>\<open>AK/Checked.h\<close>, \<^verbatim>\<open>LibELF/Validation.cpp\<close>, \<^verbatim>\<open>LibELF/Image.{h,cpp}\<close>. Checked
    arithmetic is exact; validation and parsing never read outside the file, and say what an accepted file promises.
  \<^item> \<open>Virtual_Range\<close>, \<open>Region_Tree\<close>, \<open>Address_Space\<close> and their facts: \<^verbatim>\<open>Kernel/Memory/{VirtualRange,Region,RegionTree,
    AddressSpace}\<close>. The invariant \<open>space_inv\<close> of an address space; its view as a partial function from addresses to
    pages, against which splitting, mapping and unmapping are shown.
  \<^item> \<open>Mmap\<close>, \<open>Mmap_Facts\<close>, \<open>Mmap_Calls\<close>, \<open>Mmap_Sequences\<close>: \<^verbatim>\<open>Kernel/Syscalls/mmap.cpp\<close>. Each call in every outcome, out of
    memory half-way included, and then any sequence of them.
  \<^item> \<open>Exec\<close>, \<open>Exec_Facts\<close>, \<open>Exec_Space\<close>: \<^verbatim>\<open>Kernel/Syscalls/execve.cpp\<close>, from the path to the filled address space.
    \<open>Program_Example\<close> loads a small program.
  \<^item> This theory joins the parts: a process that is loaded and then makes memory, identity and promise calls.

  \<^bold>\<open>Bounds and termination.\<close> Nothing runs on fuel. Every function is total, but for the two loops of the bitmaps that may
  run forever (\<open>find_longest_loop\<close>, \<open>find_best_fit_loop\<close>): they are partial functions where not returning is \<open>None\<close>, and
  it is proved on which bitmaps they return. Recursive \<^verbatim>\<open>exec\<close> through scripts ends because the code counts the levels. Buffers of an
  ELF image are less than 4 GiB, as the 32-bit offsets of \<^verbatim>\<open>Image\<close> need; requests to the heap are small enough for its
  size computation not to wrap (the theorem \<open>Heap_allocate_wraps\<close> shows what happens otherwise). The kernel mapping is
  page-aligned and leaves some room for a process.

  \<^bold>\<open>What is not modelled.\<close> Concurrency and locks: the calls modelled hold the lock of the state they change, so that
  they run one after the other. Page tables and page faults: mapping a page succeeds or not, and copy-on-write is not
  followed. The balancing of \<^verbatim>\<open>AK/IntrusiveRedBlackTree.h\<close>: the tree of regions is the sorted list of its nodes. In
  \<^verbatim>\<open>execve.cpp\<close>, the replacement of the running process and the initial stack. \<^verbatim>\<open>msync\<close> and the calls of \<^verbatim>\<open>mmap.cpp\<close>
  on other files. The file systems, devices, drivers, network and scheduler of the kernel, the boot code and the
  architecture-dependent code are mostly input and output and hardware state. Userland (applications, services, LibJS,
  LibWeb and the other libraries), the ports, the toolchain and the build scripts are programs of their own.
\<close>

section \<open>The calls of a process\<close>

text \<open>A process makes memory, identity and promise calls in any order. The kernel answers each memory call from some
  state of its own.\<close>

datatype process_call =
    Memory_call kernel_context vm_call
  | Identity_call "group_id list \<Rightarrow> group_id list" bool identity_op
  | Pledge_call "pledge_params option"

fun process_step :: "process_call \<Rightarrow> vm_process \<Rightarrow> vm_process" where
  "process_step (Memory_call k c) P = snd (Mmap_Sequences.serve k c P)"
| "process_step (Identity_call hash_order mem op) P = P\<lparr>vp_process := snd (identity_step hash_order mem op (vp_process P))\<rparr>"
| "process_step (Pledge_call user_params) P = P\<lparr>vp_process := snd (sys_pledge user_params (vp_process P))\<rparr>"

fun admissible_call :: "nat \<Rightarrow> process_call \<Rightarrow> bool" where
  "admissible_call K (Memory_call k c) \<longleftrightarrow> kernel_mapping_base (kc_env k) = K \<and> context_ok k \<and> call_ok c"
| "admissible_call K _ \<longleftrightarrow> True"

inductive process_run :: "nat \<Rightarrow> vm_process \<Rightarrow> vm_process \<Rightarrow> bool" for K where
  start: "process_run K P P"
| call: "process_run K P Q \<Longrightarrow> admissible_call K c \<Longrightarrow> process_run K P (process_step c Q)"

inductive_cases process_runE: "process_run K P Q"

section \<open>What confines a process\<close>

abbreviation lacks :: "vm_process \<Rightarrow> pledge \<Rightarrow> bool" where
  "lacks P x \<equiv> has_promises (vp_process P) \<and> \<not> has_promised (vp_process P) x"

abbreviation credentials_of :: "vm_process \<Rightarrow> credentials" where
  "credentials_of P \<equiv> credentials (vp_process P)"

definition confined :: "vm_env \<Rightarrow> vm_process \<Rightarrow> vm_process \<Rightarrow> bool" where
  "confined env P Q \<longleftrightarrow> good_step env P (vp_space P) (vp_space Q) \<and> vp_wxallowed Q = vp_wxallowed P \<and>
     narrows (vp_process P) (vp_process Q) \<and> (lacks P Pledge_id \<longrightarrow> credentials_of Q = credentials_of P) \<and>
     (0 \<notin> user_ids (credentials_of P) \<longrightarrow> user_ids (credentials_of Q) \<subseteq> user_ids (credentials_of P))"

lemma confined_refl: "space_inv env (vp_space P) \<Longrightarrow> confined env P P"
  by (simp add: confined_def good_refl)

lemma confined_trans:
  assumes "confined env P Q" "confined env Q R"
  shows "confined env P R"
proof -
  note p = assms(1) [unfolded confined_def] and q = assms(2) [unfolded confined_def]
  have n: "narrows (vp_process P) (vp_process Q)" using p by blast
  have keep: "lacks P x \<Longrightarrow> lacks Q x" for x using narrows_promised [OF n] by blast
  have "no_exec P \<longrightarrow> no_exec Q" unfolding no_exec_def using keep [of Pledge_prot_exec] by blast
  moreover have "good_step env Q (vp_space Q) (vp_space R)" "vp_wxallowed Q = vp_wxallowed P" using p q by blast+
  ultimately have "good_step env P (vp_space Q) (vp_space R)" by (simp add: good_step_def)
  then have "good_step env P (vp_space P) (vp_space R)" using good_trans p by blast
  moreover have "narrows (vp_process P) (vp_process R)" using narrows_trans [OF n] q by blast
  moreover have "lacks P Pledge_id \<longrightarrow> credentials_of R = credentials_of P" using keep [of Pledge_id] p q by metis
  moreover have "0 \<notin> user_ids (credentials_of P) \<longrightarrow> user_ids (credentials_of R) \<subseteq> user_ids (credentials_of P)" using p q by blast
  moreover have "vp_wxallowed R = vp_wxallowed P" using p q by metis
  ultimately show ?thesis by (simp only: confined_def)
qed

lemma same_protected_narrows: "same_protected p q \<Longrightarrow> narrows p q"
  by (simp add: narrows_def same_protectedD)

lemma identity_step_narrows: "narrows p (snd (identity_step ho mem op p))"
proof (cases "identity_step ho mem op p")
  case (Pair res q)
  have "narrows p (p\<lparr>dumpable := d, credentials := c\<rparr>)" for d c by (simp add: narrows_def)
  moreover have "same_protected p q \<or> q = p\<lparr>dumpable := dumpable q, credentials := credentials q\<rparr>"
    using identity_step_spec [of p ho mem op] Pair by (cases res) (simp_all add: identity_spec_def)
  ultimately show ?thesis using same_protected_narrows [of p q] Pair by (metis snd_conv)
qed

lemma identity_step_needs_promise:
  "has_promises p \<Longrightarrow> \<not> has_promised p Pledge_id \<Longrightarrow> credentials (snd (identity_step ho mem op p)) = credentials p"
  using identity_step_spec [of p ho mem op] by (auto simp: identity_spec_def dest: same_protectedD split: prod.splits sum.splits)

lemma sys_pledge_credentials: "credentials (snd (sys_pledge up p)) = credentials p"
  by (auto simp: sys_pledge_def Let_def split: option.splits sum.splits prod.splits)

lemma process_step_confined:
  assumes "admissible_call (kernel_mapping_base env) c" "space_inv env (vp_space P)"
  shows "confined env P (process_step c P)"
proof (cases c)
  case (Memory_call k d)
  then have "vm_run (kernel_mapping_base env) P (process_step c P)"
    using vm_run.call [OF vm_run.start, of k "kernel_mapping_base env" d P] assms(1) by simp
  from vm_run_good [OF this assms(2)] have g: "good_step env P (vp_space P) (vp_space (process_step c P))"
    "vp_wxallowed (process_step c P) = vp_wxallowed P" "same_protected (vp_process P) (vp_process (process_step c P))" by simp_all
  with same_protectedD(1) [OF g(3)] same_protected_narrows [OF g(3)] show ?thesis by (simp only: confined_def) blast
next
  case (Identity_call ho mem op)
  then show ?thesis using assms(2) identity_step_narrows identity_step_needs_promise identity_step_ids by (simp add: confined_def good_refl)
next
  case (Pledge_call up)
  then show ?thesis using assms(2) sys_pledge_narrows [of up "vp_process P"] sys_pledge_credentials [of up "vp_process P"]
    by (cases "sys_pledge up (vp_process P)") (simp add: confined_def good_refl)
qed

lemma process_run_confined:
  assumes "process_run (kernel_mapping_base env) P Q" "space_inv env (vp_space P)"
  shows "confined env P Q"
  using assms
proof (induction rule: process_run.induct)
  case (call P Q c)
  then have "confined env P Q" "space_inv env (vp_space Q)" by (auto simp: confined_def good_step_def)
  with process_step_confined [OF call.hyps(2)] show ?case using confined_trans by blast
qed (rule confined_refl)

section \<open>Properties of the kernel as a whole\<close>



text \<open>\<^bold>\<open>C2.\<close> Promises confine a process for good, whatever memory, identity and promise calls it makes, in any order: a
  promise it has given up it never holds again; without \<^verbatim>\<open>prot_exec\<close> no address ever becomes executable that was not;
  without \<^verbatim>\<open>id\<close> its credentials stay what they are.\<close>

theorem promises_confine:
  assumes "process_run (kernel_mapping_base env) P Q" "space_inv env (vp_space P)"
  shows "(\<forall>x. lacks P x \<longrightarrow> lacks Q x) \<and>
    (lacks P Pledge_prot_exec \<longrightarrow> (\<forall>a. executable_at (vp_space Q) a \<longrightarrow> executable_at (vp_space P) a)) \<and>
    (lacks P Pledge_id \<longrightarrow> credentials_of Q = credentials_of P)"
  using process_run_confined [OF assms] narrows_promised by (auto simp: confined_def good_step_def no_exec_def)

definition pledged_example :: vm_process where
  "pledged_example = process_step (Pledge_call (Some \<lparr>param_promises = Readable_argument ''stdio'', param_execpromises = Null_argument\<rparr>)) (example_vm [])"

lemma parse_stdio: "parse_pledge ''stdio'' = (True, pledge_bit Pledge_stdio)"
proof -
  have p: "split_view CHR '' '' ''stdio'' = [''stdio'']" by (simp add: split_view.simps)
  have q: "pledge_named ''stdio'' = Some Pledge_stdio" by (simp add: pledge_named_def all_pledges_def)
  show ?thesis by (simp only: parse_pledge_def p q parse_pledge_parts.simps option.case) simp
qed

lemma pledged_example: "has_promises (vp_process pledged_example)" "promises (vp_process pledged_example) = pledge_bit Pledge_stdio"
  "vp_space pledged_example = vp_space (example_vm [])"
proof -
  have "get_promises (Readable_argument ''stdio'') = Inr ''stdio''"
    by (simp add: get_promises_def provided_def all_promises_strings_length_with_spaces_def all_pledges_def get_syscall_string_fixed_buffer_def copy_characters_from_user_def)
  then show "has_promises (vp_process pledged_example)" "promises (vp_process pledged_example) = pledge_bit Pledge_stdio"
    "vp_space pledged_example = vp_space (example_vm [])"
    by (simp_all add: pledged_example_def example_vm_def sys_pledge_def get_promises_def parse_provided_def check_promises_def parse_stdio Let_def provided_def)
qed

theorem promises_confine_witness:
  "let Q = process_step (Identity_call (\<lambda>gs. gs) True (Op_setuid 0))
         (process_step (Memory_call example_context (Mmap (Inr (example_params 0x2000 5)))) pledged_example)
   in lacks pledged_example Pledge_prot_exec \<and> lacks pledged_example Pledge_id \<and>
      \<not> executable_at (vp_space Q) 0x10000 \<and> credentials_of Q = credentials_of pledged_example"
proof -
  have l: "lacks pledged_example Pledge_prot_exec" "lacks pledged_example Pledge_id" using pledged_example
    by (simp_all add: has_promised_def word_and_eq_0_iff)
  let ?c = "Memory_call example_context (Mmap (Inr (example_params 0x2000 5)))" and ?d = "Identity_call (\<lambda>gs. gs) True (Op_setuid 0)"
  have "admissible_call (kernel_mapping_base example_env) ?c" by (simp add: example_context_ok) (simp add: example_context_def example_params_def)
  from process_run.call [OF process_run.start this, of pledged_example]
  have "process_run (kernel_mapping_base example_env) pledged_example (process_step ?c pledged_example)" .
  from process_run.call [OF this, of ?d]
  have "process_run (kernel_mapping_base example_env) pledged_example (process_step ?d (process_step ?c pledged_example))" by simp
  from promises_confine [OF this] l pledged_example(3) example_inv
  have "\<not> executable_at (vp_space (process_step ?d (process_step ?c pledged_example))) 0x10000"
    "credentials_of (process_step ?d (process_step ?c pledged_example)) = credentials_of pledged_example"
    by (auto simp: executable_at_def view_def example_vm_def)
  with l show ?thesis by (simp only: Let_def) blast
qed

end
